(* ===== verification/Agdas_Prelude.thy ===== *)
theory Agdas_Prelude
  imports
    Main
    "HOL-Library.Word"
    "HOL-Library.AList"
    "HOL-Library.Char_ord"
    "HOL-Library.List_Lexorder"
begin

text \<open>
  The prelude: the types every component shares (byte strings, machine words, Go maps), the
  collections of rewrite rules the component proofs use, and the generic lemmas on them.

  A Go \<open>string\<close> and a Go \<open>[]byte\<close> are both sequences of bytes; both are \<open>char list\<close> here
  (an Isabelle \<open>char\<close> is one byte), so the order on strings is Go's bytewise order and
  \<open>length\<close> is Go's \<open>len\<close>.

  A Go map is an association list with distinct keys. Go leaves the order of a \<open>range\<close> loop
  over a map open; a loop of the model goes through the list, and its theorems hold for every
  list, so for every order.
\<close>

section \<open>Types and collections\<close>

type_synonym bytes = string
type_synonym u32 = "32 word"
type_synonym u64 = "64 word"
type_synonym ('k, 'v) gomap = "('k \<times> 'v) list"

named_theorems gomap_simps \<open>reading a Go map after a write\<close>
named_theorems gomap_wf \<open>what keeps the keys of a Go map distinct\<close>
named_theorems sm_frame \<open>which fields of the stream manager an operation leaves alone\<close>

section \<open>Go maps\<close>

definition gomap_ok :: "('k, 'v) gomap \<Rightarrow> bool" where
  "gomap_ok m \<longleftrightarrow> distinct (map fst m)"

definition mput :: "'k \<Rightarrow> 'v \<Rightarrow> ('k, 'v) gomap \<Rightarrow> ('k, 'v) gomap" where
  "mput k v m = AList.update k v m"

definition mdel :: "'k \<Rightarrow> ('k, 'v) gomap \<Rightarrow> ('k, 'v) gomap" where
  "mdel k m = AList.delete k m"

definition mlookup :: "('k, 'v) gomap \<Rightarrow> 'k \<Rightarrow> 'v option" where
  "mlookup m k = map_of m k"

text \<open>Reading an absent key of a Go map gives the zero value of the value type.\<close>

definition mget :: "'v \<Rightarrow> ('k, 'v) gomap \<Rightarrow> 'k \<Rightarrow> 'v" where
  "mget z m k = (case mlookup m k of None \<Rightarrow> z | Some v \<Rightarrow> v)"

text \<open>
  The interface of a Go map: what the components rely on is the lookup after each write and
  the meaning of \<open>len\<close> as the number of keys.
\<close>

locale go_map =
  fixes lookup :: "'m \<Rightarrow> 'k \<Rightarrow> 'v option"
    and put :: "'k \<Rightarrow> 'v \<Rightarrow> 'm \<Rightarrow> 'm"
    and del :: "'k \<Rightarrow> 'm \<Rightarrow> 'm"
    and len :: "'m \<Rightarrow> nat"
    and empty_map :: 'm
    and ok :: "'m \<Rightarrow> bool"
  assumes lookup_empty: "lookup empty_map k = None"
    and lookup_put: "lookup (put k v m) k' = (if k' = k then Some v else lookup m k')"
    and lookup_del: "lookup (del k m) k' = (if k' = k then None else lookup m k')"
    and finite_dom: "finite (dom (lookup m))"
    and len_card: "ok m \<Longrightarrow> len m = card (dom (lookup m))"
    and ok_empty: "ok empty_map"
    and ok_put: "ok m \<Longrightarrow> ok (put k v m)"
    and ok_del: "ok m \<Longrightarrow> ok (del k m)"
begin

lemma dom_put: "dom (lookup (put k v m)) = insert k (dom (lookup m))"
  by (auto simp: lookup_put dom_def)

lemma dom_del: "dom (lookup (del k m)) = dom (lookup m) - {k}"
  by (auto simp: lookup_del dom_def split: if_splits)

lemma len_put:
  assumes "ok m"
  shows "len (put k v m) = (if lookup m k = None then Suc (len m) else len m)"
proof -
  have "len (put k v m) = card (insert k (dom (lookup m)))"
    using assms by (simp add: len_card ok_put dom_put)
  then show ?thesis
    using assms by (auto simp: len_card finite_dom card_insert_if domIff)
qed

lemma len_del:
  assumes "ok m"
  shows "len (del k m) = (if lookup m k = None then len m else len m - 1)"
  using assms by (auto simp: len_card ok_del dom_del finite_dom domIff)

lemma len_pos: "ok m \<Longrightarrow> lookup m k = Some v \<Longrightarrow> 0 < len m"
  using finite_dom [of m] by (auto simp: len_card card_gt_0_iff)

lemma len_del_less: "ok m \<Longrightarrow> lookup m k = Some v \<Longrightarrow> len (del k m) < len m"
  using len_pos [of m k v] by (simp add: len_del)

lemma len_zero: "ok m \<Longrightarrow> len m = 0 \<longleftrightarrow> (\<forall>k. lookup m k = None)"
  using finite_dom [of m] by (auto simp: len_card)

lemma len_le_card:
  assumes "ok m" and "finite A" and "\<And>k v. lookup m k = Some v \<Longrightarrow> k \<in> A"
  shows "len m \<le> card A"
proof -
  have "dom (lookup m) \<subseteq> A" using assms(3) by auto
  then show ?thesis using assms(1,2) by (simp add: len_card card_mono)
qed

end

lemma mlookup_eq: "mlookup m = map_of m"
  by (simp add: mlookup_def fun_eq_iff)

lemma mlookup_dom: "dom (mlookup m) = fst ` set m"
  by (simp add: mlookup_eq dom_map_of_conv_image_fst)

interpretation gm: go_map mlookup mput mdel length "[]" gomap_ok
proof
  fix m :: "('k, 'v) gomap"
  assume "gomap_ok m"
  then have "card (set (map fst m)) = length (map fst m)"
    unfolding gomap_ok_def by (rule distinct_card)
  then show "length m = card (dom (mlookup m))"
    by (simp add: mlookup_dom)
qed (auto simp: mlookup_eq mput_def mdel_def gomap_ok_def AList.update_conv' AList.delete_conv'
        finite_dom_map_of distinct_update distinct_delete)

lemmas [gomap_simps] = gm.lookup_empty gm.lookup_put gm.lookup_del
lemmas [gomap_wf] = gm.ok_empty gm.ok_put gm.ok_del

lemma mget_put [gomap_simps]: "mget z (mput k v m) k' = (if k' = k then v else mget z m k')"
  by (simp add: mget_def gomap_simps)

lemma mget_del [gomap_simps]: "mget z (mdel k m) k' = (if k' = k then z else mget z m k')"
  by (simp add: mget_def gomap_simps)

lemma mget_empty [gomap_simps]: "mget z [] k = z"
  by (simp add: mget_def gomap_simps)

lemma mget_Some: "mlookup m k = Some v \<Longrightarrow> mget z m k = v"
  by (simp add: mget_def)

lemma mget_None: "mlookup m k = None \<Longrightarrow> mget z m k = z"
  by (simp add: mget_def)

lemma mput_not_Nil [simp]: "mput k v m \<noteq> []"
  using gm.lookup_put [of k v m k] gm.lookup_empty [of k] by (metis option.distinct(1))

lemma same_dom: "(\<And>k. (mlookup m k = None) = (mlookup n k = None)) \<Longrightarrow> dom (mlookup m) = dom (mlookup n)"
  by (auto simp: dom_def)

lemma mlookup_in_set: "mlookup m k = Some v \<Longrightarrow> (k, v) \<in> set m"
  by (simp add: mlookup_def map_of_SomeD)

lemma mlookup_iff_in_set: "gomap_ok m \<Longrightarrow> mlookup m k = Some v \<longleftrightarrow> (k, v) \<in> set m"
  by (simp add: mlookup_def gomap_ok_def)

section \<open>Bytes and words\<close>

definition byte_of :: "'a::len word \<Rightarrow> char" where
  "byte_of w = char_of (unat w)"

definition word_of_byte :: "char \<Rightarrow> 'a::len word" where
  "word_of_byte c = word_of_nat (of_char c)"

section \<open>Background loops\<close>

text \<open>What the \<open>select\<close> of a goroutine with a ticker receives: a tick, or the end of its context.\<close>

datatype loop_event = TickerFired | ContextDone

section \<open>Runs\<close>

text \<open>
  The contract of a step relation with its invariant; what holds at the start of a run holds
  throughout it.
\<close>

locale run_invariant =
  fixes step :: "'s \<Rightarrow> 's \<Rightarrow> bool"
    and good :: "'s \<Rightarrow> bool"
  assumes step_good: "step s s' \<Longrightarrow> good s \<Longrightarrow> good s'"
begin

lemma run_good: "step\<^sup>*\<^sup>* s s' \<Longrightarrow> good s \<Longrightarrow> good s'"
  by (induction rule: rtranclp_induct) (auto intro: step_good)

lemma run_avoids: "good s \<Longrightarrow> (\<And>s'. bad s' \<Longrightarrow> \<not> good s') \<Longrightarrow> step\<^sup>*\<^sup>* s s' \<Longrightarrow> \<not> bad s'"
  using run_good by blast

end

end
