(* ===== verification/Go_Strings.thy ===== *)
theory Go_Strings
  imports Agdas_Prelude "HOL-Library.Sublist"
begin

text \<open>
  What the program uses of Go's \<open>strings\<close>, \<open>fmt\<close> and \<open>encoding/binary\<close> packages: white-space
  trimming and splitting, prefixes and suffixes, decimal formatting and fixed-width integers.
  Go strings are UTF-8, so a white-space rune outside ASCII is one of the byte sequences below.
\<close>

section \<open>White space\<close>

definition ascii_space :: "char \<Rightarrow> bool" where
  "ascii_space c \<longleftrightarrow> of_char c \<in> {0x09, 0x0A, 0x0B, 0x0C, 0x0D, 0x20 :: nat}"

text \<open>
  The runes \<open>unicode.IsSpace\<close> accepts, as UTF-8: tab, newline, vertical tab, form feed, return,
  space, U+0085, U+00A0, U+1680, U+2000 to U+200A, U+2028, U+2029, U+202F, U+205F, U+3000.
\<close>

definition space_runes :: "string list" where
  "space_runes =
     [[CHR 0x09], [CHR 0x0A], [CHR 0x0B], [CHR 0x0C], [CHR 0x0D], [CHR 0x20],
      [CHR 0xC2, CHR 0x85], [CHR 0xC2, CHR 0xA0], [CHR 0xE1, CHR 0x9A, CHR 0x80],
      [CHR 0xE2, CHR 0x80, CHR 0x80], [CHR 0xE2, CHR 0x80, CHR 0x81],
      [CHR 0xE2, CHR 0x80, CHR 0x82], [CHR 0xE2, CHR 0x80, CHR 0x83],
      [CHR 0xE2, CHR 0x80, CHR 0x84], [CHR 0xE2, CHR 0x80, CHR 0x85],
      [CHR 0xE2, CHR 0x80, CHR 0x86], [CHR 0xE2, CHR 0x80, CHR 0x87],
      [CHR 0xE2, CHR 0x80, CHR 0x88], [CHR 0xE2, CHR 0x80, CHR 0x89],
      [CHR 0xE2, CHR 0x80, CHR 0x8A], [CHR 0xE2, CHR 0x80, CHR 0xA8],
      [CHR 0xE2, CHR 0x80, CHR 0xA9], [CHR 0xE2, CHR 0x80, CHR 0xAF],
      [CHR 0xE2, CHR 0x81, CHR 0x9F], [CHR 0xE3, CHR 0x80, CHR 0x80]]"

text \<open>The number of bytes of the first string of the list that the text starts with, 0 for none.\<close>

fun match_len :: "string list \<Rightarrow> string \<Rightarrow> nat" where
  "match_len [] s = 0"
| "match_len (r # rs) s = (if prefix r s then length r else match_len rs s)"

lemma match_len_le: "match_len rs s \<le> length s"
  by (induction rs) (auto simp: prefix_length_le)

fun trim_with :: "string list \<Rightarrow> string \<Rightarrow> string" where
  "trim_with rs s =
     (let n = match_len rs s in if n = 0 \<or> s = [] then s else trim_with rs (drop n s))"

declare trim_with.simps [simp del]

definition trim_left :: "string \<Rightarrow> string" where
  "trim_left s = trim_with space_runes s"

definition trim_right :: "string \<Rightarrow> string" where
  "trim_right s = rev (trim_with (map rev space_runes) (rev s))"

text \<open>Go's \<open>strings.TrimSpace\<close>.\<close>

definition TrimSpace :: "string \<Rightarrow> string" where
  "TrimSpace s = trim_right (trim_left s)"

text \<open>
  Go's \<open>strings.Fields\<close>: the maximal runs of text between white-space runes. The accumulator
  holds the current field.
\<close>

function fields_from :: "string \<Rightarrow> string \<Rightarrow> string list" where
  "fields_from acc s =
     (case s of [] \<Rightarrow> (if acc = [] then [] else [acc])
      | c # cs \<Rightarrow>
         (let n = match_len space_runes s in
          if n = 0 then fields_from (acc @ [c]) cs
          else (if acc = [] then [] else [acc]) @ fields_from [] (drop n s)))"
  by pat_completeness auto
termination
  by (relation "measure (\<lambda>(acc, s). length s)") auto

declare fields_from.simps [simp del]

definition Fields :: "string \<Rightarrow> string list" where
  "Fields s = fields_from [] s"

section \<open>Splitting, prefixes and suffixes\<close>

text \<open>Go's \<open>strings.Split\<close> with a separator of one byte.\<close>

fun split_char :: "char \<Rightarrow> string \<Rightarrow> string list" where
  "split_char sep [] = [[]]"
| "split_char sep (c # cs) =
     (if c = sep then [] # split_char sep cs
      else (case split_char sep cs of [] \<Rightarrow> [[c]] | w # ws \<Rightarrow> (c # w) # ws))"

definition HasPrefix :: "string \<Rightarrow> string \<Rightarrow> bool" where
  "HasPrefix s p = prefix p s"

definition TrimPrefix :: "string \<Rightarrow> string \<Rightarrow> string" where
  "TrimPrefix s p = (if prefix p s then drop (length p) s else s)"

definition HasSuffix :: "string \<Rightarrow> string \<Rightarrow> bool" where
  "HasSuffix s p = suffix p s"

definition TrimSuffix :: "string \<Rightarrow> string \<Rightarrow> string" where
  "TrimSuffix s p = (if suffix p s then take (length s - length p) s else s)"

text \<open>Go's \<open>bytes.Join\<close> and \<open>strings.Join\<close>.\<close>

fun Join :: "string list \<Rightarrow> string \<Rightarrow> string" where
  "Join [] sep = []"
| "Join [x] sep = x"
| "Join (x # y # xs) sep = x @ sep @ Join (y # xs) sep"

text \<open>The last eight bytes, the short form of a peer identifier.\<close>

definition last8 :: "string \<Rightarrow> string" where
  "last8 s = (if length s > 8 then drop (length s - 8) s else s)"

text \<open>
  \<open>bufio.Reader.ReadString('\n')\<close>: the text up to and with the first newline and what is left;
  without a newline the read ends in an error (\<open>io.EOF\<close>).
\<close>

fun ReadString :: "bytes \<Rightarrow> (bytes \<times> bytes) option" where
  "ReadString [] = None"
| "ReadString (c # cs) =
     (if c = CHR 0x0A then Some ([c], cs)
      else (case ReadString cs of None \<Rightarrow> None | Some (l, r) \<Rightarrow> Some (c # l, r)))"

section \<open>Numbers\<close>

text \<open>The decimal digits of a number (\<open>%d\<close>), and padded with zeros to five places (\<open>%05d\<close>).\<close>

fun dec_nat :: "nat \<Rightarrow> string" where
  "dec_nat n = (if n < 10 then [char_of (48 + n)] else dec_nat (n div 10) @ [char_of (48 + n mod 10)])"

declare dec_nat.simps [simp del]

definition dec_int :: "int \<Rightarrow> string" where
  "dec_int i = (if i < 0 then CHR ''-'' # dec_nat (nat (- i)) else dec_nat (nat i))"

definition dec_pad5 :: "nat \<Rightarrow> string" where
  "dec_pad5 n = (let d = dec_nat n in replicate (5 - length d) (CHR ''0'') @ d)"

text \<open>\<open>binary.LittleEndian\<close> and \<open>binary.BigEndian\<close>, reading and writing \<open>n\<close> bytes.\<close>

fun le_put :: "nat \<Rightarrow> 'a::len word \<Rightarrow> bytes" where
  "le_put 0 w = []"
| "le_put (Suc n) w = byte_of w # le_put n (drop_bit 8 w)"

fun le_get :: "bytes \<Rightarrow> 'a::len word" where
  "le_get [] = 0"
| "le_get (b # bs) = or (word_of_byte b) (push_bit 8 (le_get bs))"

definition be_put :: "nat \<Rightarrow> 'a::len word \<Rightarrow> bytes" where
  "be_put n w = rev (le_put n w)"

definition be_get :: "bytes \<Rightarrow> 'a::len word" where
  "be_get bs = le_get (rev bs)"

section \<open>Lemmas\<close>

subsection \<open>Trimming text without white space\<close>

text \<open>A printable ASCII byte, which is no part of a white-space rune.\<close>

definition graphic :: "char \<Rightarrow> bool" where
  "graphic c \<longleftrightarrow> 0x21 \<le> (of_char c :: nat) \<and> (of_char c :: nat) \<le> 0x7E"

lemma match_len_no_head:
  assumes "\<forall>r \<in> set rs. r \<noteq> [] \<and> hd r \<noteq> c"
  shows "match_len rs (c # cs) = 0"
  using assms by (induction rs) (auto simp: prefix_Cons)

lemma space_runes_not_graphic:
  "r \<in> set space_runes \<Longrightarrow> r \<noteq> [] \<and> \<not> graphic (hd r) \<and> \<not> graphic (last r)"
  by (auto simp: space_runes_def graphic_def)

lemma match_len_graphic: "graphic c \<Longrightarrow> match_len space_runes (c # cs) = 0"
  by (rule match_len_no_head) (use space_runes_not_graphic in blast)

lemma match_len_rev_graphic: "graphic c \<Longrightarrow> match_len (map rev space_runes) (c # cs) = 0"
  by (rule match_len_no_head) (use space_runes_not_graphic in \<open>auto simp: hd_rev\<close>)

lemma trim_with_stop: "match_len rs s = 0 \<Longrightarrow> trim_with rs s = s"
  by (subst trim_with.simps) simp

lemma trim_with_Nil [simp]: "trim_with rs [] = []"
  by (subst trim_with.simps) simp

lemma trim_left_graphic: "s \<noteq> [] \<Longrightarrow> graphic (hd s) \<Longrightarrow> trim_left s = s"
  by (cases s) (auto simp: trim_left_def trim_with_stop match_len_graphic)

lemma trim_right_graphic: "s \<noteq> [] \<Longrightarrow> graphic (last s) \<Longrightarrow> trim_right s = s"
  by (cases s rule: rev_cases)
    (auto simp: trim_right_def trim_with_stop match_len_rev_graphic)

lemma match_len_rev_newline: "match_len (map rev space_runes) (CHR 0x0A # cs) = 1"
  by (simp add: space_runes_def)

lemma trim_right_newline: "trim_right (s @ [CHR 0x0A]) = trim_right s"
  unfolding trim_right_def
  by (simp add: trim_with.simps [of _ "CHR 0x0A # rev s"] match_len_rev_newline)

lemma TrimSpace_graphic: "list_all graphic s \<Longrightarrow> TrimSpace s = s"
  by (cases "s = []")
    (simp add: TrimSpace_def trim_left_def trim_right_def,
     simp add: TrimSpace_def trim_left_graphic trim_right_graphic list_all_iff)

lemma TrimSpace_line:
  assumes "s \<noteq> []" and "list_all graphic s"
  shows "TrimSpace (s @ [CHR 0x0A]) = s"
proof -
  have "trim_left (s @ [CHR 0x0A]) = s @ [CHR 0x0A]"
    using assms by (intro trim_left_graphic) (auto simp: list_all_iff)
  then show ?thesis
    using assms by (simp add: TrimSpace_def trim_right_newline trim_right_graphic list_all_iff)
qed

subsection \<open>Reading lines and splitting\<close>

lemma ReadString_line:
  "CHR 0x0A \<notin> set s \<Longrightarrow> ReadString (s @ CHR 0x0A # r) = Some (s @ [CHR 0x0A], r)"
  by (induction s) auto

lemma split_char_nonempty [simp]: "split_char c s \<noteq> []"
  by (induction s) (auto split: list.splits)

lemma split_char_none: "c \<notin> set s \<Longrightarrow> split_char c s = [s]"
  by (induction s) auto

lemma split_char_append:
  "c \<notin> set s \<Longrightarrow> split_char c (s @ c # t) = s # split_char c t"
  by (induction s) auto

lemma last8_length: "length (last8 s) \<le> 8"
  by (simp add: last8_def)

subsection \<open>Fixed-width integers\<close>

lemma le_put_length [simp]: "length (le_put n w) = n"
  by (induction n w rule: le_put.induct) auto

lemma be_put_length [simp]: "length (be_put n w) = n"
  by (simp add: be_put_def)

lemma word_of_byte_of: "word_of_byte (byte_of (w :: 'a::len word)) = take_bit 8 w"
proof -
  have "(of_char (byte_of w) :: nat) = unat (take_bit 8 w)"
    unfolding byte_of_def by (simp add: unsigned_take_bit_eq, simp add: take_bit_eq_mod)
  then show ?thesis by (simp add: word_of_byte_def)
qed

lemma le_get_put: "le_get (le_put n w) = take_bit (8 * n) w"
proof (induction n w rule: le_put.induct)
  case (2 n w)
  then show ?case
    by (auto simp: word_of_byte_of bit_simps bit_eq_iff)
qed simp

lemma le_get_put_64: "le_get (le_put 8 (w :: u64)) = w"
  by (simp add: le_get_put take_bit_word_eq_self)

lemma le_get_put_32: "le_get (le_put 4 (w :: u32)) = w"
  by (simp add: le_get_put take_bit_word_eq_self)

lemma le_put_8_inj: "le_put 8 (v :: u64) = le_put 8 w \<Longrightarrow> v = w"
  by (metis le_get_put_64)

lemma be_put_4_inj: "be_put 4 (v :: u32) = be_put 4 w \<Longrightarrow> v = w"
  by (metis be_put_def le_get_put_32 rev_rev_ident)

end
