(* ===== verification/Base64.thy ===== *)
theory Base64
  imports Go_Strings
begin

text \<open>
  What the program uses of Go's \<open>encoding/base64\<close>: \<open>StdEncoding\<close> (padded) in both directions and
  the encoder of \<open>RawURLEncoding\<close> (no padding). Bytes and six-bit groups are natural numbers
  below 256 and 64. The decoder skips carriage returns and newlines and ignores the unused low
  bits of the last group, as Go's does.
\<close>

definition std_alphabet :: string where
  "std_alphabet = ''ABCDEFGHIJKLMNOPQRSTUVWXYZabcdefghijklmnopqrstuvwxyz0123456789+/''"

definition url_alphabet :: string where
  "url_alphabet = ''ABCDEFGHIJKLMNOPQRSTUVWXYZabcdefghijklmnopqrstuvwxyz0123456789-_''"

abbreviation byte_val :: "char \<Rightarrow> nat" where
  "byte_val c \<equiv> of_char c"

fun b64_encode :: "string \<Rightarrow> bool \<Rightarrow> bytes \<Rightarrow> string" where
  "b64_encode al pad [] = []"
| "b64_encode al pad [a] =
     [al ! (byte_val a div 4), al ! (byte_val a mod 4 * 16)] @ (if pad then ''=='' else [])"
| "b64_encode al pad [a, b] =
     [al ! (byte_val a div 4), al ! (byte_val a mod 4 * 16 + byte_val b div 16),
      al ! (byte_val b mod 16 * 4)] @ (if pad then ''='' else [])"
| "b64_encode al pad (a # b # c # r) =
     [al ! (byte_val a div 4), al ! (byte_val a mod 4 * 16 + byte_val b div 16),
      al ! (byte_val b mod 16 * 4 + byte_val c div 64), al ! (byte_val c mod 64)]
     @ b64_encode al pad r"

text \<open>The six-bit value of a character, \<open>None\<close> outside the alphabet.\<close>

definition b64_index :: "string \<Rightarrow> char \<Rightarrow> nat option" where
  "b64_index al c =
     (let i = length (takeWhile (\<lambda>x. x \<noteq> c) al) in if i < length al then Some i else None)"

definition group3 :: "nat \<Rightarrow> nat \<Rightarrow> nat \<Rightarrow> nat \<Rightarrow> bytes" where
  "group3 p q r s =
     [char_of (p * 4 + q div 16), char_of (q mod 16 * 16 + r div 4), char_of (r mod 4 * 64 + s)]"

fun b64_quanta :: "string \<Rightarrow> string \<Rightarrow> bytes option" where
  "b64_quanta al [] = Some []"
| "b64_quanta al (a # b # c # d # rest) =
     (case (b64_index al a, b64_index al b) of
        (Some p, Some q) \<Rightarrow>
          (if c = CHR ''='' \<and> d = CHR ''='' \<and> rest = [] then Some (take 1 (group3 p q 0 0))
           else (case b64_index al c of
              None \<Rightarrow> None
            | Some r \<Rightarrow>
                (if d = CHR ''='' \<and> rest = [] then Some (take 2 (group3 p q r 0))
                 else (case b64_index al d of
                    None \<Rightarrow> None
                  | Some s \<Rightarrow> map_option (\<lambda>bs. group3 p q r s @ bs) (b64_quanta al rest)))))
      | _ \<Rightarrow> None)"
| "b64_quanta al _ = None"

definition std_encode :: "bytes \<Rightarrow> string" where
  "std_encode bs = b64_encode std_alphabet True bs"

definition raw_url_encode :: "bytes \<Rightarrow> string" where
  "raw_url_encode bs = b64_encode url_alphabet False bs"

definition std_decode :: "string \<Rightarrow> bytes option" where
  "std_decode s = b64_quanta std_alphabet (filter (\<lambda>c. c \<noteq> CHR 0x0A \<and> c \<noteq> CHR 0x0D) s)"

section \<open>Alphabets\<close>

lemma std_alphabet_length [simp]: "length std_alphabet = 64"
  by (simp add: std_alphabet_def)

lemma url_alphabet_length [simp]: "length url_alphabet = 64"
  by (simp add: url_alphabet_def)

lemma std_alphabet_distinct: "distinct std_alphabet"
  by (simp add: std_alphabet_def)

lemma std_alphabet_graphic: "list_all graphic std_alphabet"
  by (simp add: std_alphabet_def graphic_def)

lemma std_alphabet_no_mark: "CHR ''.'' \<notin> set std_alphabet" "CHR ''='' \<notin> set std_alphabet"
    "CHR ''_'' \<notin> set std_alphabet"
  by (simp_all add: std_alphabet_def)

lemma b64_index_nth:
  assumes "distinct al" and "i < length al"
  shows "b64_index al (al ! i) = Some i"
proof -
  have "takeWhile (\<lambda>x. x \<noteq> al ! i) al = take i al"
    using assms by (intro takeWhile_eq_take_P_nth) (auto simp: nth_eq_iff_index_eq)
  then show ?thesis using assms by (simp add: b64_index_def)
qed

lemma b64_index_None: "c \<notin> set al \<Longrightarrow> b64_index al c = None"
proof -
  assume "c \<notin> set al"
  then have "takeWhile (\<lambda>x. x \<noteq> c) al = al" by (auto simp: takeWhile_eq_all_conv)
  then have "length (takeWhile (\<lambda>x. x \<noteq> c) al) = length al" by (rule arg_cong)
  then show ?thesis by (simp only: b64_index_def Let_def less_irrefl if_False)
qed

lemma byte_div_less: "byte_val a div 4 < 64" "byte_val a div 16 < 16" "byte_val a div 64 < 4"
  using nat_of_char_less_256 [of a] by (simp_all add: less_mult_imp_div_less)

lemma byte_bounds:
  "byte_val a div 4 < 64" "byte_val a mod 4 * 16 < 64" "byte_val a mod 16 * 4 < 64"
  "byte_val a mod 4 * 16 + byte_val b div 16 < 64" "byte_val b mod 16 * 4 + byte_val c div 64 < 64"
  "byte_val c mod 64 < 64"
proof -
  have "byte_val a mod 4 < 4" "byte_val a mod 16 < 16" "byte_val b mod 16 < 16" by simp_all
  note b = this byte_div_less(2) [of b] byte_div_less(3) [of c]
  show "byte_val a mod 4 * 16 < 64" "byte_val a mod 16 * 4 < 64"
    "byte_val a mod 4 * 16 + byte_val b div 16 < 64" "byte_val b mod 16 * 4 + byte_val c div 64 < 64"
    using b by linarith+
qed (simp_all add: byte_div_less)

lemma nth_not_pad: "CHR ''='' \<notin> set al \<Longrightarrow> i < length al \<Longrightarrow> al ! i \<noteq> CHR ''=''"
  using nth_mem by metis

section \<open>Decoding what was encoded\<close>

lemma group3_bytes:
  "group3 (byte_val a div 4) (byte_val a mod 4 * 16 + byte_val b div 16)
     (byte_val b mod 16 * 4 + byte_val c div 64) (byte_val c mod 64) = [a, b, c]"
proof -
  have hi: "(byte_val a mod 4 * 16 + byte_val b div 16) div 16 = byte_val a mod 4"
      "(byte_val a mod 4 * 16 + byte_val b div 16) mod 16 = byte_val b div 16"
    using byte_div_less(2) [of b] by simp_all
  have lo: "(byte_val b mod 16 * 4 + byte_val c div 64) div 4 = byte_val b mod 16"
      "(byte_val b mod 16 * 4 + byte_val c div 64) mod 4 = byte_val c div 64"
    using byte_div_less(3) [of c] by simp_all
  show ?thesis using byte_div_less(2) [of b] byte_div_less(3) [of c] by (simp add: group3_def hi lo)
qed

lemma group3_one: "take 1 (group3 (byte_val a div 4) (byte_val a mod 4 * 16) 0 0) = [a]"
  using group3_bytes [of a "char_of (0 :: nat)" "char_of (0 :: nat)"] by (simp add: group3_def)

lemma group3_two:
  "take 2 (group3 (byte_val a div 4) (byte_val a mod 4 * 16 + byte_val b div 16)
     (byte_val b mod 16 * 4) 0) = [a, b]"
  using group3_bytes [of a b "char_of (0 :: nat)"] by (simp add: group3_def)

lemma b64_roundtrip:
  assumes "distinct al" and "length al = 64" and "CHR ''='' \<notin> set al"
  shows "b64_quanta al (b64_encode al True bs) = Some bs"
  using assms
  by (induction al "True" bs rule: b64_encode.induct)
    (simp_all add: b64_index_nth nth_not_pad byte_bounds group3_two group3_bytes
      group3_one [unfolded One_nat_def])

lemma b64_encode_chars:
  assumes "length al = 64"
  shows "set (b64_encode al pad bs) \<subseteq> insert (CHR ''='') (set al)"
  using assms by (induction al pad bs rule: b64_encode.induct) (auto simp: byte_bounds)

lemma std_encode_chars: "set (std_encode bs) \<subseteq> insert (CHR ''='') (set std_alphabet)"
  unfolding std_encode_def by (rule b64_encode_chars) simp

lemma std_encode_graphic: "list_all graphic (std_encode bs)"
  using std_encode_chars [of bs] std_alphabet_graphic by (fastforce simp: list_all_iff graphic_def)

lemma std_encode_no_dot: "CHR ''.'' \<notin> set (std_encode bs)"
  using std_encode_chars [of bs] std_alphabet_no_mark by auto

lemma std_encode_no_newline: "CHR 0x0A \<notin> set (std_encode bs)" "CHR 0x0D \<notin> set (std_encode bs)"
  using std_encode_graphic [of bs] by (auto simp: list_all_iff graphic_def)

lemma std_encode_Nil_iff [simp]: "std_encode bs = [] \<longleftrightarrow> bs = []"
  unfolding std_encode_def by (cases "(std_alphabet, True, bs)" rule: b64_encode.cases) auto

lemma std_roundtrip: "std_decode (std_encode bs) = Some bs"
proof -
  have "filter (\<lambda>c. c \<noteq> CHR 0x0A \<and> c \<noteq> CHR 0x0D) (std_encode bs) = std_encode bs"
    using std_encode_no_newline [of bs] by (intro filter_True) auto
  then show ?thesis
    by (simp add: std_decode_def std_encode_def b64_roundtrip std_alphabet_distinct
        std_alphabet_no_mark)
qed

lemma std_encode_inj: "std_encode a = std_encode b \<Longrightarrow> a = b"
  by (metis option.inject std_roundtrip)

lemma b64_encode_raw_length: "length (b64_encode al False bs) = (8 * length bs + 5) div 6"
  by (induction al False bs rule: b64_encode.induct) simp_all

lemma raw_url_encode_length: "length (raw_url_encode bs) = (8 * length bs + 5) div 6"
  by (simp add: raw_url_encode_def b64_encode_raw_length)

lemma raw_url_encode_graphic: "list_all graphic (raw_url_encode bs)"
proof -
  have "list_all graphic (CHR ''='' # url_alphabet)" by (simp add: url_alphabet_def graphic_def)
  moreover have "set (raw_url_encode bs) \<subseteq> insert (CHR ''='') (set url_alphabet)"
    unfolding raw_url_encode_def by (rule b64_encode_chars) (simp add: url_alphabet_def)
  ultimately show ?thesis by (auto simp: list_all_iff)
qed

end
