(* ===== verification/Go_Json.thy ===== *)
theory Go_Json
  imports Base64
begin

text \<open>
  What the program uses of Go's \<open>unicode/utf8\<close> and \<open>encoding/json\<close> packages, over byte strings:
  quoting with HTML escaping, unquoting with surrogates and replacement of invalid UTF-8, the
  grammar check behind \<open>json.Valid\<close>, compaction of raw messages, and the members of a flat
  object with the raw text of each value, from which the message types decode their fields.

  The grammar check and the member list are recursive-descent functions with a fuel argument (the
  text is shorter than the fuel, and each call reads at least one byte) and Go's nesting limit of
  10000 as a second argument.
\<close>

section \<open>UTF-8\<close>

abbreviation bv :: "char \<Rightarrow> nat" where
  "bv c \<equiv> of_char c"

definition cont_byte :: "char \<Rightarrow> bool" where
  "cont_byte c \<longleftrightarrow> 0x80 \<le> bv c \<and> bv c \<le> 0xBF"

text \<open>The length of the rune at the start of a text, 0 where the bytes are not valid UTF-8.\<close>

definition second_ok :: "char \<Rightarrow> char \<Rightarrow> bool" where
  "second_ok a b \<longleftrightarrow>
     (if bv a = 0xE0 then 0xA0 \<le> bv b \<and> bv b \<le> 0xBF
      else if bv a = 0xED then 0x80 \<le> bv b \<and> bv b \<le> 0x9F
      else if bv a = 0xF0 then 0x90 \<le> bv b \<and> bv b \<le> 0xBF
      else if bv a = 0xF4 then 0x80 \<le> bv b \<and> bv b \<le> 0x8F
      else cont_byte b)"

definition rune_len :: "string \<Rightarrow> nat" where
  "rune_len s =
     (case s of [] \<Rightarrow> 0
      | a # s1 \<Rightarrow>
        if bv a < 0x80 then 1
        else if 0xC2 \<le> bv a \<and> bv a \<le> 0xDF then
          (case s1 of b # _ \<Rightarrow> if second_ok a b then 2 else 0 | _ \<Rightarrow> 0)
        else if 0xE0 \<le> bv a \<and> bv a \<le> 0xEF then
          (case s1 of b # c # _ \<Rightarrow> if second_ok a b \<and> cont_byte c then 3 else 0 | _ \<Rightarrow> 0)
        else if 0xF0 \<le> bv a \<and> bv a \<le> 0xF4 then
          (case s1 of b # c # d # _ \<Rightarrow>
             if second_ok a b \<and> cont_byte c \<and> cont_byte d then 4 else 0 | _ \<Rightarrow> 0)
        else 0)"

definition rune_error :: string where
  "rune_error = [CHR 0xEF, CHR 0xBF, CHR 0xBD]"

text \<open>\<open>utf8.AppendRune\<close>.\<close>

definition encode_rune :: "nat \<Rightarrow> string" where
  "encode_rune r =
     (if r < 0x80 then [char_of r]
      else if r < 0x800 then [char_of (0xC0 + r div 64), char_of (0x80 + r mod 64)]
      else if 0xD800 \<le> r \<and> r \<le> 0xDFFF \<or> 0x10FFFF < r then rune_error
      else if r < 0x10000 then
        [char_of (0xE0 + r div 4096), char_of (0x80 + r div 64 mod 64), char_of (0x80 + r mod 64)]
      else
        [char_of (0xF0 + r div 262144), char_of (0x80 + r div 4096 mod 64),
         char_of (0x80 + r div 64 mod 64), char_of (0x80 + r mod 64)])"

text \<open>A text with every byte that is no part of a valid rune replaced by U+FFFD.\<close>

function to_valid :: "string \<Rightarrow> string" where
  "to_valid s =
     (case s of [] \<Rightarrow> []
      | c # cs \<Rightarrow>
          (let n = rune_len s in
           if n = 0 then rune_error @ to_valid cs else take n s @ to_valid (drop n s)))"
  by pat_completeness auto
termination
  by (relation "measure length") auto

declare to_valid.simps [simp del]

section \<open>Strings\<close>

definition hex_digit :: "nat \<Rightarrow> char" where
  "hex_digit n = ''0123456789abcdef'' ! n"

definition u00_escape :: "char \<Rightarrow> string" where
  "u00_escape c = [CHR 0x5C] @ ''u00'' @ [hex_digit (bv c div 16), hex_digit (bv c mod 16)]"

definition html_unsafe :: "char \<Rightarrow> bool" where
  "html_unsafe c \<longleftrightarrow> c = CHR ''<'' \<or> c = CHR ''>'' \<or> c = CHR ''&''"

text \<open>One ASCII byte inside a quoted string (\<open>htmlSafeSet\<close> and the short escapes).\<close>

definition quote_ascii :: "char \<Rightarrow> string" where
  "quote_ascii c =
     (if c = CHR 0x22 \<or> c = CHR 0x5C then [CHR 0x5C, c]
      else if c = CHR 0x08 then [CHR 0x5C, CHR ''b'']
      else if c = CHR 0x0C then [CHR 0x5C, CHR ''f'']
      else if c = CHR 0x0A then [CHR 0x5C, CHR ''n'']
      else if c = CHR 0x0D then [CHR 0x5C, CHR ''r'']
      else if c = CHR 0x09 then [CHR 0x5C, CHR ''t'']
      else if bv c < 0x20 \<or> html_unsafe c then
        u00_escape c
      else [c])"

definition line_sep :: "string \<Rightarrow> bool" where
  "line_sep r \<longleftrightarrow> r = [CHR 0xE2, CHR 0x80, CHR 0xA8] \<or> r = [CHR 0xE2, CHR 0x80, CHR 0xA9]"

definition quote_sep :: "string \<Rightarrow> string" where
  "quote_sep r = [CHR 0x5C] @ ''u202'' @ [hex_digit (bv (last r) mod 16)]"

definition ufffd_escape :: string where
  "ufffd_escape = [CHR 0x5C] @ ''ufffd''"

function quote_body :: "string \<Rightarrow> string" where
  "quote_body s =
     (case s of [] \<Rightarrow> []
      | c # cs \<Rightarrow>
          if bv c < 0x80 then quote_ascii c @ quote_body cs
          else
            (let n = rune_len s in
             if n = 0 then ufffd_escape @ quote_body cs
             else if line_sep (take n s) then quote_sep (take n s) @ quote_body (drop n s)
             else take n s @ quote_body (drop n s)))"
  by pat_completeness auto
termination
  by (relation "measure length") auto

declare quote_body.simps [simp del]

definition json_quote :: "string \<Rightarrow> string" where
  "json_quote s = [CHR 0x22] @ quote_body s @ [CHR 0x22]"

definition is_hex :: "char \<Rightarrow> bool" where
  "is_hex c \<longleftrightarrow> (48 \<le> bv c \<and> bv c \<le> 57) \<or> (65 \<le> bv c \<and> bv c \<le> 70) \<or> (97 \<le> bv c \<and> bv c \<le> 102)"

definition hex_val :: "char \<Rightarrow> nat" where
  "hex_val c = (if bv c \<le> 57 then bv c - 48 else if bv c \<le> 70 then bv c - 55 else bv c - 87)"

text \<open>
  A string after its opening quote: its content with the escapes, and the text after the closing
  quote. Control characters and malformed escapes are errors.
\<close>

definition escape_split :: "string \<Rightarrow> (string \<times> string) option" where
  "escape_split cs =
     (case cs of
        [] \<Rightarrow> None
      | e # es \<Rightarrow>
          if e \<in> set (''bfnrt/'' @ [CHR 0x5C, CHR 0x22]) then Some ([e], es)
          else if e = CHR ''u'' \<and> 4 \<le> length es \<and> list_all is_hex (take 4 es)
          then Some (e # take 4 es, drop 4 es)
          else None)"

lemma escape_split_less: "escape_split cs = Some (x, r) \<Longrightarrow> length r < length cs"
  by (auto simp: escape_split_def split: list.splits if_splits)

function scan_str :: "string \<Rightarrow> (string \<times> string) option" where
  "scan_str [] = None"
| "scan_str (c # cs) =
     (if c = CHR 0x22 then Some ([], cs)
      else if c = CHR 0x5C then
        (case escape_split cs of
           None \<Rightarrow> None
         | Some (x, es) \<Rightarrow> map_option (\<lambda>(t, r). (c # x @ t, r)) (scan_str es))
      else if bv c < 0x20 then None
      else map_option (\<lambda>(t, r). (c # t, r)) (scan_str cs))"
  by pat_completeness auto
termination
  by (relation "measure length") (auto dest: escape_split_less)

definition unescape :: "char \<Rightarrow> char" where
  "unescape e =
     (if e = CHR ''b'' then CHR 0x08 else if e = CHR ''f'' then CHR 0x0C
      else if e = CHR ''n'' then CHR 0x0A else if e = CHR ''r'' then CHR 0x0D
      else if e = CHR ''t'' then CHR 0x09 else e)"

fun hex4 :: "string \<Rightarrow> nat option" where
  "hex4 (a # b # c # d # _) =
     (if is_hex a \<and> is_hex b \<and> is_hex c \<and> is_hex d
      then Some (((hex_val a * 16 + hex_val b) * 16 + hex_val c) * 16 + hex_val d) else None)"
| "hex4 _ = None"

text \<open>The code unit of a \<open>\uXXXX\<close> escape at the start of a text (\<open>getu4\<close>).\<close>

definition getu4 :: "string \<Rightarrow> nat option" where
  "getu4 s = (case s of b # u # r \<Rightarrow> if b = CHR 0x5C \<and> u = CHR ''u'' then hex4 r else None | _ \<Rightarrow> None)"

function unquote :: "string \<Rightarrow> string" where
  "unquote s =
     (case s of [] \<Rightarrow> []
      | c # cs \<Rightarrow>
          if c = CHR 0x5C then
            (case getu4 s of
               Some r \<Rightarrow>
                 if 0xD800 \<le> r \<and> r \<le> 0xDFFF then
                   (case getu4 (drop 6 s) of
                      Some r1 \<Rightarrow>
                        if r \<le> 0xDBFF \<and> 0xDC00 \<le> r1 \<and> r1 \<le> 0xDFFF
                        then encode_rune ((r - 0xD800) * 1024 + (r1 - 0xDC00) + 0x10000) @ unquote (drop 12 s)
                        else rune_error @ unquote (drop 6 s)
                    | None \<Rightarrow> rune_error @ unquote (drop 6 s))
                 else encode_rune r @ unquote (drop 6 s)
             | None \<Rightarrow> (case cs of [] \<Rightarrow> [] | e # es \<Rightarrow> unescape e # unquote es))
          else if bv c < 0x80 then c # unquote cs
          else
            (let n = rune_len s in
             if n = 0 then rune_error @ unquote cs else take n s @ unquote (drop n s)))"
  by pat_completeness auto
termination
  by (relation "measure length") auto

declare unquote.simps [simp del]

section \<open>Values\<close>

definition json_space :: "char \<Rightarrow> bool" where
  "json_space c \<longleftrightarrow> bv c \<in> {0x20, 0x09, 0x0A, 0x0D}"

definition skip_ws :: "string \<Rightarrow> string" where
  "skip_ws s = dropWhile json_space s"

definition is_digit :: "char \<Rightarrow> bool" where
  "is_digit c \<longleftrightarrow> 48 \<le> bv c \<and> bv c \<le> 57"

definition skip_digits :: "string \<Rightarrow> string" where
  "skip_digits s = dropWhile is_digit s"

text \<open>A number: sign, integer part without leading zeros, fraction, exponent.\<close>

definition scan_int_part :: "string \<Rightarrow> string option" where
  "scan_int_part s =
     (let t = (case s of c # cs \<Rightarrow> if c = CHR ''-'' then cs else s | [] \<Rightarrow> []) in
      case t of
        [] \<Rightarrow> None
      | c # cs \<Rightarrow> if c = CHR ''0'' then Some cs else if is_digit c then Some (skip_digits cs) else None)"

definition scan_frac :: "string \<Rightarrow> string option" where
  "scan_frac s =
     (case s of
        c # cs \<Rightarrow>
          if c = CHR ''.'' then
            (case cs of d # ds \<Rightarrow> if is_digit d then Some (skip_digits ds) else None | [] \<Rightarrow> None)
          else Some s
      | [] \<Rightarrow> Some [])"

definition scan_exp :: "string \<Rightarrow> string option" where
  "scan_exp s =
     (case s of
        c # cs \<Rightarrow>
          if c = CHR ''e'' \<or> c = CHR ''E'' then
            (case (case cs of g # gs \<Rightarrow> if g = CHR ''+'' \<or> g = CHR ''-'' then gs else cs | [] \<Rightarrow> []) of
               d # ds \<Rightarrow> if is_digit d then Some (skip_digits ds) else None
             | [] \<Rightarrow> None)
          else Some s
      | [] \<Rightarrow> Some [])"

definition scan_number :: "string \<Rightarrow> string option" where
  "scan_number s =
     (case scan_int_part s of None \<Rightarrow> None
      | Some t \<Rightarrow> (case scan_frac t of None \<Rightarrow> None | Some u \<Rightarrow> scan_exp u))"

definition scan_literal :: "string \<Rightarrow> string \<Rightarrow> string option" where
  "scan_literal lit s = (if prefix lit s then Some (drop (length lit) s) else None)"

text \<open>
  \<open>scan_value n d s\<close>: the text after the value \<open>s\<close> starts with, \<open>None\<close> for malformed text;
  \<open>scan_members\<close> the members of an object after its brace (key content and raw value) and
  \<open>scan_elems\<close> the raw elements of an array.
\<close>

definition object_step ::
  "(nat \<Rightarrow> string \<Rightarrow> ((string \<times> string) list \<times> string) option) \<Rightarrow> nat \<Rightarrow> string
    \<Rightarrow> ((string \<times> string) list \<times> string) option"
where
  "object_step members d cs =
     (if d = 0 then None
      else (case skip_ws cs of
         r # rs \<Rightarrow> if r = CHR 0x7D then Some ([], rs) else members (d - 1) (r # rs)
       | [] \<Rightarrow> None))"

definition array_step ::
  "(nat \<Rightarrow> string \<Rightarrow> (string list \<times> string) option) \<Rightarrow> nat \<Rightarrow> string \<Rightarrow> (string list \<times> string) option"
where
  "array_step elems d cs =
     (if d = 0 then None
      else (case skip_ws cs of
         r # rs \<Rightarrow> if r = CHR 0x5D then Some ([], rs) else elems (d - 1) (r # rs)
       | [] \<Rightarrow> None))"

definition value_step ::
  "(nat \<Rightarrow> string \<Rightarrow> ((string \<times> string) list \<times> string) option)
    \<Rightarrow> (nat \<Rightarrow> string \<Rightarrow> (string list \<times> string) option) \<Rightarrow> nat \<Rightarrow> string \<Rightarrow> string option"
where
  "value_step members elems d s =
     (case s of [] \<Rightarrow> None
      | c # cs \<Rightarrow>
          if c = CHR 0x22 then map_option snd (scan_str cs)
          else if c = CHR 0x7B then map_option snd (object_step members d cs)
          else if c = CHR 0x5B then map_option snd (array_step elems d cs)
          else if c = CHR ''t'' then scan_literal ''true'' s
          else if c = CHR ''f'' then scan_literal ''false'' s
          else if c = CHR ''n'' then scan_literal ''null'' s
          else scan_number s)"

definition raw_value :: "(nat \<Rightarrow> string \<Rightarrow> string option) \<Rightarrow> nat \<Rightarrow> string \<Rightarrow> (string \<times> string) option" where
  "raw_value val d s = map_option (\<lambda>r. (take (length s - length r) s, skip_ws r)) (val d s)"

definition member_step ::
  "(nat \<Rightarrow> string \<Rightarrow> string option) \<Rightarrow> nat \<Rightarrow> string \<Rightarrow> ((string \<times> string) \<times> string) option"
where
  "member_step val d s =
     (case s of [] \<Rightarrow> None
      | q # qs \<Rightarrow>
          if q \<noteq> CHR 0x22 then None
          else (case scan_str qs of None \<Rightarrow> None
           | Some (k, r) \<Rightarrow>
               (case skip_ws r of [] \<Rightarrow> None
                | c # r2 \<Rightarrow>
                    if c \<noteq> CHR '':'' then None
                    else map_option (\<lambda>(raw, r3). ((k, raw), r3)) (raw_value val d (skip_ws r2)))))"

text \<open>After an item: the end of the list or a comma and more items.\<close>

definition list_step ::
  "char \<Rightarrow> (string \<Rightarrow> ('a list \<times> string) option) \<Rightarrow> 'a \<times> string \<Rightarrow> ('a list \<times> string) option"
where
  "list_step close more xr =
     (case snd xr of [] \<Rightarrow> None
      | e # r \<Rightarrow>
          if e = close then Some ([fst xr], r)
          else if e = CHR '','' then map_option (\<lambda>(xs, u). (fst xr # xs, u)) (more (skip_ws r))
          else None)"

fun scan_value :: "nat \<Rightarrow> nat \<Rightarrow> string \<Rightarrow> string option"
  and scan_members :: "nat \<Rightarrow> nat \<Rightarrow> string \<Rightarrow> ((string \<times> string) list \<times> string) option"
  and scan_elems :: "nat \<Rightarrow> nat \<Rightarrow> string \<Rightarrow> (string list \<times> string) option"
where
  "scan_value 0 d s = None"
| "scan_value (Suc n) d s =
     value_step (\<lambda>e t. scan_members n e t) (\<lambda>e t. scan_elems n e t) d s"
| "scan_members 0 d s = None"
| "scan_members (Suc n) d s =
     Option.bind (member_step (\<lambda>e t. scan_value n e t) d s)
       (list_step CHR 0x7D (\<lambda>t. scan_members n d t))"
| "scan_elems 0 d s = None"
| "scan_elems (Suc n) d s =
     Option.bind (raw_value (\<lambda>e t. scan_value n e t) d s) (list_step CHR 0x5D (\<lambda>t. scan_elems n d t))"

definition max_nesting :: nat where
  "max_nesting = 10000"

definition json_Valid :: "bytes \<Rightarrow> bool" where
  "json_Valid s =
     (case scan_value (Suc (length s)) max_nesting (skip_ws s) of None \<Rightarrow> False | Some r \<Rightarrow> skip_ws r = [])"

text \<open>
  The members of a text that is an object, in order, keys unquoted and values raw; the literal
  \<open>null\<close> leaves a struct as it is, so it has no members; anything else is an error.
\<close>

definition json_members :: "bytes \<Rightarrow> (string \<times> string) list option" where
  "json_members s =
     (if \<not> json_Valid s then None
      else (case skip_ws s of
         [] \<Rightarrow> None
       | c # cs \<Rightarrow>
           if c = CHR 0x7B then
             map_option (\<lambda>(ms, _). map (\<lambda>(k, v). (unquote k, v)) ms)
               (object_step (scan_members (length s)) max_nesting cs)
           else if c = CHR ''n'' then Some [] else None))"

text \<open>\<open>json.Compact\<close> with HTML escaping, as \<open>Marshal\<close> applies it to a raw message.\<close>

text \<open>One step: the output, whether the text after it is inside a string, and that text.\<close>

definition compact_step :: "bool \<Rightarrow> char \<Rightarrow> string \<Rightarrow> string \<times> bool \<times> string" where
  "compact_step instr c cs =
     (if html_unsafe c then (u00_escape c, instr, cs)
      else if line_sep (c # take 2 cs) then (quote_sep (c # take 2 cs), instr, drop 2 cs)
      else if instr then
        (if c = CHR 0x22 then ([c], False, cs)
         else if c = CHR 0x5C then (c # take 1 cs, True, drop 1 cs)
         else ([c], True, cs))
      else if json_space c then ([], False, cs)
      else ([c], c = CHR 0x22, cs))"

lemma compact_step_less: "compact_step b c cs = (x, i, r) \<Longrightarrow> length r \<le> length cs"
  by (auto simp: compact_step_def split: if_splits)

function compact :: "bool \<Rightarrow> string \<Rightarrow> string" where
  "compact instr [] = []"
| "compact instr (c # cs) = (case compact_step instr c cs of (x, i, r) \<Rightarrow> x @ compact i r)"
  by pat_completeness auto
termination
  by (relation "measure (\<lambda>(b, s). length s)") (auto dest!: compact_step_less [OF sym])

section \<open>Fields\<close>

text \<open>
  Go matches a key to a field exactly or else under case folding; the field names of the program
  are ASCII, and besides the ASCII letters only the Kelvin sign and the long s fold to one.
\<close>

fun fold_name :: "string \<Rightarrow> string" where
  "fold_name [] = []"
| "fold_name (c # cs) =
     (if 97 \<le> bv c \<and> bv c \<le> 122 then char_of (bv c - 32) # fold_name cs
      else if prefix [CHR 0xE2, CHR 0x84, CHR 0xAA] (c # cs) then CHR ''K'' # fold_name (drop 2 cs)
      else if prefix [CHR 0xC5, CHR 0xBF] (c # cs) then CHR ''S'' # fold_name (drop 1 cs)
      else c # fold_name cs)"

definition key_is :: "string \<Rightarrow> string \<Rightarrow> bool" where
  "key_is name k \<longleftrightarrow> fold_name k = fold_name name"

definition json_null :: string where
  "json_null = ''null''"

text \<open>A string field: the literal \<open>null\<close> keeps the old value, anything but a string is an error.\<close>

definition dec_string :: "string \<Rightarrow> string \<Rightarrow> string option" where
  "dec_string old raw =
     (if raw = json_null then Some old
      else (case raw of
         c # cs \<Rightarrow> if c = CHR 0x22 then map_option (\<lambda>(t, _). unquote t) (scan_str cs) else None
       | [] \<Rightarrow> None))"

fun digits_val :: "nat \<Rightarrow> string \<Rightarrow> nat option" where
  "digits_val acc [] = Some acc"
| "digits_val acc (c # cs) = (if is_digit c then digits_val (acc * 10 + (bv c - 48)) cs else None)"

definition parse_nat :: "string \<Rightarrow> nat option" where
  "parse_nat s = (if s = [] then None else digits_val 0 s)"

text \<open>Integer fields of Go's \<open>int64\<close> (and \<open>int\<close>) and \<open>uint64\<close>: no fraction, in range.\<close>

definition dec_int64 :: "int \<Rightarrow> string \<Rightarrow> int option" where
  "dec_int64 old raw =
     (if raw = json_null then Some old
      else (case raw of
         c # cs \<Rightarrow>
           (if c = CHR ''-'' then
              (case parse_nat cs of Some n \<Rightarrow> if n \<le> 2 ^ 63 then Some (- int n) else None | None \<Rightarrow> None)
            else
              (case parse_nat raw of Some n \<Rightarrow> if n < 2 ^ 63 then Some (int n) else None | None \<Rightarrow> None))
       | [] \<Rightarrow> None))"

definition dec_uint64 :: "u64 \<Rightarrow> string \<Rightarrow> u64 option" where
  "dec_uint64 old raw =
     (if raw = json_null then Some old
      else (case parse_nat raw of Some n \<Rightarrow> if n < 2 ^ 64 then Some (word_of_nat n) else None | None \<Rightarrow> None))"

text \<open>An object as \<open>Marshal\<close> writes it, from key names and encoded values.\<close>

definition json_member :: "string \<times> string \<Rightarrow> string" where
  "json_member kv = json_quote (fst kv) @ '':'' @ snd kv"

definition json_object :: "(string \<times> string) list \<Rightarrow> string" where
  "json_object kvs = [CHR 0x7B] @ Join (map json_member kvs) '','' @ [CHR 0x7D]"

definition json_array :: "string list \<Rightarrow> string" where
  "json_array vs = [CHR 0x5B] @ Join vs '','' @ [CHR 0x5D]"

text \<open>The raw elements of a text that is an array; \<open>null\<close> gives a nil slice.\<close>

definition json_elems :: "bytes \<Rightarrow> string list option" where
  "json_elems s =
     (if \<not> json_Valid s then None
      else (case skip_ws s of
         [] \<Rightarrow> None
       | c # cs \<Rightarrow>
           if c = CHR 0x5B then map_option fst (array_step (scan_elems (length s)) max_nesting cs)
           else if c = CHR ''n'' then Some [] else None))"

section \<open>Quoting and unquoting\<close>

subsection \<open>Hexadecimal digits and runes\<close>

lemma hex_digit_ok: "n < 16 \<Longrightarrow> is_hex (hex_digit n) \<and> hex_val (hex_digit n) = n"
proof -
  assume "n < 16"
  moreover have "list_all (\<lambda>n. is_hex (hex_digit n) \<and> hex_val (hex_digit n) = n) [0..<16]"
    by (simp add: upt_rec hex_digit_def is_hex_def hex_val_def)
  ultimately show ?thesis by (simp add: list_all_iff)
qed

lemma bv_less [simp]: "bv c < 256"
  by (cases c) (simp add: of_char_def horner_sum_of_bool_2_less [of "[_, _, _, _, _, _, _, _]", simplified])

lemma div_less_16: "bv c div 16 < 16"
  using bv_less [of c] by linarith

lemma is_hex_0: "is_hex CHR ''0''" and is_hex_2: "is_hex CHR ''2''"
  by (simp_all add: is_hex_def)

text \<open>The bytes of a rune outside ASCII, and that it is recognised whatever follows.\<close>

lemma rune_len_cases:
  assumes "rune_len s = n" and "n \<noteq> 0" and "\<not> bv (hd s) < 0x80"
  obtains (two) a b r where "s = a # b # r" "n = 2" "0xC2 \<le> bv a" "bv a \<le> 0xDF" "second_ok a b"
  | (three) a b c r where "s = a # b # c # r" "n = 3" "0xE0 \<le> bv a" "bv a \<le> 0xEF"
      "second_ok a b" "cont_byte c"
  | (four) a b c d r where "s = a # b # c # d # r" "n = 4" "0xF0 \<le> bv a" "bv a \<le> 0xF4"
      "second_ok a b" "cont_byte c" "cont_byte d"
proof -
  obtain a s1 where s: "s = a # s1" using assms by (cases s) (auto simp: rune_len_def)
  consider "0xC2 \<le> bv a" "bv a \<le> 0xDF" | "0xE0 \<le> bv a" "bv a \<le> 0xEF" | "0xF0 \<le> bv a" "bv a \<le> 0xF4"
    using assms s by (fastforce simp: rune_len_def split: if_splits)
  then show thesis
  proof cases
    case 1
    then obtain b r where "s1 = b # r" "second_ok a b" "n = 2"
      using assms s by (auto simp: rune_len_def split: list.splits if_splits)
    with 1 s show thesis by (intro two [of a b r]) auto
  next
    case 2
    then obtain b c r where "s1 = b # c # r" "second_ok a b" "cont_byte c" "n = 3"
      using assms s by (auto simp: rune_len_def split: list.splits if_splits)
    with 2 s show thesis by (intro three [of a b c r]) auto
  next
    case 3
    then obtain b c d r where "s1 = b # c # d # r" "second_ok a b" "cont_byte c" "cont_byte d" "n = 4"
      using assms s by (auto simp: rune_len_def split: list.splits if_splits)
    with 3 s show thesis by (intro four [of a b c d r]) auto
  qed
qed

lemma second_ok_cont: "second_ok a b \<Longrightarrow> cont_byte b"
  by (auto simp: second_ok_def cont_byte_def split: if_splits)

lemma rune_len_ascii: "bv c < 0x80 \<Longrightarrow> rune_len (c # cs) = 1"
  by (simp add: rune_len_def)

lemma rune_len_bounds: "rune_len s \<le> length s"
proof (cases "rune_len s = 0 \<or> s = [] \<or> bv (hd s) < 0x80")
  case True
  then show ?thesis by (cases s) (auto simp: rune_len_ascii rune_len_def [of "[]"])
next
  case False
  then have h: "rune_len s \<noteq> 0" "\<not> bv (hd s) < 0x80" by auto
  show ?thesis by (rule rune_len_cases [OF refl h]) auto
qed

lemma rune_len_take:
  assumes "rune_len s = n" and "n \<noteq> 0" and "\<not> bv (hd s) < 0x80"
  shows "rune_len (take n s @ t) = n"
  using assms by (rule rune_len_cases) (auto simp: rune_len_def)

text \<open>
  A text is a sequence of ASCII bytes, bytes that start no rune, and runes outside ASCII; the
  proofs on quoting go by induction over these pieces.
\<close>

definition wide_rune :: "string \<Rightarrow> bool" where
  "wide_rune x \<longleftrightarrow> x \<noteq> [] \<and> rune_len x = length x \<and> \<not> bv (hd x) < 0x80"

lemma wide_rune_high: "wide_rune x \<Longrightarrow> list_all (\<lambda>c. 0x80 \<le> bv c) x"
  unfolding wide_rune_def by (erule conjE, rule rune_len_cases [of x "length x"]) (auto simp: cont_byte_def dest!: second_ok_cont)

lemma wide_rune_len: "wide_rune x \<Longrightarrow> rune_len (x @ t) = length x"
  using rune_len_take [of x "length x" t] by (simp add: wide_rune_def)

lemma wide_rune_Cons: "wide_rune x \<Longrightarrow> \<exists>c cs. x = c # cs \<and> \<not> bv c < 0x80"
  by (cases x) (auto simp: wide_rune_def)

lemma pieces_induct [case_names Nil ascii bad rune]:
  assumes "P []"
    and ascii: "\<And>c cs. bv c < 0x80 \<Longrightarrow> P cs \<Longrightarrow> P (c # cs)"
    and bad: "\<And>c cs. \<not> bv c < 0x80 \<Longrightarrow> rune_len (c # cs) = 0 \<Longrightarrow> P cs \<Longrightarrow> P (c # cs)"
    and rune: "\<And>x s. wide_rune x \<Longrightarrow> P s \<Longrightarrow> P (x @ s)"
  shows "P s"
proof (induction s rule: length_induct)
  case (1 s)
  show ?case
  proof (cases s)
    case (Cons c cs)
    consider "bv c < 0x80" | "\<not> bv c < 0x80" "rune_len s = 0" | "\<not> bv c < 0x80" "rune_len s \<noteq> 0"
      by blast
    then show ?thesis
    proof cases
      case 3
      let ?x = "take (rune_len s) s"
      have "length ?x = rune_len s" using rune_len_bounds [of s] by simp
      then have "wide_rune ?x"
        using 3 Cons rune_len_take [of s "rune_len s" "[]"] by (auto simp: wide_rune_def hd_take)
      moreover have "P (drop (rune_len s) s)" using 1 3 Cons by simp
      ultimately show ?thesis using rune [of ?x "drop (rune_len s) s"] by simp
    qed (use 1 Cons ascii bad in auto)
  qed (use assms(1) in simp)
qed

lemma quote_body_pieces:
  "quote_body [] = []"
  "bv c < 0x80 \<Longrightarrow> quote_body (c # cs) = quote_ascii c @ quote_body cs"
  "\<not> bv c < 0x80 \<Longrightarrow> rune_len (c # cs) = 0 \<Longrightarrow> quote_body (c # cs) = ufffd_escape @ quote_body cs"
  "wide_rune x \<Longrightarrow> quote_body (x @ s) = (if line_sep x then quote_sep x else x) @ quote_body s"
  by (subst quote_body.simps; use wide_rune_Cons [of x] wide_rune_len [of x s] in auto)+

lemma to_valid_pieces:
  "to_valid [] = []"
  "bv c < 0x80 \<Longrightarrow> to_valid (c # cs) = [c] @ to_valid cs"
  "\<not> bv c < 0x80 \<Longrightarrow> rune_len (c # cs) = 0 \<Longrightarrow> to_valid (c # cs) = rune_error @ to_valid cs"
  "wide_rune x \<Longrightarrow> to_valid (x @ s) = x @ to_valid s"
     apply (subst to_valid.simps, simp)
    apply (subst to_valid.simps, simp add: rune_len_def)
   apply (subst to_valid.simps, simp)
  apply (subst to_valid.simps, use wide_rune_Cons [of x] wide_rune_len [of x s] in auto)
  done

subsection \<open>Scanning a quoted string\<close>

text \<open>A piece of a quoted string that the scanner goes over without ending the string.\<close>

definition scan_over :: "string \<Rightarrow> bool" where
  "scan_over x \<longleftrightarrow> (\<forall>t. scan_str (x @ t) = map_option (\<lambda>(u, r). (x @ u, r)) (scan_str t))"

lemma scan_over_append: "scan_over x \<Longrightarrow> scan_over y \<Longrightarrow> scan_over (x @ y)"
  by (simp add: scan_over_def option.map_comp comp_def case_prod_unfold)

lemma scan_over_Nil: "scan_over []"
  by (simp add: scan_over_def option.map_ident case_prod_unfold)

lemma scan_over_plain: "c \<noteq> CHR 0x22 \<Longrightarrow> c \<noteq> CHR 0x5C \<Longrightarrow> 0x20 \<le> bv c \<Longrightarrow> scan_over [c]"
  by (simp add: scan_over_def)

lemma scan_over_high: "list_all (\<lambda>c. 0x80 \<le> bv c) x \<Longrightarrow> scan_over x"
proof (induction x)
  case (Cons c x)
  then have "scan_over ([c] @ x)"
    by (intro scan_over_append scan_over_plain) auto
  then show ?case by simp
qed (rule scan_over_Nil)

lemma escape_split_append: "escape_split x = Some (x, []) \<Longrightarrow> escape_split (x @ t) = Some (x, t)"
  by (cases x) (auto simp: escape_split_def split: if_splits)

lemma scan_over_escape: "escape_split x = Some (x, []) \<Longrightarrow> scan_over (CHR 0x5C # x)"
  by (simp add: scan_over_def escape_split_append)

lemma scan_over_u00: "scan_over (u00_escape c)"
  unfolding u00_escape_def append.simps
  by (rule scan_over_escape) (simp add: escape_split_def hex_digit_ok div_less_16 is_hex_0 is_hex_2)

lemma scan_over_u202: "scan_over (quote_sep r)"
  unfolding quote_sep_def append.simps
  by (rule scan_over_escape) (simp add: escape_split_def hex_digit_ok div_less_16 is_hex_0 is_hex_2)

lemma scan_over_ufffd: "scan_over ufffd_escape"
  unfolding ufffd_escape_def append.simps by (rule scan_over_escape) (simp add: escape_split_def is_hex_def)

lemma scan_over_short: "e \<in> set (''bfnrt/'' @ [CHR 0x5C, CHR 0x22]) \<Longrightarrow> scan_over [CHR 0x5C, e]"
  by (rule scan_over_escape) (simp add: escape_split_def)

lemma scan_over_ascii: "scan_over (quote_ascii c)"
  by (simp add: quote_ascii_def scan_over_u00 scan_over_short scan_over_plain)

lemma scan_over_wide: "wide_rune x \<Longrightarrow> scan_over x"
  by (intro scan_over_high wide_rune_high)

lemmas scan_over_pieces = scan_over_append scan_over_Nil scan_over_ascii scan_over_ufffd
  scan_over_u202 scan_over_wide

lemma scan_over_quote: "scan_over (quote_body s)"
  by (induction s rule: pieces_induct)
    (simp_all add: quote_body_pieces scan_over_pieces)

lemma scan_str_quote: "scan_str (quote_body s @ CHR 0x22 # r) = Some (quote_body s, r)"
  using scan_over_quote [of s] by (simp add: scan_over_def)

lemma quote_ascii_length: "length (quote_ascii c) \<le> 6"
  by (simp add: quote_ascii_def u00_escape_def)

lemma quote_body_length: "length (quote_body s) \<le> 6 * length s"
proof (induction s rule: pieces_induct)
  case (ascii c cs)
  then show ?case using quote_ascii_length [of c] by (simp add: quote_body_pieces)
next
  case (rune x s)
  have "x \<noteq> []" using rune(1) by (simp add: wide_rune_def)
  then have "1 \<le> length x" by (cases x) auto
  with rune show ?case by (simp add: quote_body_pieces quote_sep_def)
qed (simp_all add: quote_body_pieces ufffd_escape_def)

lemma json_quote_length: "length (json_quote s) \<le> 6 * length s + 2"
  using quote_body_length [of s] by (simp add: json_quote_def)

subsection \<open>Unquoting\<close>

definition unquotes_to :: "string \<Rightarrow> string \<Rightarrow> bool" where
  "unquotes_to x y \<longleftrightarrow> (\<forall>t. unquote (x @ t) = y @ unquote t)"

lemma unquotes_to_append: "unquotes_to x y \<Longrightarrow> unquotes_to u v \<Longrightarrow> unquotes_to (x @ u) (y @ v)"
  by (simp add: unquotes_to_def)

lemma unquotes_to_Nil: "unquotes_to [] []"
  by (simp add: unquotes_to_def)

lemma unquotes_to_plain: "c \<noteq> CHR 0x5C \<Longrightarrow> bv c < 0x80 \<Longrightarrow> unquotes_to [c] [c]"
  by (simp add: unquotes_to_def unquote.simps)

lemma unquotes_to_short: "e \<noteq> CHR ''u'' \<Longrightarrow> unquotes_to [CHR 0x5C, e] [unescape e]"
  by (simp add: unquotes_to_def unquote.simps [of "CHR 0x5C # _"] getu4_def)

lemma unquotes_to_u:
  assumes "hex4 [a, b, c, d] = Some r" and "r < 0xD800 \<or> 0xDFFF < r"
  shows "unquotes_to [CHR 0x5C, CHR ''u'', a, b, c, d] (encode_rune r)"
proof -
  have "hex4 (a # b # c # d # t) = Some r" for t using assms(1) by simp
  moreover have "(0xD800 \<le> r \<and> r \<le> 0xDFFF) = False" using assms(2) by auto
  ultimately show ?thesis
    by (auto simp del: hex4.simps simp add: unquotes_to_def unquote.simps [of "CHR 0x5C # _"] getu4_def)
qed

lemma unquotes_to_wide: "wide_rune x \<Longrightarrow> unquotes_to x x"
  using wide_rune_Cons [of x] wide_rune_len [of x]
  by (auto simp: unquotes_to_def unquote.simps [of "_ # _"] Let_def)

lemma hex4_u00: "hex4 [CHR ''0'', CHR ''0'', hex_digit (bv c div 16), hex_digit (bv c mod 16)] = Some (bv c)"
  using hex_digit_ok [OF div_less_16 [of c]] hex_digit_ok [of "bv c mod 16"]
  by (simp add: is_hex_0, simp add: hex_val_def)

lemma unquotes_to_u00: "bv c < 0x80 \<Longrightarrow> unquotes_to (u00_escape c) [c]"
  using unquotes_to_u [OF hex4_u00 [of c]] by (simp add: u00_escape_def encode_rune_def)

lemma unquotes_to_shorts:
  "unquotes_to [CHR 0x5C, CHR ''b''] [CHR 0x08]" "unquotes_to [CHR 0x5C, CHR ''f''] [CHR 0x0C]"
  "unquotes_to [CHR 0x5C, CHR ''n''] [CHR 0x0A]" "unquotes_to [CHR 0x5C, CHR ''r''] [CHR 0x0D]"
  "unquotes_to [CHR 0x5C, CHR ''t''] [CHR 0x09]" "unquotes_to [CHR 0x5C, CHR 0x22] [CHR 0x22]"
  "unquotes_to [CHR 0x5C, CHR 0x5C] [CHR 0x5C]"
  using unquotes_to_short [of "CHR ''b''"] unquotes_to_short [of "CHR ''f''"]
    unquotes_to_short [of "CHR ''n''"] unquotes_to_short [of "CHR ''r''"] unquotes_to_short [of "CHR ''t''"]
    unquotes_to_short [of "CHR 0x22"] unquotes_to_short [of "CHR 0x5C"]
  by (simp_all add: unescape_def)

lemma unquotes_to_ascii: "bv c < 0x80 \<Longrightarrow> unquotes_to (quote_ascii c) [c]"
  by (auto simp: quote_ascii_def unquotes_to_u00 unquotes_to_plain unquotes_to_shorts)

lemma unquotes_to_ufffd: "unquotes_to ufffd_escape rune_error"
  using unquotes_to_u [where a = "CHR ''f''" and b = "CHR ''f''" and c = "CHR ''f''" and d = "CHR ''d''" and r = "0xFFFD"]
  by (simp add: ufffd_escape_def rune_error_def is_hex_def hex_val_def encode_rune_def char_of_def bit_0)

lemma unquotes_to_sep: "line_sep r \<Longrightarrow> unquotes_to (quote_sep r) r"
  using unquotes_to_u [where a = "CHR ''2''" and b = "CHR ''0''" and c = "CHR ''2''" and d = "CHR ''8''" and r = "0x2028"]
    unquotes_to_u [where a = "CHR ''2''" and b = "CHR ''0''" and c = "CHR ''2''" and d = "CHR ''9''" and r = "0x2029"]
  by (auto simp: line_sep_def quote_sep_def hex_digit_def is_hex_def hex_val_def encode_rune_def char_of_def bit_0)

lemmas unquotes_to_pieces = unquotes_to_append unquotes_to_Nil unquotes_to_wide unquotes_to_ufffd
  unquotes_to_sep

lemma unquotes_to_quote: "unquotes_to (quote_body s) (to_valid s)"
proof (induction s rule: pieces_induct)
  case (ascii c cs)
  then show ?case using unquotes_to_append [OF unquotes_to_ascii [of c]]
    by (simp add: quote_body_pieces to_valid_pieces)
qed (simp_all add: quote_body_pieces to_valid_pieces unquotes_to_pieces)

lemma unquote_Nil [simp]: "unquote [] = []"
  by (simp add: unquote.simps)

theorem unquote_quote: "unquote (quote_body s) = to_valid s"
  using unquotes_to_quote [of s] unfolding unquotes_to_def by (metis append_Nil2 unquote_Nil)

lemma to_valid_ascii: "list_all (\<lambda>c. bv c < 0x80) s \<Longrightarrow> to_valid s = s"
  by (induction s) (simp_all add: to_valid_pieces)

subsection \<open>Compaction leaves quoted strings alone\<close>

definition compact_keeps :: "string \<Rightarrow> bool" where
  "compact_keeps x \<longleftrightarrow> (\<forall>t. compact True (x @ t) = x @ compact True t)"

lemma compact_keeps_append: "compact_keeps x \<Longrightarrow> compact_keeps y \<Longrightarrow> compact_keeps (x @ y)"
  by (simp add: compact_keeps_def)

lemma compact_keeps_Nil: "compact_keeps []"
  by (simp add: compact_keeps_def)

lemma line_sep_head: "line_sep (c # cs) \<Longrightarrow> c = CHR 0xE2"
  by (auto simp: line_sep_def)

lemma compact_keeps_plain:
  "\<not> html_unsafe c \<Longrightarrow> c \<notin> {CHR 0x22, CHR 0x5C, CHR 0xE2} \<Longrightarrow> compact_keeps [c]"
  by (auto simp: compact_keeps_def compact_step_def dest: line_sep_head)

lemma compact_keeps_short: "compact_keeps [CHR 0x5C, e]"
  by (auto simp: compact_keeps_def compact_step_def html_unsafe_def dest: line_sep_head)

lemma compact_keeps_plains:
  "list_all (\<lambda>c. \<not> html_unsafe c \<and> c \<notin> {CHR 0x22, CHR 0x5C, CHR 0xE2}) x \<Longrightarrow> compact_keeps x"
proof (induction x)
  case (Cons c x)
  then have "compact_keeps ([c] @ x)"
    by (intro compact_keeps_append compact_keeps_plain) auto
  then show ?case by simp
qed (rule compact_keeps_Nil)

lemma compact_keeps_escape:
  assumes "list_all (\<lambda>c. \<not> html_unsafe c \<and> c \<notin> {CHR 0x22, CHR 0x5C, CHR 0xE2}) x"
  shows "compact_keeps (CHR 0x5C # e # x)"
  using compact_keeps_append [OF compact_keeps_short [of e] compact_keeps_plains [OF assms]] by simp

lemma hex_digit_plain:
  "n < 16 \<Longrightarrow> \<not> html_unsafe (hex_digit n) \<and> hex_digit n \<notin> {CHR 0x22, CHR 0x5C, CHR 0xE2}"
  using hex_digit_ok [of n] by (auto simp: is_hex_def html_unsafe_def)

lemma compact_keeps_u00: "compact_keeps (u00_escape c)"
  using hex_digit_plain [OF div_less_16 [of c]] hex_digit_plain [of "bv c mod 16"]
  unfolding u00_escape_def append.simps
  by (intro compact_keeps_escape) (simp, simp add: html_unsafe_def)

lemma compact_keeps_sep: "compact_keeps (quote_sep r)"
  using hex_digit_plain [of "bv (last r) mod 16"] unfolding quote_sep_def append.simps
  by (intro compact_keeps_escape) (simp, simp add: html_unsafe_def)

lemma compact_keeps_ufffd: "compact_keeps ufffd_escape"
  unfolding ufffd_escape_def append.simps by (rule compact_keeps_escape) (simp add: html_unsafe_def)

lemma compact_keeps_ascii: "bv c < 0x80 \<Longrightarrow> compact_keeps (quote_ascii c)"
proof -
  assume "bv c < 0x80"
  then have "c \<noteq> CHR 0xE2" by auto
  then show ?thesis
    by (simp add: quote_ascii_def compact_keeps_u00 compact_keeps_short compact_keeps_plain)
qed

lemma compact_keeps_wide:
  assumes "wide_rune x" and "\<not> line_sep x"
  shows "compact_keeps x"
proof -
  have high: "compact_keeps y" if "list_all cont_byte y" for y
    using that by (intro compact_keeps_plains) (auto simp: list_all_iff cont_byte_def html_unsafe_def)
  have x: "rune_len x = length x" "length x \<noteq> 0" "\<not> bv (hd x) < 0x80"
    using assms(1) by (auto simp: wide_rune_def)
  show ?thesis
  proof (cases "hd x = CHR 0xE2")
    case False
    then obtain c y where "x = [c] @ y" "list_all cont_byte y" "c \<noteq> CHR 0xE2" "0x80 \<le> bv c"
      by (rule_tac rune_len_cases [OF x]) (auto dest!: second_ok_cont)
    moreover from this have "compact_keeps [c]"
      by (intro compact_keeps_plain) (auto simp: html_unsafe_def)
    ultimately show ?thesis using high compact_keeps_append by metis
  next
    case True
    then obtain b c where "x = [CHR 0xE2, b, c]" "list_all cont_byte [b, c]"
      by (rule_tac rune_len_cases [OF x]) (auto dest!: second_ok_cont)
    then show ?thesis
      using high [of "[b, c]"] assms(2)
      by (auto simp: compact_keeps_def compact_step_def html_unsafe_def)
  qed
qed

lemmas compact_keeps_pieces = compact_keeps_append compact_keeps_Nil compact_keeps_ascii
  compact_keeps_wide compact_keeps_ufffd compact_keeps_sep

lemma compact_keeps_quote: "compact_keeps (quote_body s)"
  by (induction s rule: pieces_induct) (simp_all add: quote_body_pieces compact_keeps_pieces)

section \<open>Values in context\<close>

text \<open>
  A raw value is settled when the scanner ends exactly at its end, whatever delimiter follows, and
  compaction does not change it. Everything \<open>Marshal\<close> writes is settled.
\<close>

definition delim :: "string \<Rightarrow> bool" where
  "delim t \<longleftrightarrow> t = [] \<or> hd t \<in> {CHR '','', CHR 0x7D, CHR 0x5D}"

definition settled :: "nat \<Rightarrow> string \<Rightarrow> bool" where
  "settled d x \<longleftrightarrow> x \<noteq> [] \<and> \<not> json_space (hd x) \<and>
     (\<forall>n t. length x \<le> n \<longrightarrow> delim t \<longrightarrow> scan_value n d (x @ t) = Some t) \<and>
     (\<forall>t. delim t \<longrightarrow> compact False (x @ t) = x @ compact False t)"

lemma skip_ws_Cons: "\<not> json_space c \<Longrightarrow> skip_ws (c # cs) = c # cs"
  by (simp add: skip_ws_def)

lemma skip_ws_Nil [simp]: "skip_ws [] = []"
  by (simp add: skip_ws_def)

lemma json_space_simps [simp]:
  "\<not> json_space CHR 0x22" "\<not> json_space CHR '',''" "\<not> json_space CHR '':''"
  "\<not> json_space CHR 0x7B" "\<not> json_space CHR 0x7D" "\<not> json_space CHR 0x5B" "\<not> json_space CHR 0x5D"
  by (simp_all add: json_space_def)

lemma settled_skip: "settled d x \<Longrightarrow> skip_ws (x @ t) = x @ t"
  by (cases x) (auto simp: settled_def skip_ws_Cons)

lemma delim_skip: "delim t \<Longrightarrow> skip_ws t = t"
  by (cases t) (auto simp: delim_def skip_ws_Cons)

lemma json_quote_scan: "scan_str (tl (json_quote s) @ t) = Some (quote_body s, t)"
  by (simp add: json_quote_def scan_str_quote)

lemma compact_quote: "compact False (json_quote s @ t) = json_quote s @ compact False t"
  using compact_keeps_quote [of s]
  by (auto simp: json_quote_def compact_keeps_def compact_step_def html_unsafe_def dest: line_sep_head)

lemma settled_quote: "settled d (json_quote s)"
proof -
  have "scan_value n d (json_quote s @ t) = Some t" if n: "length (json_quote s) \<le> n" for n t
  proof -
    obtain m where "n = Suc m" using n by (cases n) (auto simp: json_quote_def)
    then show ?thesis by (simp add: json_quote_def value_step_def scan_str_quote)
  qed
  then show ?thesis
    by (auto simp: settled_def compact_quote) (simp_all add: json_quote_def)
qed

subsection \<open>Numbers\<close>

lemma is_digit_dec: "(n :: nat) < 10 \<Longrightarrow> is_digit (char_of (48 + n))"
  by (simp add: is_digit_def)

lemma dec_nat_digits: "list_all is_digit (dec_nat n)"
proof (induction n rule: dec_nat.induct)
  case (1 n)
  then show ?case by (subst dec_nat.simps) (auto simp: is_digit_dec)
qed

lemma dec_nat_nonempty [simp]: "dec_nat n \<noteq> []"
  by (subst dec_nat.simps) simp

lemma dec_nat_head: "0 < n \<Longrightarrow> hd (dec_nat n) \<noteq> CHR ''0''"
proof (induction n rule: dec_nat.induct)
  case (1 n)
  have "bv (char_of (48 + n)) \<noteq> bv CHR ''0''" if "n < 10" using that 1(2) by simp
  then have "char_of (48 + n) \<noteq> CHR ''0''" if "n < 10" using that by metis
  with 1 show ?case by (subst dec_nat.simps) auto
qed

lemma dec_nat_0: "dec_nat 0 = ''0''"
  by (simp add: dec_nat.simps char_of_def bit_0)

lemma dec_nat_length: "n < 10 ^ k \<Longrightarrow> 0 < k \<Longrightarrow> length (dec_nat n) \<le> k"
proof (induction n arbitrary: k rule: dec_nat.induct)
  case (1 n)
  show ?case
  proof (cases "n < 10")
    case False
    with 1(2,3) obtain j where j: "k = Suc j" "0 < j" by (cases k; cases "k - 1") auto
    then have "n div 10 < 10 ^ j" using 1(2) by (simp add: less_mult_imp_div_less mult.commute)
    with 1(1) False j show ?thesis by (subst dec_nat.simps) auto
  qed (use 1 in \<open>simp add: dec_nat.simps [of n]\<close>)
qed

lemma digits_val_append:
  "digits_val acc (xs @ ys) = Option.bind (digits_val acc xs) (\<lambda>a. digits_val a ys)"
  by (induction xs arbitrary: acc) auto

lemma digits_val_dec: "digits_val 0 (dec_nat n) = Some n"
proof (induction n rule: dec_nat.induct)
  case (1 n)
  show ?case
  proof (cases "n < 10")
    case True
    then show ?thesis by (subst dec_nat.simps) (simp add: is_digit_def)
  next
    case False
    with 1 show ?thesis by (subst dec_nat.simps) (simp add: digits_val_append is_digit_def)
  qed
qed

lemma parse_nat_dec: "parse_nat (dec_nat n) = Some n"
  by (simp add: parse_nat_def digits_val_dec)

lemma not_null: "is_digit (hd s) \<or> hd s = CHR ''-'' \<Longrightarrow> s \<noteq> json_null"
  by (auto simp: json_null_def is_digit_def)

lemma dec_nat_hd_digit: "is_digit (hd (dec_nat n))"
  using dec_nat_digits [of n] by (cases "dec_nat n") auto

lemma dec_uint64_dec: "dec_uint64 z (dec_nat (unat w)) = Some w"
  using not_null [of "dec_nat (unat w)"] dec_nat_hd_digit [of "unat w"] unsigned_less [of w, where 'a = nat]
  by (simp add: dec_uint64_def parse_nat_dec)

lemma dec_int64_dec:
  assumes "- (2 ^ 63) \<le> i" and "i < 2 ^ 63"
  shows "dec_int64 z (dec_int i) = Some i"
proof (cases "i < 0")
  case True
  then have "dec_int i \<noteq> json_null" by (intro not_null) (simp add: dec_int_def)
  moreover have "nat (- i) \<le> 2 ^ 63" using assms by simp
  ultimately show ?thesis using True by (simp add: dec_int64_def dec_int_def parse_nat_dec)
next
  case False
  obtain c cs where d: "dec_nat (nat i) = c # cs" by (cases "dec_nat (nat i)") auto
  then have "is_digit c" using dec_nat_hd_digit [of "nat i"] by simp
  then have c: "c \<noteq> CHR ''-''" by (auto simp: is_digit_def)
  have "dec_int i \<noteq> json_null" using False dec_nat_hd_digit by (intro not_null) (simp add: dec_int_def)
  moreover have "nat i < 2 ^ 63" using assms False by (simp add: nat_less_iff)
  ultimately show ?thesis
    using False c d parse_nat_dec [of "nat i"] by (simp add: dec_int64_def dec_int_def)
qed

lemma skip_digits_append:
  "list_all is_digit x \<Longrightarrow> delim t \<Longrightarrow> skip_digits (x @ t) = t"
  by (induction x) (auto simp: skip_digits_def delim_def is_digit_def dropWhile_eq_self_iff)

lemma scan_frac_delim: "delim t \<Longrightarrow> scan_frac t = Some t"
  by (auto simp: scan_frac_def delim_def split: list.splits)

lemma scan_exp_delim: "delim t \<Longrightarrow> scan_exp t = Some t"
  by (auto simp: scan_exp_def delim_def split: list.splits)

lemma scan_int_part_dec:
  assumes "delim t"
  shows "scan_int_part (dec_nat n @ t) = Some t" and "scan_int_part (CHR ''-'' # dec_nat n @ t) = Some t"
proof -
  obtain c cs where d: "dec_nat n = c # cs" by (cases "dec_nat n") auto
  have "is_digit c" "list_all is_digit cs" using d dec_nat_digits [of n] by auto
  moreover have "c = CHR ''0'' \<Longrightarrow> cs = []" using d dec_nat_head [of n] by (cases n) (auto simp: dec_nat_0)
  moreover have "c \<noteq> CHR ''-''" using \<open>is_digit c\<close> by (auto simp: is_digit_def)
  ultimately show "scan_int_part (dec_nat n @ t) = Some t"
    "scan_int_part (CHR ''-'' # dec_nat n @ t) = Some t"
    using assms d by (auto simp: scan_int_part_def skip_digits_append)
qed

lemma scan_number_dec: "delim t \<Longrightarrow> scan_number (dec_int i @ t) = Some t"
  by (simp add: dec_int_def scan_number_def scan_int_part_dec scan_frac_delim scan_exp_delim)

lemma digit_plain:
  "is_digit c \<or> c = CHR ''-'' \<Longrightarrow>
     \<not> html_unsafe c \<and> \<not> json_space c \<and> c \<notin> {CHR 0xE2, CHR 0x22, CHR 0x7B, CHR 0x5B, CHR ''t'', CHR ''f'', CHR ''n''}"
  by (auto simp: is_digit_def html_unsafe_def json_space_def)

lemma compact_plain:
  "list_all (\<lambda>c. is_digit c \<or> c = CHR ''-'') x \<Longrightarrow> compact False (x @ t) = x @ compact False t"
proof (induction x)
  case (Cons c x)
  then have c: "is_digit c \<or> c = CHR ''-''" by simp
  have "\<not> line_sep (c # take 2 (x @ t))" using digit_plain [OF c] line_sep_head by blast
  then have "compact_step False c (x @ t) = ([c], False, x @ t)"
    using digit_plain [OF c] by (simp add: compact_step_def)
  with Cons show ?case by simp
qed simp

lemma dec_int_chars: "list_all (\<lambda>c. is_digit c \<or> c = CHR ''-'') (dec_int i)"
  using dec_nat_digits [of "nat i"] dec_nat_digits [of "nat (- i)"]
  by (auto simp: dec_int_def list_all_iff)

lemma dec_int_nonempty [simp]: "dec_int i \<noteq> []"
  by (simp add: dec_int_def)

lemma settled_int: "settled d (dec_int i)"
proof -
  obtain c cs where d: "dec_int i = c # cs" by (cases "dec_int i") auto
  then have c: "is_digit c \<or> c = CHR ''-''" using dec_int_chars [of i] by simp
  have "scan_value n d (dec_int i @ t) = Some t" if n: "length (dec_int i) \<le> n" and "delim t" for n t
  proof -
    obtain m where "n = Suc m" using n d by (cases n) auto
    moreover have "c \<notin> {CHR 0x22, CHR 0x7B, CHR 0x5B, CHR ''t'', CHR ''f'', CHR ''n''}"
      using digit_plain [OF c] by simp
    ultimately show ?thesis
      using scan_number_dec [OF \<open>delim t\<close>, of i] d by (simp add: value_step_def)
  qed
  moreover have "\<not> json_space c" using digit_plain [OF c] by simp
  ultimately show ?thesis
    using d compact_plain [OF dec_int_chars [of i]] by (auto simp: settled_def)
qed

lemma dec_nat_int: "dec_nat n = dec_int (int n)"
  by (simp add: dec_int_def)

subsection \<open>Objects and arrays\<close>

lemma raw_value_settled:
  assumes "settled d v" and "length v \<le> n" and "delim t"
  shows "raw_value (scan_value n) d (v @ t) = Some (v, t)"
  using assms by (simp add: raw_value_def settled_def delim_skip)

lemma member_step_settled:
  assumes "settled d v" and "length v \<le> n" and "delim t"
  shows "member_step (scan_value n) d (json_member (k, v) @ t) = Some ((quote_body k, v), t)"
  using raw_value_settled [OF assms] settled_skip [OF assms(1), of t]
  by (simp add: member_step_def json_member_def json_quote_def scan_str_quote skip_ws_Cons)

lemma delim_simps [simp]: "delim (CHR '','' # t)" "delim (CHR 0x7D # t)" "delim (CHR 0x5D # t)" "delim []"
  by (simp_all add: delim_def)

lemma json_member_skip: "skip_ws (json_member kv @ t) = json_member kv @ t"
  by (simp add: json_member_def json_quote_def skip_ws_Cons)

lemma Join_member_skip:
  assumes "kvs \<noteq> []"
  shows "skip_ws (Join (map json_member kvs) '','' @ t) = Join (map json_member kvs) '','' @ t"
proof -
  obtain kv kvs' where "kvs = kv # kvs'" using assms by (cases kvs) auto
  then show ?thesis by (cases kvs') (simp_all add: json_member_skip)
qed

lemma scan_members_settled:
  assumes "kvs \<noteq> []" and "\<forall>kv \<in> set kvs. settled d (snd kv)"
    and "length (Join (map json_member kvs) '','') < n"
  shows "scan_members n d (Join (map json_member kvs) '','' @ CHR 0x7D # t)
           = Some (map (\<lambda>(k, v). (quote_body k, v)) kvs, t)"
  using assms
proof (induction kvs arbitrary: n rule: induct_list012)
  case (2 kv)
  obtain k v where kv: "kv = (k, v)" by (cases kv)
  obtain m where m: "n = Suc m" using 2 by (cases n) auto
  with 2 kv show ?case
    using member_step_settled [of d v m "CHR 0x7D # t" k] by (simp add: list_step_def json_member_def)
next
  case (3 kv kv' kvs)
  obtain k v where kv: "kv = (k, v)" by (cases kv)
  obtain m where m: "n = Suc m" using 3 by (cases n) auto
  let ?more = "Join (map json_member (kv' # kvs)) '','' @ CHR 0x7D # t"
  have "member_step (scan_value m) d (json_member kv @ CHR '','' # ?more) = Some ((quote_body k, v), CHR '','' # ?more)"
    using 3 kv m by (simp only: kv, intro member_step_settled) (auto simp: json_member_def)
  moreover have "skip_ws ?more = ?more" by (rule Join_member_skip) simp
  moreover have "scan_members m d ?more = Some (map (\<lambda>(k, v). (quote_body k, v)) (kv' # kvs), t)"
    using 3 m by (intro "3.IH") auto
  ultimately show ?case using m kv by (simp add: list_step_def)
qed simp

lemma scan_elems_settled:
  assumes "vs \<noteq> []" and "\<forall>v \<in> set vs. settled d v" and "length (Join vs '','') < n"
  shows "scan_elems n d (Join vs '','' @ CHR 0x5D # t) = Some (vs, t)"
  using assms
proof (induction vs arbitrary: n rule: induct_list012)
  case (2 v)
  obtain m where m: "n = Suc m" using 2 by (cases n) auto
  with 2 show ?case
    using raw_value_settled [of d v m "CHR 0x5D # t"] by (simp add: list_step_def)
next
  case (3 v v' vs)
  obtain m where m: "n = Suc m" using 3 by (cases n) auto
  let ?more = "Join (v' # vs) '','' @ CHR 0x5D # t"
  have "raw_value (scan_value m) d (v @ CHR '','' # ?more) = Some (v, CHR '','' # ?more)"
    using 3 m by (intro raw_value_settled) auto
  moreover have "skip_ws ?more = ?more"
    using 3 settled_skip [of d v'] by (cases vs) auto
  moreover have "scan_elems m d ?more = Some (v' # vs, t)"
    using 3 m by (intro "3.IH") auto
  ultimately show ?case using m by (simp add: list_step_def)
qed simp

lemma compact_punct:
  "compact False (CHR '','' # t) = CHR '','' # compact False t" "compact False (CHR '':'' # t) = CHR '':'' # compact False t"
  "compact False (CHR 0x7B # t) = CHR 0x7B # compact False t" "compact False (CHR 0x7D # t) = CHR 0x7D # compact False t"
  "compact False (CHR 0x5B # t) = CHR 0x5B # compact False t" "compact False (CHR 0x5D # t) = CHR 0x5D # compact False t"
  by (simp_all add: compact_step_def html_unsafe_def line_sep_def)

lemma compact_settled: "settled d v \<Longrightarrow> delim t \<Longrightarrow> compact False (v @ t) = v @ compact False t"
  by (simp add: settled_def)

lemma compact_member:
  "settled d (snd kv) \<Longrightarrow> delim t \<Longrightarrow> compact False (json_member kv @ t) = json_member kv @ compact False t"
  by (simp add: json_member_def compact_quote compact_punct compact_settled [of d] del: compact.simps)

lemma compact_members:
  assumes "\<forall>kv \<in> set kvs. settled d (snd kv)"
  shows "compact False (Join (map json_member kvs) '','' @ CHR 0x7D # t)
           = Join (map json_member kvs) '','' @ compact False (CHR 0x7D # t)"
  using assms
  by (induction kvs rule: induct_list012) (simp_all add: compact_member [of d] compact_punct del: compact.simps)

lemma compact_elems:
  assumes "\<forall>v \<in> set vs. settled d v"
  shows "compact False (Join vs '','' @ CHR 0x5D # t) = Join vs '','' @ compact False (CHR 0x5D # t)"
  using assms
  by (induction vs rule: induct_list012) (simp_all add: compact_settled [of d] compact_punct del: compact.simps)

lemma object_step_settled:
  assumes "\<forall>kv \<in> set kvs. settled d (snd kv)" and "length (json_object kvs) \<le> Suc n"
  shows "object_step (scan_members n) (Suc d) (tl (json_object kvs) @ t)
           = Some (map (\<lambda>(k, v). (quote_body k, v)) kvs, t)"
proof (cases "kvs = []")
  case True
  then show ?thesis by (simp add: object_step_def json_object_def skip_ws_Cons)
next
  case False
  let ?m = "Join (map json_member kvs) '','' @ CHR 0x7D # t"
  have "skip_ws ?m = ?m" using False by (rule Join_member_skip)
  moreover obtain r where "?m = CHR 0x22 # r"
    using False by (cases kvs; cases "tl kvs") (auto simp: json_member_def json_quote_def)
  moreover have "scan_members n d ?m = Some (map (\<lambda>(k, v). (quote_body k, v)) kvs, t)"
    using assms False by (intro scan_members_settled) (auto simp: json_object_def)
  ultimately show ?thesis by (simp add: object_step_def json_object_def)
qed

lemma json_object_Cons: "json_object kvs = CHR 0x7B # tl (json_object kvs)"
  by (simp add: json_object_def)

lemma settled_object:
  assumes "\<forall>kv \<in> set kvs. settled d (snd kv)"
  shows "settled (Suc d) (json_object kvs)"
proof -
  have "scan_value n (Suc d) (json_object kvs @ t) = Some t" if n: "length (json_object kvs) \<le> n" for n t
  proof -
    obtain m where m: "n = Suc m" using n by (cases n) (auto simp: json_object_def)
    then show ?thesis
      using object_step_settled [OF assms, of m t] n
      by (subst json_object_Cons) (simp add: value_step_def)
  qed
  moreover have "compact False (json_object kvs @ t) = json_object kvs @ compact False t" for t
    using compact_members [OF assms, of t] by (simp add: json_object_def compact_punct del: compact.simps)
  ultimately show ?thesis by (simp add: settled_def) (simp add: json_object_def)
qed

lemma scan_close: "scan_value n d (CHR 0x5D # t) = None"
  by (cases n) (simp_all add: value_step_def scan_number_def scan_int_part_def is_digit_def)

lemma array_step_settled:
  assumes "\<forall>v \<in> set vs. settled d v" and "length (json_array vs) \<le> Suc n"
  shows "array_step (scan_elems n) (Suc d) (tl (json_array vs) @ t) = Some (vs, t)"
proof (cases vs)
  case Nil
  then show ?thesis by (simp add: array_step_def json_array_def skip_ws_Cons)
next
  case (Cons v vs')
  let ?m = "Join vs '','' @ CHR 0x5D # t"
  have v: "settled d v" using assms Cons by simp
  have "skip_ws ?m = ?m" using Cons settled_skip [OF v] by (cases vs') auto
  moreover obtain c r where "?m = c # r" "v = c # tl v"
    using Cons v by (cases vs'; cases v) (auto simp: settled_def)
  moreover have "scan_elems n d ?m = Some (vs, t)"
    using assms Cons by (intro scan_elems_settled) (auto simp: json_array_def)
  moreover have "c \<noteq> CHR 0x5D"
    using v \<open>v = c # tl v\<close> scan_close [of "length v" d] by (auto simp: settled_def) (metis append_Nil2 delim_simps(4) order_refl option.distinct(1))
  ultimately show ?thesis by (simp add: array_step_def json_array_def)
qed

lemma json_array_Cons: "json_array vs = CHR 0x5B # tl (json_array vs)"
  by (simp add: json_array_def)

lemma settled_array:
  assumes "\<forall>v \<in> set vs. settled d v"
  shows "settled (Suc d) (json_array vs)"
proof -
  have "scan_value n (Suc d) (json_array vs @ t) = Some t" if n: "length (json_array vs) \<le> n" for n t
  proof -
    obtain m where m: "n = Suc m" using n by (cases n) (auto simp: json_array_def)
    then show ?thesis
      using array_step_settled [OF assms, of m t] n
      by (subst json_array_Cons) (simp add: value_step_def)
  qed
  moreover have "compact False (json_array vs @ t) = json_array vs @ compact False t" for t
    using compact_elems [OF assms, of t] by (simp add: json_array_def compact_punct del: compact.simps)
  ultimately show ?thesis by (simp add: settled_def) (simp add: json_array_def)
qed

section \<open>Reading back what was written\<close>

lemma settled_scan: "settled d x \<Longrightarrow> length x \<le> n \<Longrightarrow> delim t \<Longrightarrow> scan_value n d (x @ t) = Some t"
  by (simp add: settled_def)

lemma settled_valid: "settled max_nesting x \<Longrightarrow> json_Valid x"
  using settled_skip [of max_nesting x "[]"] settled_scan [of max_nesting x "Suc (length x)" "[]"]
  by (simp add: json_Valid_def del: scan_value.simps)

lemma settled_compact: "settled d x \<Longrightarrow> compact False x = x"
  using compact_settled [of d x "[]"] by simp

text \<open>The nesting depth the values of a document have below the document itself.\<close>

definition inner_nesting :: nat where
  "inner_nesting = max_nesting - 1"

lemma Suc_inner: "Suc inner_nesting = max_nesting"
  by (simp add: inner_nesting_def max_nesting_def)

theorem json_members_object:
  assumes "\<forall>kv \<in> set kvs. settled inner_nesting (snd kv)"
  shows "json_members (json_object kvs) = Some (map (\<lambda>(k, v). (to_valid k, v)) kvs)"
proof -
  let ?s = "json_object kvs"
  have "settled max_nesting ?s" using settled_object [OF assms] by (simp add: Suc_inner)
  then have "json_Valid ?s" and skip: "skip_ws ?s = ?s"
    using settled_skip [of max_nesting ?s "[]"] by (simp_all add: settled_valid)
  moreover have "object_step (scan_members (length ?s)) max_nesting (tl ?s)
      = Some (map (\<lambda>(k, v). (quote_body k, v)) kvs, [])"
    using object_step_settled [OF assms, of "length ?s" "[]"] by (simp add: Suc_inner)
  ultimately show ?thesis
    using json_object_Cons [of kvs]
    by (simp add: json_members_def) (auto simp: unquote_quote split: list.splits)
qed

theorem json_elems_array:
  assumes "\<forall>v \<in> set vs. settled inner_nesting v"
  shows "json_elems (json_array vs) = Some vs"
proof -
  let ?s = "json_array vs"
  have "settled max_nesting ?s" using settled_array [OF assms] by (simp add: Suc_inner)
  then have "json_Valid ?s" and skip: "skip_ws ?s = ?s"
    using settled_skip [of max_nesting ?s "[]"] by (simp_all add: settled_valid)
  moreover have "array_step (scan_elems (length ?s)) max_nesting (tl ?s) = Some (vs, [])"
    using array_step_settled [OF assms, of "length ?s" "[]"] by (simp add: Suc_inner)
  ultimately show ?thesis
    using json_array_Cons [of vs] by (simp add: json_elems_def) (auto split: list.splits)
qed

lemma dec_string_quote: "dec_string old (json_quote s) = Some (to_valid s)"
  using json_quote_scan [of s "[]"]
  by (simp add: dec_string_def json_quote_def json_null_def scan_str_quote unquote_quote)

section \<open>The fuel is enough\<close>

text \<open>
  A scan that ends at all ends with as much fuel as the text has bytes, so the fuel of
  \<open>json_Valid\<close>, \<open>json_members\<close> and \<open>json_elems\<close> never turns a well-formed text away.
\<close>

lemma skip_ws_le: "length (skip_ws s) \<le> length s"
  by (simp add: skip_ws_def length_dropWhile_le)

lemma skip_ws_eq_le: "skip_ws s = t \<Longrightarrow> length t \<le> length s"
  using skip_ws_le [of s] by simp

lemma scan_str_less: "scan_str s = Some (x, r) \<Longrightarrow> length r < length s"
proof (induction s arbitrary: x rule: scan_str.induct)
  case (2 c cs)
  then show ?case
    by (auto split: if_splits option.splits dest!: escape_split_less) (fastforce dest: escape_split_less)+
qed simp

lemma skip_digits_le: "length (skip_digits s) \<le> length s"
  by (simp add: skip_digits_def length_dropWhile_le)

lemma scan_int_part_less: "scan_int_part s = Some r \<Longrightarrow> length r < length s"
  by (auto simp: scan_int_part_def Let_def le_imp_less_Suc skip_digits_le le_SucI split: list.splits if_splits)

lemma scan_frac_le: "scan_frac s = Some r \<Longrightarrow> length r \<le> length s"
  by (auto simp: scan_frac_def skip_digits_le le_SucI split: list.splits if_splits)

lemma scan_exp_le: "scan_exp s = Some r \<Longrightarrow> length r \<le> length s"
  by (auto simp: scan_exp_def skip_digits_le le_SucI split: list.splits if_splits)

lemma scan_number_less: "scan_number s = Some r \<Longrightarrow> length r < length s"
  by (auto simp: scan_number_def split: option.splits dest!: scan_int_part_less scan_frac_le scan_exp_le)

lemma scan_literal_less: "scan_literal l s = Some r \<Longrightarrow> l \<noteq> [] \<Longrightarrow> length r < length s"
  by (auto simp: scan_literal_def prefix_def split: if_splits)

text \<open>
  A scanner \<open>f n\<close> with fuel is local when it reads something and the fuel it needs is no more than
  what it reads.
\<close>

definition fuel_local :: "(nat \<Rightarrow> string \<Rightarrow> ('a \<times> string) option) \<Rightarrow> nat \<Rightarrow> bool" where
  "fuel_local f n \<longleftrightarrow>
     (\<forall>s x r. f n s = Some (x, r) \<longrightarrow>
        length r < length s \<and> (\<forall>m. length s - length r \<le> m \<longrightarrow> f m s = Some (x, r)))"

lemma fuel_localD:
  assumes "fuel_local f n" and "f n s = Some (x, r)"
  shows "length r < length s" and "length s - length r \<le> m \<Longrightarrow> f m s = Some (x, r)"
  using assms unfolding fuel_local_def by blast+

definition value_at :: "nat \<Rightarrow> nat \<Rightarrow> string \<Rightarrow> (unit \<times> string) option" where
  "value_at d n s = map_option (Pair ()) (scan_value n d s)"

definition members_at :: "nat \<Rightarrow> nat \<Rightarrow> string \<Rightarrow> ((string \<times> string) list \<times> string) option" where
  "members_at d n = scan_members n d"

definition elems_at :: "nat \<Rightarrow> nat \<Rightarrow> string \<Rightarrow> (string list \<times> string) option" where
  "elems_at d n = scan_elems n d"

lemma value_atD:
  assumes "fuel_local (value_at d) n" and "scan_value n d s = Some r"
  shows "length r < length s" and "length s - length r \<le> m \<Longrightarrow> scan_value m d s = Some r"
  using fuel_localD [OF assms(1), of s "()" r] assms(2) by (auto simp: value_at_def)

lemma raw_value_fuel:
  assumes loc: "fuel_local (value_at d) n" and raw: "raw_value (scan_value n) d s = Some (x, r)"
  shows "length r < length s" and "length s - length r \<le> m \<Longrightarrow> raw_value (scan_value m) d s = Some (x, r)"
proof -
  obtain r' where r': "scan_value n d s = Some r'" "x = take (length s - length r') s" "r = skip_ws r'"
    using raw by (auto simp: raw_value_def)
  have le: "length r \<le> length r'" using r' skip_ws_le by simp
  then show "length r < length s" using value_atD(1) [OF loc r'(1)] by simp
  assume "length s - length r \<le> m"
  then have "scan_value m d s = Some r'" using le by (intro value_atD(2) [OF loc r'(1)]) simp
  then show "raw_value (scan_value m) d s = Some (x, r)" using r' by (simp add: raw_value_def)
qed

lemma member_step_fuel:
  assumes loc: "fuel_local (value_at d) n" and mem: "member_step (scan_value n) d s = Some (kv, r)"
  shows "length r < length s" and "length s - length r \<le> m \<Longrightarrow> member_step (scan_value m) d s = Some (kv, r)"
proof -
  obtain qs k r1 r2 raw where m: "s = CHR 0x22 # qs" "scan_str qs = Some (k, r1)" "skip_ws r1 = CHR '':'' # r2"
    "raw_value (scan_value n) d (skip_ws r2) = Some (raw, r)" "kv = (k, raw)"
    using mem by (auto simp: member_step_def split: list.splits if_splits option.splits)
  have len: "length (skip_ws r2) < length s"
    using m(1) scan_str_less [OF m(2)] skip_ws_eq_le [OF m(3)] skip_ws_le [of r2] by simp
  then show "length r < length s" using raw_value_fuel(1) [OF loc m(4)] by simp
  assume "length s - length r \<le> m"
  then have "raw_value (scan_value m) d (skip_ws r2) = Some (raw, r)"
    using len by (intro raw_value_fuel(2) [OF loc m(4)]) simp
  then show "member_step (scan_value m) d s = Some (kv, r)" using m by (simp add: member_step_def)
qed

lemma list_step_fuel:
  assumes loc: "fuel_local f n" and ls: "list_step cl (f n) (x, s) = Some (xs, r)"
  shows "length r < length s" and "length s - length r \<le> m \<Longrightarrow> list_step cl (f m) (x, s) = Some (xs, r)"
proof -
  obtain e s1 where s: "s = e # s1" using ls by (cases s) (auto simp: list_step_def)
  have "length r < length s \<and> (length s - length r \<le> m \<longrightarrow> list_step cl (f m) (x, s) = Some (xs, r))"
  proof (cases "e = cl")
    case True
    then show ?thesis using ls s by (auto simp: list_step_def)
  next
    case False
    then obtain ys where ys: "e = CHR '',''" "f n (skip_ws s1) = Some (ys, r)" "xs = x # ys"
      using ls s by (auto simp: list_step_def split: if_splits)
    have "length s - length r \<le> m \<Longrightarrow> f m (skip_ws s1) = Some (ys, r)"
      using s skip_ws_le [of s1] by (intro fuel_localD(2) [OF loc ys(2)]) simp
    then show ?thesis
      using fuel_localD(1) [OF loc ys(2)] skip_ws_le [of s1] False s ys by (auto simp: list_step_def)
  qed
  then show "length r < length s"
    and "length s - length r \<le> m \<Longrightarrow> list_step cl (f m) (x, s) = Some (xs, r)" by blast+
qed

lemma object_step_fuel:
  assumes loc: "fuel_local (members_at (d - 1)) n"
    and ob: "object_step (scan_members n) d s = Some (x, r)"
  shows "length r < length s"
    and "length s - length r \<le> m \<Longrightarrow> object_step (scan_members m) d s = Some (x, r)"
proof -
  obtain c cs where s: "d \<noteq> 0" "skip_ws s = c # cs"
    using ob by (auto simp: object_step_def split: list.splits if_splits)
  have le: "length (c # cs) \<le> length s" using skip_ws_eq_le [OF s(2)] .
  have "length r < length s \<and> (length s - length r \<le> m \<longrightarrow> object_step (scan_members m) d s = Some (x, r))"
  proof (cases "c = CHR 0x7D")
    case True
    then show ?thesis using ob s le by (auto simp: object_step_def)
  next
    case False
    then have "members_at (d - 1) n (c # cs) = Some (x, r)"
      using ob s by (simp add: object_step_def members_at_def)
    from fuel_localD [OF loc this] show ?thesis
      using False s le by (auto simp: object_step_def members_at_def)
  qed
  then show "length r < length s"
    and "length s - length r \<le> m \<Longrightarrow> object_step (scan_members m) d s = Some (x, r)" by blast+
qed

lemma array_step_fuel:
  assumes loc: "fuel_local (elems_at (d - 1)) n"
    and ar: "array_step (scan_elems n) d s = Some (x, r)"
  shows "length r < length s"
    and "length s - length r \<le> m \<Longrightarrow> array_step (scan_elems m) d s = Some (x, r)"
proof -
  obtain c cs where s: "d \<noteq> 0" "skip_ws s = c # cs"
    using ar by (auto simp: array_step_def split: list.splits if_splits)
  have le: "length (c # cs) \<le> length s" using skip_ws_eq_le [OF s(2)] .
  have "length r < length s \<and> (length s - length r \<le> m \<longrightarrow> array_step (scan_elems m) d s = Some (x, r))"
  proof (cases "c = CHR 0x5D")
    case True
    then show ?thesis using ar s le by (auto simp: array_step_def)
  next
    case False
    then have "elems_at (d - 1) n (c # cs) = Some (x, r)"
      using ar s by (simp add: array_step_def elems_at_def)
    from fuel_localD [OF loc this] show ?thesis
      using False s le by (auto simp: array_step_def elems_at_def)
  qed
  then show "length r < length s"
    and "length s - length r \<le> m \<Longrightarrow> array_step (scan_elems m) d s = Some (x, r)" by blast+
qed

lemma value_local:
  assumes "fuel_local (members_at (d - 1)) n" and "fuel_local (elems_at (d - 1)) n"
  shows "fuel_local (value_at d) (Suc n)"
proof -
  have "length r < length s \<and> (length s - length r \<le> m \<longrightarrow> scan_value m d s = Some r)"
    if v: "scan_value (Suc n) d s = Some r" for s r m
  proof -
    obtain c cs where s: "s = c # cs" using v by (cases s) (auto simp: value_step_def)
    consider "c = CHR 0x22" | "c = CHR 0x7B" | "c = CHR 0x5B" | "c \<notin> {CHR 0x22, CHR 0x7B, CHR 0x5B}"
      by blast
    then have "length r < length s \<and>
      (\<forall>k. length s - length r \<le> Suc k \<longrightarrow> scan_value (Suc k) d s = Some r)"
    proof cases
      case 1
      then show ?thesis using v s by (auto simp: value_step_def dest!: scan_str_less)
    next
      case 2
      then obtain x where "object_step (scan_members n) d cs = Some (x, r)"
        using v s by (auto simp: value_step_def)
      from object_step_fuel [OF assms(1) this] show ?thesis using 2 s by (auto simp: value_step_def)
    next
      case 3
      then obtain x where "array_step (scan_elems n) d cs = Some (x, r)"
        using v s by (auto simp: value_step_def)
      from array_step_fuel [OF assms(2) this] show ?thesis using 3 s by (auto simp: value_step_def)
    next
      case 4
      then have "length r < length s"
        using v s by (auto simp: value_step_def split: if_splits dest: scan_literal_less scan_number_less)
      then show ?thesis using v s 4 by (auto simp: value_step_def)
    qed
    then show ?thesis by (cases m) auto
  qed
  then show ?thesis unfolding fuel_local_def value_at_def by auto
qed

lemma members_local:
  assumes "fuel_local (value_at d) n" and "fuel_local (members_at d) n"
  shows "fuel_local (members_at d) (Suc n)"
proof -
  have "length r < length s \<and> (length s - length r \<le> m \<longrightarrow> members_at d m s = Some (x, r))"
    if v: "members_at d (Suc n) s = Some (x, r)" for s x r m
  proof -
    obtain kv r1 where a: "member_step (scan_value n) d s = Some (kv, r1)"
      and b: "list_step CHR 0x7D (members_at d n) (kv, r1) = Some (x, r)"
      using v by (auto simp: members_at_def Option.bind_eq_Some_conv)
    note lens = member_step_fuel(1) [OF assms(1) a] list_step_fuel(1) [OF assms(2) b]
    have "members_at d (Suc k) s = Some (x, r)" if k: "length s - length r \<le> Suc k" for k
      using member_step_fuel(2) [OF assms(1) a, of k] list_step_fuel(2) [OF assms(2) b, of k] lens k
      by (simp add: members_at_def)
    then show ?thesis using lens by (cases m) auto
  qed
  then show ?thesis unfolding fuel_local_def by blast
qed

lemma elems_local:
  assumes "fuel_local (value_at d) n" and "fuel_local (elems_at d) n"
  shows "fuel_local (elems_at d) (Suc n)"
proof -
  have "length r < length s \<and> (length s - length r \<le> m \<longrightarrow> elems_at d m s = Some (x, r))"
    if v: "elems_at d (Suc n) s = Some (x, r)" for s x r m
  proof -
    obtain y r1 where a: "raw_value (scan_value n) d s = Some (y, r1)"
      and b: "list_step CHR 0x5D (elems_at d n) (y, r1) = Some (x, r)"
      using v by (auto simp: elems_at_def Option.bind_eq_Some_conv)
    note lens = raw_value_fuel(1) [OF assms(1) a] list_step_fuel(1) [OF assms(2) b]
    have "elems_at d (Suc k) s = Some (x, r)" if k: "length s - length r \<le> Suc k" for k
      using raw_value_fuel(2) [OF assms(1) a, of k] list_step_fuel(2) [OF assms(2) b, of k] lens k
      by (simp add: elems_at_def)
    then show ?thesis using lens by (cases m) auto
  qed
  then show ?thesis unfolding fuel_local_def by blast
qed

lemma scanners_local:
  "fuel_local (value_at d) n \<and> fuel_local (members_at d) n \<and> fuel_local (elems_at d) n"
proof (induction n arbitrary: d)
  case 0
  show ?case by (simp add: fuel_local_def value_at_def members_at_def elems_at_def)
next
  case (Suc n)
  then show ?case by (simp add: value_local members_local elems_local)
qed

theorem scan_value_enough_fuel:
  "scan_value n d s = Some r \<Longrightarrow> length s \<le> m \<Longrightarrow> scan_value m d s = Some r"
  using value_atD(2) [of d n s r m] scanners_local by (meson diff_le_self order_trans)

lemma key_is_refl: "key_is k k"
  by (simp add: key_is_def)

end
