(* ===== verification/Envelope.thy ===== *)
theory Envelope
  imports Go_Json
begin

text \<open>
  The versioned message envelope of \<open>protocol/envelope.go\<close>: the record and its JSON form, the
  validation rules, construction with a fresh identifier, and the encoder and decoder. The system
  clock (\<open>time.Now().UnixMilli()\<close>) and the random source (\<open>crypto/rand\<close>) are arguments.

  The theorems show that the decoder only lets validated envelopes of bounded size through, that
  encoding a validated envelope always succeeds, and that decoding gives back what was encoded.
\<close>

section \<open>The envelope\<close>

definition Version :: int where
  "Version = 2"

definition MaxEnvelopeSize :: nat where
  "MaxEnvelopeSize = 64 * 1024"

definition MaxBodySize :: nat where
  "MaxBodySize = 48 * 1024"

definition MaxIDLength :: nat where
  "MaxIDLength = 128"

text \<open>Five minutes, in milliseconds.\<close>

definition MaxFutureSkew :: int where
  "MaxFutureSkew = 5 * 60 * 1000"

text \<open>\<open>MessageType\<close> is an open string type with six known values.\<close>

definition TypeChat :: string where "TypeChat = ''chat''"
definition TypeAck :: string where "TypeAck = ''ack''"
definition TypeControl :: string where "TypeControl = ''control''"
definition TypeError :: string where "TypeError = ''error''"
definition TypeTyping :: string where "TypeTyping = ''typing''"
definition TypePresence :: string where "TypePresence = ''presence''"

lemmas message_type_defs =
  TypeChat_def TypeAck_def TypeControl_def TypeError_def TypeTyping_def TypePresence_def

definition Valid :: "string \<Rightarrow> bool" where
  "Valid t \<longleftrightarrow> t \<in> {TypeChat, TypeAck, TypeControl, TypeError, TypeTyping, TypePresence}"

record Envelope =
  eVersion :: int
  eType :: string
  eID :: string
  eConversation :: string
  eSender :: string
  eTimestamp :: int
  eSequence :: u64
  eBody :: bytes

text \<open>The errors of the package, one constructor for each \<open>Errorf\<close>.\<close>

datatype envelope_error =
    NilEnvelope
  | UnsupportedVersion int
  | UnknownType string
  | InvalidID
  | InvalidTimestamp
  | FutureTimestamp
  | LongConversation
  | LongSender
  | ChatWithoutParties
  | ChatWithoutSequence
  | BodyTooLarge
  | BodyNotJson
  | GenerateID
  | MarshalBody
  | MarshalEnvelope
  | EnvelopeTooLarge
  | EmptyEnvelope
  | DecodeEnvelope

section \<open>Validation\<close>

text \<open>\<open>Validate\<close> on a pointer, with the milliseconds the clock shows; \<open>None\<close> is a nil error.\<close>

definition Validate :: "int \<Rightarrow> Envelope option \<Rightarrow> envelope_error option" where
  "Validate now p =
     (case p of
        None \<Rightarrow> Some NilEnvelope
      | Some e \<Rightarrow>
          if eVersion e \<noteq> Version then Some (UnsupportedVersion (eVersion e))
          else if \<not> Valid (eType e) then Some (UnknownType (eType e))
          else if eID e = [] \<or> length (eID e) > MaxIDLength then Some InvalidID
          else if eTimestamp e \<le> 0 then Some InvalidTimestamp
          else if eTimestamp e > now + MaxFutureSkew then Some FutureTimestamp
          else if length (eConversation e) > MaxIDLength then Some LongConversation
          else if length (eSender e) > MaxIDLength then Some LongSender
          else if eType e = TypeChat \<and> (eConversation e = [] \<or> eSender e = []) then Some ChatWithoutParties
          else if eType e = TypeChat \<and> eSequence e = 0 then Some ChatWithoutSequence
          else if length (eBody e) > MaxBodySize then Some BodyTooLarge
          else if length (eBody e) > 0 \<and> \<not> json_Valid (eBody e) then Some BodyNotJson
          else None)"

section \<open>Construction\<close>

text \<open>\<open>NewID\<close>: \<open>raw\<close> is what \<open>rand.Read\<close> filled in, \<open>None\<close> when it failed.\<close>

definition NewID :: "bytes option \<Rightarrow> envelope_error + string" where
  "NewID rnd = (case rnd of None \<Rightarrow> Inl GenerateID | Some raw \<Rightarrow> Inr (raw_url_encode raw))"

text \<open>
  \<open>newEnvelope\<close>: the body is \<open>None\<close> for nil and otherwise what \<open>json.Marshal\<close> gives, \<open>None\<close>
  inside for its error. The clock is read for the timestamp and again by the validation.
\<close>

definition newEnvelope ::
  "bytes option \<Rightarrow> int \<Rightarrow> int \<Rightarrow> string \<Rightarrow> string \<Rightarrow> string \<Rightarrow> u64 \<Rightarrow> bytes option option
    \<Rightarrow> envelope_error + Envelope"
where
  "newEnvelope rnd now now' typ conversation sender sequence body =
     (case NewID rnd of
        Inl err \<Rightarrow> Inl err
      | Inr ident \<Rightarrow>
          (case body of
             Some None \<Rightarrow> Inl MarshalBody
           | _ \<Rightarrow>
             (let raw = (case body of Some (Some encoded) \<Rightarrow> encoded | _ \<Rightarrow> []);
                  envelope = \<lparr>eVersion = Version, eType = typ, eID = ident,
                    eConversation = conversation, eSender = sender, eTimestamp = now,
                    eSequence = sequence, eBody = raw\<rparr>
              in case Validate now' (Some envelope) of
                   Some err \<Rightarrow> Inl err
                 | None \<Rightarrow> Inr envelope)))"

definition New ::
  "bytes option \<Rightarrow> int \<Rightarrow> int \<Rightarrow> string \<Rightarrow> string \<Rightarrow> string \<Rightarrow> bytes option option \<Rightarrow> envelope_error + Envelope"
where
  "New rnd now now' typ conversation sender body =
     newEnvelope rnd now now' typ conversation sender 0 body"

definition NewChat ::
  "bytes option \<Rightarrow> int \<Rightarrow> int \<Rightarrow> string \<Rightarrow> string \<Rightarrow> u64 \<Rightarrow> bytes option option \<Rightarrow> envelope_error + Envelope"
where
  "NewChat rnd now now' conversation sender sequence body =
     newEnvelope rnd now now' TypeChat conversation sender sequence body"

section \<open>Encoding and decoding\<close>

text \<open>
  \<open>json.Marshal\<close> of an envelope: the fields in order under the names of their tags, empty ones
  left out where the tag says so, the raw body compacted.
\<close>

definition omitempty :: "bool \<Rightarrow> string \<Rightarrow> string \<Rightarrow> (string \<times> string) list" where
  "omitempty emp name v = (if emp then [] else [(name, v)])"

definition envelope_members :: "Envelope \<Rightarrow> (string \<times> string) list" where
  "envelope_members e =
     [(''v'', dec_int (eVersion e)), (''t'', json_quote (eType e)), (''id'', json_quote (eID e))]
     @ omitempty (eConversation e = []) ''conv'' (json_quote (eConversation e))
     @ omitempty (eSender e = []) ''from'' (json_quote (eSender e))
     @ [(''ts'', dec_int (eTimestamp e))]
     @ omitempty (eSequence e = 0) ''seq'' (dec_nat (unat (eSequence e)))
     @ omitempty (eBody e = []) ''body'' (compact False (eBody e))"

definition marshal_envelope :: "Envelope \<Rightarrow> bytes option" where
  "marshal_envelope e =
     (if eBody e \<noteq> [] \<and> \<not> json_Valid (eBody e) then None else Some (json_object (envelope_members e)))"

definition Encode :: "int \<Rightarrow> Envelope option \<Rightarrow> envelope_error + bytes" where
  "Encode now p =
     (case Validate now p of
        Some err \<Rightarrow> Inl err
      | None \<Rightarrow>
          (case p of
             None \<Rightarrow> Inl NilEnvelope
           | Some e \<Rightarrow>
               (case marshal_envelope e of
                  None \<Rightarrow> Inl MarshalEnvelope
                | Some data \<Rightarrow> if length data > MaxEnvelopeSize then Inl EnvelopeTooLarge else Inr data)))"

text \<open>\<open>json.Unmarshal\<close> into an envelope: unknown keys are skipped, a later key overwrites.\<close>

definition set_field :: "string \<times> string \<Rightarrow> Envelope \<Rightarrow> Envelope option" where
  "set_field kv e =
     (let k = fst kv; raw = snd kv in
      if key_is ''v'' k then map_option (\<lambda>x. e\<lparr>eVersion := x\<rparr>) (dec_int64 (eVersion e) raw)
      else if key_is ''t'' k then map_option (\<lambda>x. e\<lparr>eType := x\<rparr>) (dec_string (eType e) raw)
      else if key_is ''id'' k then map_option (\<lambda>x. e\<lparr>eID := x\<rparr>) (dec_string (eID e) raw)
      else if key_is ''conv'' k then map_option (\<lambda>x. e\<lparr>eConversation := x\<rparr>) (dec_string (eConversation e) raw)
      else if key_is ''from'' k then map_option (\<lambda>x. e\<lparr>eSender := x\<rparr>) (dec_string (eSender e) raw)
      else if key_is ''ts'' k then map_option (\<lambda>x. e\<lparr>eTimestamp := x\<rparr>) (dec_int64 (eTimestamp e) raw)
      else if key_is ''seq'' k then map_option (\<lambda>x. e\<lparr>eSequence := x\<rparr>) (dec_uint64 (eSequence e) raw)
      else if key_is ''body'' k then Some (e\<lparr>eBody := raw\<rparr>)
      else Some e)"

fun set_fields :: "(string \<times> string) list \<Rightarrow> Envelope \<Rightarrow> Envelope option" where
  "set_fields [] e = Some e"
| "set_fields (kv # kvs) e = (case set_field kv e of None \<Rightarrow> None | Some e' \<Rightarrow> set_fields kvs e')"

definition zero_envelope :: Envelope where
  "zero_envelope = \<lparr>eVersion = 0, eType = [], eID = [], eConversation = [], eSender = [],
     eTimestamp = 0, eSequence = 0, eBody = []\<rparr>"

definition unmarshal_envelope :: "bytes \<Rightarrow> Envelope option" where
  "unmarshal_envelope data = Option.bind (json_members data) (\<lambda>kvs. set_fields kvs zero_envelope)"

definition Decode :: "int \<Rightarrow> bytes \<Rightarrow> envelope_error + Envelope" where
  "Decode now data =
     (if data = [] then Inl EmptyEnvelope
      else if length data > MaxEnvelopeSize then Inl EnvelopeTooLarge
      else (case unmarshal_envelope data of
         None \<Rightarrow> Inl DecodeEnvelope
       | Some envelope \<Rightarrow>
           (case Validate now (Some envelope) of Some err \<Rightarrow> Inl err | None \<Rightarrow> Inr envelope)))"

section \<open>Rules of version 2\<close>

text \<open>The rules of the protocol as one predicate on an envelope.\<close>

definition v2_rules :: "int \<Rightarrow> Envelope \<Rightarrow> bool" where
  "v2_rules now e \<longleftrightarrow>
     eVersion e = 2 \<and> Valid (eType e) \<and>
     1 \<le> length (eID e) \<and> length (eID e) \<le> 128 \<and>
     0 < eTimestamp e \<and> eTimestamp e \<le> now + 300000 \<and>
     length (eConversation e) \<le> 128 \<and> length (eSender e) \<le> 128 \<and>
     (eType e = TypeChat \<longrightarrow> eConversation e \<noteq> [] \<and> eSender e \<noteq> [] \<and> 0 < eSequence e) \<and>
     length (eBody e) \<le> 49152 \<and> (eBody e \<noteq> [] \<longrightarrow> json_Valid (eBody e))"

lemma Validate_None_iff: "Validate now (Some e) = None \<longleftrightarrow> v2_rules now e"
  by (auto simp: Validate_def v2_rules_def Version_def MaxIDLength_def MaxFutureSkew_def MaxBodySize_def
      Suc_le_eq word_neq_0_conv split: if_splits)

section \<open>The wire form\<close>

lemma set_field_known:
  "set_field (''v'', raw) e = map_option (\<lambda>x. e\<lparr>eVersion := x\<rparr>) (dec_int64 (eVersion e) raw)"
  "set_field (''t'', raw) e = map_option (\<lambda>x. e\<lparr>eType := x\<rparr>) (dec_string (eType e) raw)"
  "set_field (''id'', raw) e = map_option (\<lambda>x. e\<lparr>eID := x\<rparr>) (dec_string (eID e) raw)"
  "set_field (''conv'', raw) e = map_option (\<lambda>x. e\<lparr>eConversation := x\<rparr>) (dec_string (eConversation e) raw)"
  "set_field (''from'', raw) e = map_option (\<lambda>x. e\<lparr>eSender := x\<rparr>) (dec_string (eSender e) raw)"
  "set_field (''ts'', raw) e = map_option (\<lambda>x. e\<lparr>eTimestamp := x\<rparr>) (dec_int64 (eTimestamp e) raw)"
  "set_field (''seq'', raw) e = map_option (\<lambda>x. e\<lparr>eSequence := x\<rparr>) (dec_uint64 (eSequence e) raw)"
  "set_field (''body'', raw) e = Some (e\<lparr>eBody := raw\<rparr>)"
  by (simp_all add: set_field_def key_is_def)

text \<open>
  What the wire can carry exactly: text that is valid UTF-8, numbers of 64 bits, and a body in the
  compact form \<open>Marshal\<close> writes.
\<close>

definition wire_exact :: "Envelope \<Rightarrow> bool" where
  "wire_exact e \<longleftrightarrow>
     to_valid (eType e) = eType e \<and> to_valid (eID e) = eID e \<and>
     to_valid (eConversation e) = eConversation e \<and> to_valid (eSender e) = eSender e \<and>
     - (2 ^ 63) \<le> eVersion e \<and> eVersion e < 2 ^ 63 \<and> - (2 ^ 63) \<le> eTimestamp e \<and> eTimestamp e < 2 ^ 63 \<and>
     (eBody e \<noteq> [] \<longrightarrow> settled inner_nesting (eBody e))"

lemma envelope_members_settled:
  "wire_exact e \<Longrightarrow> kv \<in> set (envelope_members e) \<Longrightarrow> settled inner_nesting (snd kv)"
  by (auto simp: envelope_members_def omitempty_def wire_exact_def settled_quote settled_int dec_nat_int
      settled_compact [of inner_nesting] split: if_splits)

lemma envelope_keys_ascii:
  "kv \<in> set (envelope_members e) \<Longrightarrow> to_valid (fst kv) = fst kv"
  by (auto simp: envelope_members_def omitempty_def to_valid_ascii split: if_splits)

lemma members_of_marshal:
  assumes "wire_exact e"
  shows "json_members (json_object (envelope_members e)) = Some (envelope_members e)"
proof -
  have "map (\<lambda>(k, v). (to_valid k, v)) (envelope_members e) = map id (envelope_members e)"
    by (rule map_cong) (auto dest: envelope_keys_ascii)
  then show ?thesis
    using json_members_object [of "envelope_members e"] envelope_members_settled [OF assms] by simp
qed

lemma set_fields_append:
  "set_fields (xs @ ys) e = Option.bind (set_fields xs e) (set_fields ys)"
  by (induction xs arbitrary: e) (auto split: option.splits)

lemma set_fields_members:
  assumes "wire_exact e"
  shows "set_fields (envelope_members e) zero_envelope = Some e"
  using assms
  by (simp add: envelope_members_def omitempty_def set_fields_append set_field_known wire_exact_def
      dec_int64_dec dec_string_quote dec_uint64_dec zero_envelope_def settled_compact [of inner_nesting])

lemma unmarshal_marshal: "wire_exact e \<Longrightarrow> unmarshal_envelope (json_object (envelope_members e)) = Some e"
  by (simp add: unmarshal_envelope_def members_of_marshal set_fields_members)

subsection \<open>Size\<close>

lemma Join_length: "length (Join xs sep) \<le> sum_list (map (\<lambda>x. length x + length sep) xs)"
  by (induction xs sep rule: Join.induct) auto

lemma json_member_length: "length (json_member (k, v)) \<le> 6 * length k + 3 + length v"
  using json_quote_length [of k] by (simp add: json_member_def)

lemma omitempty_sum:
  "sum_list (map f (omitempty b n v)) \<le> (f (n, v) :: nat)"
  by (simp add: omitempty_def)

lemma dec_int_length_64: "0 \<le> i \<Longrightarrow> i < 2 ^ 63 \<Longrightarrow> length (dec_int i) \<le> 19"
  using dec_nat_length [of "nat i" 19] by (simp add: dec_int_def nat_less_iff)

lemma dec_u64_length: "length (dec_nat (unat (w :: u64))) \<le> 20"
  using dec_nat_length [of "unat w" 20] unsigned_less [of w, where 'a = nat] by simp

lemma type_length: "Valid t \<Longrightarrow> length t \<le> 8"
  by (auto simp: Valid_def message_type_defs)

lemma member_bound: "length (json_member (k, v)) + 1 \<le> 6 * length k + 4 + length v"
  using json_member_length [of k v] by simp

lemma envelope_size:
  assumes rules: "v2_rules now e" and exact: "wire_exact e"
  shows "length (json_object (envelope_members e)) \<le> MaxEnvelopeSize"
proof -
  let ?f = "\<lambda>kv. length (json_member kv) + 1"
  have v: "?f (''v'', dec_int (eVersion e)) \<le> 30"
    using member_bound [of "''v''" "dec_int (eVersion e)"] dec_int_length_64 [of "eVersion e"] rules
    by (simp add: v2_rules_def)
  have ty: "?f (''t'', json_quote (eType e)) \<le> 60"
    using member_bound [of "''t''" "json_quote (eType e)"] json_quote_length [of "eType e"]
      type_length [of "eType e"] rules by (simp add: v2_rules_def)
  have ids: "?f (k, json_quote x) \<le> 798" if "length x \<le> 128" "length k \<le> 4" for k x
    using member_bound [of k "json_quote x"] json_quote_length [of x] that by simp
  have ts: "?f (''ts'', dec_int (eTimestamp e)) \<le> 35"
    using member_bound [of "''ts''" "dec_int (eTimestamp e)"] dec_int_length_64 [of "eTimestamp e"] rules exact
    by (simp add: v2_rules_def wire_exact_def)
  have sq: "?f (''seq'', dec_nat (unat (eSequence e))) \<le> 42"
    using member_bound [of "''seq''" "dec_nat (unat (eSequence e))"] dec_u64_length [of "eSequence e"] by simp
  have body: "?f (''body'', compact False (eBody e)) \<le> 49180"
    using member_bound [of "''body''" "compact False (eBody e)"] settled_compact [of inner_nesting "eBody e"] rules exact
    by (cases "eBody e = []") (auto simp: v2_rules_def wire_exact_def)
  have "length (json_object (envelope_members e)) \<le> 2 + sum_list (map ?f (envelope_members e))"
    using Join_length [of "map json_member (envelope_members e)" "'',''"] by (simp add: json_object_def comp_def)
  also have "\<dots> \<le> 2 + (30 + (60 + (798 + (798 + (798 + (35 + (42 + 49180)))))))"
    using v ty ts sq body ids [of "eID e" "''id''"] ids [of "eConversation e" "''conv''"] ids [of "eSender e" "''from''"] rules
      omitempty_sum [of ?f "eConversation e = []" "''conv''" "json_quote (eConversation e)"]
      omitempty_sum [of ?f "eSender e = []" "''from''" "json_quote (eSender e)"]
      omitempty_sum [of ?f "eSequence e = 0" "''seq''" "dec_nat (unat (eSequence e))"]
      omitempty_sum [of ?f "eBody e = []" "''body''" "compact False (eBody e)"]
    by (simp add: envelope_members_def v2_rules_def del: map_map)
  also have "\<dots> \<le> MaxEnvelopeSize" by (simp add: MaxEnvelopeSize_def)
  finally show ?thesis .
qed

lemma Encode_exact:
  assumes "v2_rules now e" and "wire_exact e"
  shows "Encode now (Some e) = Inr (json_object (envelope_members e))"
  using assms envelope_size [OF assms] Validate_None_iff [of now e]
  by (auto simp: Encode_def marshal_envelope_def v2_rules_def)

lemma Decode_exact:
  assumes "v2_rules now e" and "wire_exact e"
  shows "Decode now (json_object (envelope_members e)) = Inr e"
  using assms envelope_size [OF assms] Validate_None_iff [of now e] unmarshal_marshal [OF assms(2)]
  by (simp add: Decode_def) (simp add: json_object_def)

lemma v2_rules_later: "v2_rules now e \<Longrightarrow> now \<le> now' \<Longrightarrow> v2_rules now' e"
  by (simp add: v2_rules_def)

section \<open>Properties\<close>

text \<open>
  C36. What the decoder lets through: for any bytes whatsoever, \<open>Decode\<close> returns an envelope only
  if the bytes are not empty and at most 64 KiB, and then the envelope satisfies all the rules of
  version 2; an envelope that breaks a rule is refused by \<open>Encode\<close> as well, and bytes that
  \<open>Encode\<close> returns are within the size limit.
\<close>

theorem decode_only_valid:
  "(\<forall>e. Decode now data = Inr e \<longrightarrow>
      data \<noteq> [] \<and> length data \<le> MaxEnvelopeSize \<and> unmarshal_envelope data = Some e \<and> v2_rules now e) \<and>
   (\<forall>e out. Encode now (Some e) = Inr out \<longrightarrow> v2_rules now e \<and> length out \<le> MaxEnvelopeSize)"
  using Validate_None_iff
  by (auto simp: Decode_def Encode_def split: if_splits option.splits)

definition demo_envelope :: Envelope where
  "demo_envelope = \<lparr>eVersion = 2, eType = ''chat'', eID = ''id1'', eConversation = ''ab'',
     eSender = ''a'', eTimestamp = 1000, eSequence = 1, eBody = json_object [(''text'', json_quote ''hi'')]\<rparr>"

text \<open>
  C35. Round trip over the wire: an envelope that satisfies the rules, with identifiers in valid
  UTF-8 and a body as \<open>json.Marshal\<close> writes it, is always encoded (the size limit of 64 KiB cannot
  be hit once the body is within its own limit), and a receiver whose clock is not behind the
  sender's decodes exactly the same envelope.
\<close>

theorem encode_decode_roundtrip:
  assumes "v2_rules now e" and "wire_exact e" and "now \<le> now'"
  shows "\<exists>data. Encode now (Some e) = Inr data \<and> Decode now' data = Inr e"
  using Encode_exact [OF assms(1,2)] Decode_exact [OF v2_rules_later [OF assms(1,3)] assms(2)] by blast

lemma demo_envelope_rules: "v2_rules 1000 demo_envelope" and demo_envelope_exact: "wire_exact demo_envelope"
proof -
  have s: "settled (Suc d) (json_object [(''text'', json_quote ''hi'')])" for d
    by (rule settled_object) (simp add: settled_quote)
  have b: "length (json_object [(''text'', json_quote ''hi'')]) \<le> 49152"
    using json_quote_length [of "''hi''"] json_member_length [of "''text''" "json_quote ''hi''"]
    by (simp add: json_object_def)
  show "v2_rules 1000 demo_envelope"
    using settled_valid [of "eBody demo_envelope"] s [of inner_nesting] b
    by (simp add: v2_rules_def demo_envelope_def Valid_def TypeChat_def Suc_inner)
  show "wire_exact demo_envelope"
    using s [of "inner_nesting - 1"]
    by (simp add: wire_exact_def demo_envelope_def to_valid_ascii inner_nesting_def max_nesting_def)
qed

theorem decode_only_valid_witness:
  "v2_rules 1000 demo_envelope \<and> length (json_object (envelope_members demo_envelope)) \<le> 64 * 1024"
  using decode_only_valid [of 1000 "json_object (envelope_members demo_envelope)"]
    Decode_exact [OF demo_envelope_rules demo_envelope_exact] by (simp add: MaxEnvelopeSize_def)

theorem encode_decode_roundtrip_witness:
  "\<exists>data. Encode 1000 (Some demo_envelope) = Inr data \<and> Decode 2000 data = Inr demo_envelope"
  by (rule encode_decode_roundtrip [OF demo_envelope_rules demo_envelope_exact]) simp

text \<open>
  Construction: \<open>New\<close> never builds a chat envelope, since it passes sequence number 0, so
  chat messages have to go through \<open>NewChat\<close>, which refuses number 0 in the same way.
\<close>

theorem new_refuses_chat:
  "(\<exists>err. New rnd now now' TypeChat conversation sender body = Inl err) \<and>
   (\<exists>err. NewChat rnd now now' conversation sender 0 body = Inl err)"
  by (auto simp: New_def NewChat_def newEnvelope_def Let_def Validate_None_iff v2_rules_def
      split: sum.splits option.splits)

end
