(* ===== verification/E2ee.thy ===== *)
theory E2ee
  imports Base64
begin

text \<open>
  The session layer of security/e2ee.go: one \<open>Session\<close> per peer connection, packets sealed with
  an increasing counter in the nonce, and the 64-packet sliding replay window of the receiver.

  ChaCha20-Poly1305 is code outside the repository: it is the parameter \<open>aead_lib\<close>, the sealing
  and opening functions of a key. What the session layer relies on is that opening undoes sealing
  (\<open>aead_correct\<close>); every safety property below holds for any such functions.

  Errors are the values \<open>Inl msg\<close> with the message of the Go error. The mutexes and the atomic
  counter make each call one step, so a call is a function from the session to the new session.
\<close>

unbundle bit_operations_syntax

type_synonym 'a result = "string + 'a"

section \<open>The session\<close>

record aead_lib =
  Seal :: "bytes \<Rightarrow> bytes \<Rightarrow> bytes \<Rightarrow> bytes"          \<comment> \<open>key, nonce, plaintext\<close>
  Open :: "bytes \<Rightarrow> bytes \<Rightarrow> bytes \<Rightarrow> bytes option"   \<comment> \<open>key, nonce, ciphertext\<close>

definition aead_correct :: "aead_lib \<Rightarrow> bool" where
  "aead_correct A \<longleftrightarrow> (\<forall>k n p. Open A k n (Seal A k n p) = Some p)"

definition nonceSize :: nat where
  "nonceSize = 12"

definition keySize :: nat where
  "keySize = 32"

definition directionLowToHigh :: char where
  "directionLowToHigh = CHR 0x01"

definition directionHighToLow :: char where
  "directionHighToLow = CHR 0x02"

definition replayWindowBits :: u64 where
  "replayWindowBits = 64"

definition ErrReplay :: string where
  "ErrReplay = ''replay attack detected: nonce already used''"

definition ErrWrongDirection :: string where
  "ErrWrongDirection = ''packet direction does not match session''"

text \<open>An AEAD is known by its key; \<open>None\<close> is a nil interface.\<close>

record session =
  sendAEAD :: "bytes option"
  recvAEAD :: "bytes option"
  sendDir :: char
  recvDir :: char
  sendCtr :: u64
  recvMax :: u64
  recvWindow :: u64

definition new_session :: session where
  "new_session = \<lparr>sendAEAD = None, recvAEAD = None, sendDir = CHR 0x00, recvDir = CHR 0x00,
     sendCtr = 0, recvMax = 0, recvWindow = 0\<rparr>"

section \<open>Operations\<close>

definition acceptCounter :: "session \<Rightarrow> u64 \<Rightarrow> session \<times> bool" where
  "acceptCounter s ctr =
     (if recvMax s < ctr then
        let shift = ctr - recvMax s;
            window = (if replayWindowBits \<le> shift then 0
                      else push_bit (unat shift) (recvWindow s))
        in (s\<lparr>recvWindow := window OR 1, recvMax := ctr\<rparr>, True)
      else
        let diff = recvMax s - ctr in
        if replayWindowBits \<le> diff then (s, False)
        else
          let mask = push_bit (unat diff) 1 in
          if recvWindow s AND mask \<noteq> 0 then (s, False)
          else (s\<lparr>recvWindow := recvWindow s OR mask\<rparr>, True))"

text \<open>
  The nonce: \<open>make([]byte, 12)\<close> with the direction in its first byte and the counter, little
  endian, in its last eight.
\<close>

definition packet_nonce :: "char \<Rightarrow> u64 \<Rightarrow> bytes" where
  "packet_nonce dir ctr = dir # replicate 3 (CHR 0x00) @ le_put 8 ctr"

definition Encrypt :: "aead_lib \<Rightarrow> session \<Rightarrow> bytes \<Rightarrow> session \<times> string result" where
  "Encrypt A s plain =
     (case sendAEAD s of
        None \<Rightarrow> (s, Inl ''session is not initialized'')
      | Some key \<Rightarrow>
          let ctr = sendCtr s + 1;
              nonce = packet_nonce (sendDir s) ctr;
              ct = Seal A key nonce plain
          in (s\<lparr>sendCtr := ctr\<rparr>, Inr (std_encode nonce @ ''.'' @ std_encode ct)))"

definition Decrypt :: "aead_lib \<Rightarrow> session \<Rightarrow> string \<Rightarrow> session \<times> bytes result" where
  "Decrypt A s packet =
     (case recvAEAD s of
        None \<Rightarrow> (s, Inl ''session is not initialized'')
      | Some key \<Rightarrow>
          (case split_char (CHR ''.'') packet of
             [part0, part1] \<Rightarrow>
               (case std_decode part0 of
                  None \<Rightarrow> (s, Inl ''invalid nonce'')
                | Some nonce \<Rightarrow>
                    if length nonce \<noteq> nonceSize then (s, Inl ''invalid nonce'')
                    else if nonce ! 0 \<noteq> recvDir s then (s, Inl ErrWrongDirection)
                    else (case std_decode part1 of
                       None \<Rightarrow> (s, Inl ''invalid ciphertext'')
                     | Some ct \<Rightarrow>
                         (case Open A key nonce ct of
                            None \<Rightarrow> (s, Inl ''decrypt/auth failed'')
                          | Some plain \<Rightarrow>
                              let ctr = le_get (drop 4 nonce);
                                  (s', ok) = acceptCounter s ctr
                              in if \<not> ok then (s', Inl ErrReplay) else (s', Inr plain))))
           | _ \<Rightarrow> (s, Inl ''invalid packet format'')))"

text \<open>A reader that receives packets one after the other: the plaintexts it accepts.\<close>

fun decrypt_all :: "aead_lib \<Rightarrow> session \<Rightarrow> string list \<Rightarrow> session \<times> bytes list" where
  "decrypt_all A s [] = (s, [])"
| "decrypt_all A s (p # ps) =
     (let (s', r) = Decrypt A s p; (s'', out) = decrypt_all A s' ps
      in (s'', case r of Inl _ \<Rightarrow> out | Inr plain \<Rightarrow> plain # out))"

text \<open>A writer that encrypts messages one after the other: the packets it makes.\<close>

fun encrypt_all :: "aead_lib \<Rightarrow> session \<Rightarrow> bytes list \<Rightarrow> session \<times> string list" where
  "encrypt_all A s [] = (s, [])"
| "encrypt_all A s (m # ms) =
     (let (s', r) = Encrypt A s m; (s'', out) = encrypt_all A s' ms
      in (s'', case r of Inl _ \<Rightarrow> out | Inr packet \<Rightarrow> packet # out))"

section \<open>The replay window\<close>

text \<open>
  The interface of a replay filter: a counter is accepted exactly when it is not blocked, a
  rejection changes nothing, an accepted counter is blocked from then on and nothing ever
  becomes unblocked. A client sees every counter accepted at most once.
\<close>

fun run_filter :: "('s \<Rightarrow> 'c \<Rightarrow> 's \<times> bool) \<Rightarrow> 's \<Rightarrow> 'c list \<Rightarrow> 's \<times> 'c list" where
  "run_filter f s [] = (s, [])"
| "run_filter f s (c # cs) =
     (let (s', ok) = f s c; (s'', acc) = run_filter f s' cs in (s'', if ok then c # acc else acc))"

locale replay_filter =
  fixes accept :: "'s \<Rightarrow> 'c \<Rightarrow> 's \<times> bool"
    and blocked :: "'s \<Rightarrow> 'c \<Rightarrow> bool"
  assumes accept_iff: "snd (accept s c) \<longleftrightarrow> \<not> blocked s c"
    and reject_same: "\<not> snd (accept s c) \<Longrightarrow> fst (accept s c) = s"
    and accept_blocks: "snd (accept s c) \<Longrightarrow> blocked (fst (accept s c)) c"
    and blocked_mono: "blocked s d \<Longrightarrow> blocked (fst (accept s c)) d"
begin

lemma run_accepts_unblocked: "c \<in> set (snd (run_filter accept s cs)) \<Longrightarrow> \<not> blocked s c"
proof (induction cs arbitrary: s)
  case (Cons d cs)
  then show ?case
    using accept_iff [of s d] blocked_mono [of s _ d]
    by (auto simp: split_def Let_def split: if_splits)
qed simp

lemma run_accepts_once: "distinct (snd (run_filter accept s cs))"
proof (induction cs arbitrary: s)
  case (Cons d cs)
  have "snd (accept s d) \<Longrightarrow> d \<notin> set (snd (run_filter accept (fst (accept s d)) cs))"
    using run_accepts_unblocked accept_blocks by blast
  with Cons show ?case by (simp add: split_def Let_def)
qed simp

lemma accept_twice:
  assumes "snd (accept s c)"
  shows "\<not> snd (accept (fst (run_filter accept (fst (accept s c)) cs)) c)"
proof -
  have "blocked s' c \<Longrightarrow> blocked (fst (run_filter accept s' cs)) c" for s'
    by (induction cs arbitrary: s') (auto simp: split_def Let_def blocked_mono)
  then show ?thesis using assms accept_blocks by (simp add: accept_iff)
qed

end

definition window_blocked :: "session \<Rightarrow> u64 \<Rightarrow> bool" where
  "window_blocked s c \<longleftrightarrow>
     c \<le> recvMax s \<and> (64 \<le> recvMax s - c \<or> bit (recvWindow s) (unat (recvMax s - c)))"

lemma unat_diff_le: "(c :: u64) \<le> m \<Longrightarrow> unat (m - c) = unat m - unat c"
  by (simp add: unat_sub)

lemma window_blocked_nat:
  "window_blocked s c \<longleftrightarrow>
     unat c \<le> unat (recvMax s) \<and>
     (64 \<le> unat (recvMax s) - unat c \<or> bit (recvWindow s) (unat (recvMax s) - unat c))"
  by (auto simp: window_blocked_def word_le_nat_alt unat_diff_le)

text \<open>What a call does, with the counters read as numbers.\<close>

lemma acceptCounter_jump:
  assumes "unat (recvMax s) < unat c"
  shows "snd (acceptCounter s c)"
    and "recvMax (fst (acceptCounter s c)) = c"
    and "i < 64 \<Longrightarrow> bit (recvWindow (fst (acceptCounter s c))) i \<longleftrightarrow>
           i = 0 \<or> unat c - unat (recvMax s) \<le> i
             \<and> bit (recvWindow s) (i - (unat c - unat (recvMax s)))"
proof -
  have lt: "recvMax s < c" using assms by (simp add: word_less_nat_alt)
  then have d: "unat (c - recvMax s) = unat c - unat (recvMax s)"
    by (simp add: unat_diff_le)
  show "snd (acceptCounter s c)" "recvMax (fst (acceptCounter s c)) = c"
    using lt by (simp_all add: acceptCounter_def Let_def)
  show "i < 64 \<Longrightarrow> bit (recvWindow (fst (acceptCounter s c))) i \<longleftrightarrow>
           i = 0 \<or> unat c - unat (recvMax s) \<le> i
             \<and> bit (recvWindow s) (i - (unat c - unat (recvMax s)))"
    using lt d
    by (auto simp: acceptCounter_def Let_def replayWindowBits_def bit_simps word_le_nat_alt)
qed

lemma acceptCounter_back:
  assumes "unat c \<le> unat (recvMax s)"
  defines "d \<equiv> unat (recvMax s) - unat c"
  shows "snd (acceptCounter s c) \<longleftrightarrow> d < 64 \<and> \<not> bit (recvWindow s) d"
    and "recvMax (fst (acceptCounter s c)) = recvMax s"
    and "snd (acceptCounter s c) \<Longrightarrow>
           bit (recvWindow (fst (acceptCounter s c))) i \<longleftrightarrow> bit (recvWindow s) i \<or> i = d"
proof -
  have le: "\<not> recvMax s < c" "c \<le> recvMax s" using assms(1) by (simp_all add: word_less_nat_alt word_le_nat_alt)
  then have d: "unat (recvMax s - c) = d"
    by (simp add: d_def unat_diff_le)
  then have w: "replayWindowBits \<le> recvMax s - c \<longleftrightarrow> \<not> d < 64"
    by (simp add: replayWindowBits_def word_le_nat_alt not_less)
  show "snd (acceptCounter s c) \<longleftrightarrow> d < 64 \<and> \<not> bit (recvWindow s) d"
    "recvMax (fst (acceptCounter s c)) = recvMax s"
    using le d w by (auto simp: acceptCounter_def Let_def and_exp_eq_0_iff_not_bit)
  show "snd (acceptCounter s c) \<Longrightarrow>
           bit (recvWindow (fst (acceptCounter s c))) i \<longleftrightarrow> bit (recvWindow s) i \<or> i = d"
    using le d w by (auto simp: acceptCounter_def Let_def bit_simps split: if_splits)
qed

lemma acceptCounter_reject: "\<not> snd (acceptCounter s c) \<Longrightarrow> fst (acceptCounter s c) = s"
  by (auto simp: acceptCounter_def Let_def split: if_splits)

lemma acceptCounter_other_fields:
  "sendAEAD (fst (acceptCounter s c)) = sendAEAD s" "recvAEAD (fst (acceptCounter s c)) = recvAEAD s"
  "sendDir (fst (acceptCounter s c)) = sendDir s" "recvDir (fst (acceptCounter s c)) = recvDir s"
  "sendCtr (fst (acceptCounter s c)) = sendCtr s"
  by (auto simp: acceptCounter_def Let_def)

interpretation rw: replay_filter acceptCounter window_blocked
proof
  fix s :: session and c d :: u64
  show "snd (acceptCounter s c) \<longleftrightarrow> \<not> window_blocked s c"
    using acceptCounter_jump(1) [of s c] acceptCounter_back(1) [of c s]
    by (cases "unat c \<le> unat (recvMax s)") (auto simp: window_blocked_nat)
  show "window_blocked (fst (acceptCounter s c)) c" if "snd (acceptCounter s c)"
    using that acceptCounter_jump(2,3) [of s c] acceptCounter_back(2,3) [of c s]
    by (cases "unat c \<le> unat (recvMax s)") (auto simp: window_blocked_nat)
  show "window_blocked (fst (acceptCounter s c)) d" if b: "window_blocked s d"
  proof (cases "unat c \<le> unat (recvMax s)")
    case True
    then show ?thesis
      using b acceptCounter_back(2,3) [OF True] acceptCounter_reject [of s c]
      by (cases "snd (acceptCounter s c)") (auto simp: window_blocked_nat)
  next
    case False
    then have j: "unat (recvMax s) < unat c" by simp
    let ?m = "unat (recvMax s)"
    have "unat c - unat d - (unat c - ?m) = ?m - unat d"
      using b j by (auto simp: window_blocked_nat)
    then show ?thesis
      using b j acceptCounter_jump(2) [OF j] acceptCounter_jump(3) [OF j, of "unat c - unat d"]
      by (cases "unat c - unat d < 64") (auto simp: window_blocked_nat)
  qed
qed (rule acceptCounter_reject)

subsection \<open>The specification the window implements\<close>

text \<open>
  What the window promises, over the set of all counters accepted so far: a counter is refused
  when it was accepted before or lies 64 or more behind the highest one.
\<close>

definition window_spec :: "nat set \<Rightarrow> nat \<Rightarrow> nat set \<times> bool" where
  "window_spec S c =
     (if c \<in> S \<or> c + 64 \<le> Max (insert 0 S) then (S, False) else (insert c S, True))"

definition window_rel :: "nat set \<Rightarrow> session \<Rightarrow> bool" where
  "window_rel S s \<longleftrightarrow>
     finite S \<and> unat (recvMax s) = Max (insert 0 S) \<and>
     (\<forall>i < 64. i \<le> unat (recvMax s) \<longrightarrow> bit (recvWindow s) i = (unat (recvMax s) - i \<in> S))"

lemma window_rel_init: "recvMax s = 0 \<Longrightarrow> recvWindow s = 0 \<Longrightarrow> window_rel {} s"
  by (simp add: window_rel_def)

lemma window_rel_le_max: "window_rel S s \<Longrightarrow> x \<in> S \<Longrightarrow> x \<le> unat (recvMax s)"
  by (simp add: window_rel_def)

lemma window_rel_bit:
  "window_rel S s \<Longrightarrow> i < 64 \<Longrightarrow> i \<le> unat (recvMax s) \<Longrightarrow>
     bit (recvWindow s) i \<longleftrightarrow> unat (recvMax s) - i \<in> S"
  by (simp add: window_rel_def)

lemma window_rel_jump:
  assumes r: "window_rel S s" and j: "unat (recvMax s) < unat c"
  shows "window_rel (insert (unat c) S) (fst (acceptCounter s c))"
proof -
  let ?m = "unat (recvMax s)" and ?c = "unat c"
  have bits: "bit (recvWindow (fst (acceptCounter s c))) i \<longleftrightarrow> ?c - i \<in> insert ?c S"
    if i: "i < 64" "i \<le> ?c" for i
  proof (cases "?c - ?m \<le> i")
    case True
    then have "i - (?c - ?m) < 64" "i - (?c - ?m) \<le> ?m" "?m - (i - (?c - ?m)) = ?c - i"
      using i j by auto
    then have "bit (recvWindow s) (i - (?c - ?m)) \<longleftrightarrow> ?c - i \<in> S"
      using window_rel_bit [OF r, of "i - (?c - ?m)"] by simp
    then show ?thesis using True i acceptCounter_jump(3) [OF j, of i] j by auto
  next
    case False
    then have "?c - i \<notin> S" using window_rel_le_max [OF r, of "?c - i"] by auto
    then show ?thesis using False i acceptCounter_jump(3) [OF j, of i] by auto
  qed
  have "Max (insert 0 (insert ?c S)) = ?c"
  proof (rule Max_eqI)
    show "finite (insert 0 (insert ?c S))" using r by (simp add: window_rel_def)
    show "y \<le> ?c" if "y \<in> insert 0 (insert ?c S)" for y
      using that window_rel_le_max [OF r, of y] j by auto
  qed simp
  then show ?thesis
    using r bits by (simp add: window_rel_def acceptCounter_jump(2) [OF j])
qed

lemma window_rel_back:
  assumes r: "window_rel S s" and b: "unat c \<le> unat (recvMax s)" and ok: "snd (acceptCounter s c)"
  shows "window_rel (insert (unat c) S) (fst (acceptCounter s c))"
proof -
  let ?m = "unat (recvMax s)" and ?c = "unat c"
  have "Max (insert 0 (insert ?c S)) = ?m"
  proof -
    have "Max (insert ?c (insert 0 S)) = max ?c (Max (insert 0 S))"
      using r by (intro Max_insert) (auto simp: window_rel_def)
    then show ?thesis using r b by (simp add: window_rel_def insert_commute)
  qed
  moreover have "bit (recvWindow (fst (acceptCounter s c))) i \<longleftrightarrow> ?m - i \<in> insert ?c S"
    if "i < 64" "i \<le> ?m" for i
    using r that acceptCounter_back(3) [OF b ok, of i] b by (auto simp: window_rel_def)
  ultimately show ?thesis
    using r by (simp add: window_rel_def acceptCounter_back(2) [OF b])
qed

lemma window_spec_iff:
  assumes r: "window_rel S s"
  shows "snd (acceptCounter s c) \<longleftrightarrow> snd (window_spec S (unat c))"
proof (cases "unat c \<le> unat (recvMax s)")
  case True
  then have "unat (recvMax s) - unat c < 64 \<Longrightarrow>
      bit (recvWindow s) (unat (recvMax s) - unat c) = (unat c \<in> S)"
    using r by (auto simp: window_rel_def)
  then show ?thesis
    using r acceptCounter_back(1) [OF True] True by (auto simp: window_spec_def window_rel_def)
next
  case False
  then have "unat c \<notin> S" "\<not> unat c + 64 \<le> Max (insert 0 S)"
    using r window_rel_le_max [OF r, of "unat c"] by (auto simp: window_rel_def)
  then show ?thesis
    using False acceptCounter_jump(1) [of s c] by (simp add: window_spec_def)
qed

lemma window_spec_step:
  assumes r: "window_rel S s"
  shows "window_rel (fst (window_spec S (unat c))) (fst (acceptCounter s c))"
proof (cases "snd (acceptCounter s c)")
  case True
  then have "fst (window_spec S (unat c)) = insert (unat c) S"
    using window_spec_iff [OF r, of c] by (auto simp: window_spec_def split: if_splits)
  then show ?thesis
    using window_rel_jump [OF r] window_rel_back [OF r _ True] by (metis not_le)
next
  case False
  then have "fst (window_spec S (unat c)) = S"
    using window_spec_iff [OF r, of c] by (auto simp: window_spec_def split: if_splits)
  then show ?thesis using r acceptCounter_reject [OF False] by simp
qed

lemma window_spec_run:
  assumes "window_rel S s"
  shows "map unat (snd (run_filter acceptCounter s cs)) = snd (run_filter window_spec S (map unat cs))"
  using assms
proof (induction cs arbitrary: S s)
  case (Cons c cs)
  then show ?case
    using window_spec_step [of S s c] window_spec_iff [of S s c]
    by (simp add: split_def Let_def)
qed simp

section \<open>Packets\<close>

lemma packet_nonce_length [simp]: "length (packet_nonce d c) = nonceSize"
  by (simp add: packet_nonce_def nonceSize_def)

lemma packet_nonce_parts [simp]:
  "packet_nonce d c ! 0 = d" "le_get (drop 4 (packet_nonce d c)) = c"
  by (simp_all add: packet_nonce_def le_get_put_64 drop_Cons')

lemma packet_nonce_inj: "packet_nonce d c = packet_nonce d' c' \<Longrightarrow> d = d' \<and> c = c'"
  by (metis packet_nonce_parts)

lemma packet_split:
  "split_char (CHR ''.'') (std_encode n @ ''.'' @ std_encode ct) = [std_encode n, std_encode ct]"
  by (simp add: split_char_append split_char_none std_encode_no_dot)

text \<open>A failed decryption leaves the session as it was: a forged packet burns no counter.\<close>

lemma Decrypt_error_same: "snd (Decrypt A s p) = Inl e \<Longrightarrow> fst (Decrypt A s p) = s"
  using acceptCounter_reject
  by (auto simp: Decrypt_def Let_def split_def split: option.splits list.splits if_splits)

text \<open>The counter a packet carries, whoever made it.\<close>

definition packet_counter :: "string \<Rightarrow> u64 option" where
  "packet_counter p =
     (case split_char (CHR ''.'') p of
        [part0, _] \<Rightarrow> map_option (\<lambda>nonce. le_get (drop 4 nonce)) (std_decode part0)
      | _ \<Rightarrow> None)"

lemma Decrypt_Inr_parts:
  assumes "snd (Decrypt A s p) = Inr m"
  obtains key part0 part1 nonce ct where
    "recvAEAD s = Some key" "split_char (CHR ''.'') p = [part0, part1]" "std_decode part0 = Some nonce"
    "length nonce = nonceSize" "nonce ! 0 = recvDir s" "std_decode part1 = Some ct"
    "Open A key nonce ct = Some m" "snd (acceptCounter s (le_get (drop 4 nonce)))"
    "fst (Decrypt A s p) = fst (acceptCounter s (le_get (drop 4 nonce)))"
  using assms unfolding Decrypt_def Let_def split_def
  by (clarsimp split: option.split_asm list.split_asm if_split_asm)

lemma Decrypt_accepts:
  assumes "snd (Decrypt A s p) = Inr m"
  obtains c where "packet_counter p = Some c" "snd (acceptCounter s c)"
    "fst (Decrypt A s p) = fst (acceptCounter s c)"
proof -
  from Decrypt_Inr_parts [OF assms] obtain part0 part1 nonce where
    "split_char (CHR ''.'') p = [part0, part1]" "std_decode part0 = Some nonce"
    and c: "snd (acceptCounter s (le_get (drop 4 nonce)))"
      "fst (Decrypt A s p) = fst (acceptCounter s (le_get (drop 4 nonce)))" .
  then have "packet_counter p = Some (le_get (drop 4 nonce))" by (simp add: packet_counter_def)
  then show thesis using c by (rule that)
qed

text \<open>The packets of a sequence that are accepted.\<close>

fun accepted_packets :: "aead_lib \<Rightarrow> session \<Rightarrow> string list \<Rightarrow> string list" where
  "accepted_packets A s [] = []"
| "accepted_packets A s (p # ps) =
     (let (s', r) = Decrypt A s p
      in (if isl r then [] else [p]) @ accepted_packets A s' ps)"

lemma accepted_packets_run:
  "\<exists>cs. map packet_counter (accepted_packets A s ps) = map Some (snd (run_filter acceptCounter s cs))"
proof (induction ps arbitrary: s)
  case Nil
  show ?case by (rule exI [of _ "[]"]) simp
next
  case (Cons p ps)
  show ?case
  proof (cases "snd (Decrypt A s p)")
    case (Inl e)
    then show ?thesis using Cons [of s] Decrypt_error_same [OF Inl] by (simp add: split_def)
  next
    case (Inr m)
    obtain c where c: "packet_counter p = Some c" "snd (acceptCounter s c)"
      "fst (Decrypt A s p) = fst (acceptCounter s c)" using Decrypt_accepts [OF Inr] .
    obtain cs where "map packet_counter (accepted_packets A (fst (acceptCounter s c)) ps)
        = map Some (snd (run_filter acceptCounter (fst (acceptCounter s c)) cs))"
      using Cons by blast
    with Inr c show ?thesis
      by (intro exI [of _ "c # cs"]) (simp add: split_def Let_def)
  qed
qed

section \<open>Channels\<close>

text \<open>
  The interface of a channel of two ends with a budget of messages: whatever the sender makes the
  receiver reads back, and the two ends stay in step.
\<close>

locale secure_channel =
  fixes send :: "'s \<Rightarrow> 'm \<Rightarrow> 's \<times> (string + 'p)"
    and recv :: "'r \<Rightarrow> 'p \<Rightarrow> 'r \<times> (string + 'm)"
    and synced :: "nat \<Rightarrow> 's \<Rightarrow> 'r \<Rightarrow> bool"
  assumes transfer: "synced (Suc n) s r \<Longrightarrow>
      \<exists>p. snd (send s m) = Inr p \<and> snd (recv r p) = Inr m
        \<and> synced n (fst (send s m)) (fst (recv r p))"
begin

fun send_all :: "'s \<Rightarrow> 'm list \<Rightarrow> 'p list" where
  "send_all s [] = []"
| "send_all s (m # ms) =
     (case snd (send s m) of Inl _ \<Rightarrow> [] | Inr p \<Rightarrow> [p]) @ send_all (fst (send s m)) ms"

fun recv_all :: "'r \<Rightarrow> 'p list \<Rightarrow> 'm list" where
  "recv_all r [] = []"
| "recv_all r (p # ps) =
     (case snd (recv r p) of Inl _ \<Rightarrow> [] | Inr m \<Rightarrow> [m]) @ recv_all (fst (recv r p)) ps"

lemma transfer_all: "synced (length ms) s r \<Longrightarrow> recv_all r (send_all s ms) = ms"
proof (induction ms arbitrary: s r)
  case (Cons m ms)
  from Cons.prems have "synced (Suc (length ms)) s r" by simp
  from transfer [OF this, of m] show ?case using Cons.IH by auto
qed simp

end

text \<open>
  Two sessions are in step for \<open>n\<close> more messages: the same key and direction, the receiver has
  seen no counter beyond the sender's and the counter does not wrap in that time.
\<close>

definition synced :: "aead_lib \<Rightarrow> nat \<Rightarrow> session \<Rightarrow> session \<Rightarrow> bool" where
  "synced A n a b \<longleftrightarrow>
     aead_correct A \<and> sendAEAD a \<noteq> None \<and> recvAEAD b = sendAEAD a \<and> recvDir b = sendDir a
     \<and> unat (recvMax b) \<le> unat (sendCtr a) \<and> unat (sendCtr a) + n < 2 ^ 64"

definition sealed_packet :: "aead_lib \<Rightarrow> bytes \<Rightarrow> char \<Rightarrow> u64 \<Rightarrow> bytes \<Rightarrow> string" where
  "sealed_packet A k d c m =
     std_encode (packet_nonce d c) @ ''.'' @ std_encode (Seal A k (packet_nonce d c) m)"

lemma Encrypt_Inr:
  "sendAEAD a = Some k \<Longrightarrow>
   Encrypt A a m =
     (a\<lparr>sendCtr := sendCtr a + 1\<rparr>, Inr (sealed_packet A k (sendDir a) (sendCtr a + 1) m))"
  by (simp add: Encrypt_def sealed_packet_def Let_def)

lemma Decrypt_sealed:
  assumes "aead_correct A" and "recvAEAD b = Some k"
  shows "Decrypt A b (sealed_packet A k d c m)
     = (if d \<noteq> recvDir b then (b, Inl ErrWrongDirection)
        else if snd (acceptCounter b c) then (fst (acceptCounter b c), Inr m) else (b, Inl ErrReplay))"
  using assms acceptCounter_reject [of b c]
  by (auto simp: Decrypt_def sealed_packet_def packet_split std_roundtrip Let_def split_def
      aead_correct_def simp del: append.simps append_assoc)

lemma Decrypt_wrong_direction:
  assumes "recvAEAD b = Some k" and "d \<noteq> recvDir b"
  shows "Decrypt A b (sealed_packet A k' d c m) = (b, Inl ErrWrongDirection)"
  using assms
  by (simp add: Decrypt_def sealed_packet_def packet_split std_roundtrip del: append.simps append_assoc)

lemma unat_succ: "unat (c :: u64) + 1 < 2 ^ 64 \<Longrightarrow> unat (c + 1) = unat c + 1"
  by (simp add: unat_word_ariths)

interpretation ch: secure_channel "Encrypt A" "Decrypt A" "synced A" for A
proof
  fix n a b m
  assume s: "synced A (Suc n) a b"
  then obtain k where k: "sendAEAD a = Some k" by (auto simp: synced_def)
  let ?c = "sendCtr a + 1"
  have c: "unat ?c = unat (sendCtr a) + 1"
    using s by (intro unat_succ) (simp add: synced_def)
  then have j: "unat (recvMax b) < unat ?c" using s by (simp add: synced_def)
  let ?p = "sealed_packet A k (sendDir a) ?c m"
  have e: "Encrypt A a m = (a\<lparr>sendCtr := ?c\<rparr>, Inr ?p)" by (rule Encrypt_Inr [OF k])
  have d: "Decrypt A b ?p = (fst (acceptCounter b ?c), Inr m)"
    using s k acceptCounter_jump(1) [OF j] by (subst Decrypt_sealed) (auto simp: synced_def)
  have "synced A n (a\<lparr>sendCtr := ?c\<rparr>) (fst (acceptCounter b ?c))"
    using s c by (simp add: synced_def acceptCounter_jump(2) [OF j] acceptCounter_other_fields)
  then show "\<exists>p. snd (Encrypt A a m) = Inr p \<and> snd (Decrypt A b p) = Inr m
        \<and> synced A n (fst (Encrypt A a m)) (fst (Decrypt A b p))"
    using e d by (intro exI [of _ ?p]) simp
qed

lemma encrypt_all_Cons:
  "sendAEAD a = Some k \<Longrightarrow>
   snd (encrypt_all A a (m # ms)) =
     sealed_packet A k (sendDir a) (sendCtr a + 1) m
     # snd (encrypt_all A (a\<lparr>sendCtr := sendCtr a + 1\<rparr>) ms)"
  by (simp add: Encrypt_Inr split_def Let_def)

lemma encrypt_all_packets:
  assumes "sendAEAD a = Some k"
  shows "snd (encrypt_all A a ms) =
     map (\<lambda>i. sealed_packet A k (sendDir a) (sendCtr a + of_nat i + 1) (ms ! i)) [0..<length ms]"
  using assms
proof (induction ms arbitrary: a)
  case (Cons m ms)
  have "map (\<lambda>i. sealed_packet A k (sendDir a) (sendCtr a + of_nat i + 1) ((m # ms) ! i))
          [0..<length (m # ms)] =
        sealed_packet A k (sendDir a) (sendCtr a + 1) m #
        map (\<lambda>i. sealed_packet A k (sendDir a) (sendCtr a + 1 + of_nat i + 1) (ms ! i)) [0..<length ms]"
    by (simp add: upt_conv_Cons map_Suc_upt [symmetric] ac_simps del: upt_Suc)
  then show ?case using Cons encrypt_all_Cons [of a k A m ms] by simp
qed simp

lemma unat_add_index:
  "unat (c :: u64) + n < 2 ^ 64 \<Longrightarrow> i < n \<Longrightarrow> unat (c + of_nat i + 1) = unat c + i + 1"
proof -
  assume a: "unat c + n < 2 ^ 64" "i < n"
  then have "c + of_nat i + 1 = word_of_nat (unat c + i + 1)"
    by simp
  moreover have "unat (word_of_nat (unat c + i + 1) :: u64) = unat c + i + 1"
    using a by (simp add: unat_of_nat del: of_nat_add of_nat_Suc)
  ultimately show ?thesis by (simp only:)
qed

lemma decrypt_all_sealed:
  assumes "aead_correct A" and "recvAEAD b = Some k" and "recvDir b = d"
  shows "snd (decrypt_all A b (map (\<lambda>i. sealed_packet A k d (f i) (g i)) is))
     = map snd (snd (run_filter (\<lambda>s (c, m). acceptCounter s c) b (map (\<lambda>i. (f i, g i)) is)))"
  using assms
proof (induction "is" arbitrary: b)
  case (Cons i "is")
  show ?case
  proof (cases "snd (acceptCounter b (f i))")
    case True
    then show ?thesis
      using Cons.IH [of "fst (acceptCounter b (f i))"] Cons.prems
      by (simp add: Decrypt_sealed split_def Let_def acceptCounter_other_fields)
  next
    case False
    then show ?thesis
      using Cons.IH [of b] Cons.prems acceptCounter_reject [OF False]
      by (simp add: Decrypt_sealed split_def Let_def)
  qed
qed simp

lemma run_filter_tagged:
  assumes "\<And>i. i \<in> set is \<Longrightarrow> h (unat (f i)) = g i" and "window_rel S b"
  shows "map snd (snd (run_filter (\<lambda>s (c, m). acceptCounter s c) b (map (\<lambda>i. (f i, g i)) is)))
     = map h (snd (run_filter window_spec S (map (\<lambda>i. unat (f i)) is)))"
  using assms
proof (induction "is" arbitrary: S b)
  case (Cons i "is")
  then show ?case
    using window_spec_step [of S b "f i"] window_spec_iff [of S b "f i"]
    by (simp add: split_def Let_def)
qed simp

section \<open>Properties\<close>

text \<open>
  C26. The bit window implements its specification: whatever set of counters has been accepted,
  \<open>acceptCounter\<close> gives the verdict of \<open>window_spec\<close> (accepted unless seen before or 64 or more
  behind the highest) and leaves a session that represents the new set.
\<close>

theorem acceptCounter_refines_window:
  assumes "window_rel S s"
  shows "snd (acceptCounter s c) = snd (window_spec S (unat c)) \<and>
         window_rel (fst (window_spec S (unat c))) (fst (acceptCounter s c))"
  using window_spec_iff [OF assms] window_spec_step [OF assms] by blast

theorem acceptCounter_refines_window_witness:
  "snd (acceptCounter new_session 70) = snd (window_spec {} 70) \<and>
   window_rel (fst (window_spec {} 70)) (fst (acceptCounter new_session 70))"
proof -
  have "window_rel {} new_session" by (rule window_rel_init) (simp_all add: new_session_def)
  from acceptCounter_refines_window [OF this, of 70] show ?thesis by simp
qed

text \<open>
  C27. No packet counter is accepted twice: whatever packets an attacker makes, replays or
  reorders, the packets the session accepts carry pairwise different counters.
\<close>

theorem packets_accepted_once: "distinct (map packet_counter (accepted_packets A s ps))"
proof -
  obtain cs where "map packet_counter (accepted_packets A s ps)
      = map Some (snd (run_filter acceptCounter s cs))"
    using accepted_packets_run by blast
  then show ?thesis
    using rw.run_accepts_once [of s cs] by (simp add: distinct_map)
qed

text \<open>
  C29. A packet that is refused, for whatever reason, leaves the session exactly as it was, so a
  forged or corrupted packet cannot use up the counter of a genuine one; and a packet is accepted
  only when its nonce has the receiving direction and its ciphertext opens under the receive key.
\<close>

theorem Decrypt_refusal_and_acceptance:
  "case snd (Decrypt A s p) of
     Inl e \<Rightarrow> fst (Decrypt A s p) = s
   | Inr m \<Rightarrow> \<exists>key nonce ct. recvAEAD s = Some key \<and> length nonce = nonceSize
       \<and> nonce ! 0 = recvDir s \<and> Open A key nonce ct = Some m
       \<and> packet_counter p = Some (le_get (drop 4 nonce))
       \<and> fst (Decrypt A s p) = fst (acceptCounter s (le_get (drop 4 nonce)))"
proof (cases "snd (Decrypt A s p)")
  case (Inl e)
  then show ?thesis using Decrypt_error_same by simp
next
  case (Inr m)
  from Decrypt_Inr_parts [OF Inr] obtain key part0 part1 nonce ct where
    "recvAEAD s = Some key" "length nonce = nonceSize" "nonce ! 0 = recvDir s"
    "Open A key nonce ct = Some m" "split_char (CHR ''.'') p = [part0, part1]"
    "std_decode part0 = Some nonce"
    "fst (Decrypt A s p) = fst (acceptCounter s (le_get (drop 4 nonce)))" .
  then show ?thesis
    using Inr by (simp add: packet_counter_def) blast
qed

text \<open>
  C28. Behaviour under loss, duplication and reordering: let the sender encrypt \<open>ms\<close> and let the
  network deliver its packets by any schedule \<open>is\<close> of indices, with omissions and repetitions.
  The receiver outputs exactly the messages whose counters the window specification accepts, in
  the order of arrival.
\<close>

theorem decrypt_any_schedule:
  assumes A: "aead_correct A" and k: "sendAEAD a = Some k" "recvAEAD b = Some k"
    and d: "recvDir b = sendDir a" and n: "unat (sendCtr a) + length ms < 2 ^ 64"
    and i: "set is \<subseteq> {..<length ms}" and w: "window_rel S b"
  shows "snd (decrypt_all A b (map (\<lambda>i. snd (encrypt_all A a ms) ! i) is)) =
     map (\<lambda>c. ms ! (c - unat (sendCtr a) - 1))
       (snd (run_filter window_spec S (map (\<lambda>i. unat (sendCtr a) + i + 1) is)))"
proof -
  let ?f = "\<lambda>i. sendCtr a + of_nat i + 1"
  have f: "unat (?f i) = unat (sendCtr a) + i + 1" if "i \<in> set is" for i
    using unat_add_index [OF n] i that by auto
  have "map (\<lambda>i. snd (encrypt_all A a ms) ! i) is
      = map (\<lambda>i. sealed_packet A k (sendDir a) (?f i) (ms ! i)) is"
    using i by (auto simp: encrypt_all_packets [OF k(1)])
  then have "snd (decrypt_all A b (map (\<lambda>i. snd (encrypt_all A a ms) ! i) is))
      = map snd (snd (run_filter (\<lambda>s (c, m). acceptCounter s c) b (map (\<lambda>i. (?f i, ms ! i)) is)))"
    by (simp only: decrypt_all_sealed [OF A k(2) d])
  also have "\<dots> = map (\<lambda>c. ms ! (c - unat (sendCtr a) - 1))
          (snd (run_filter window_spec S (map (\<lambda>i. unat (?f i)) is)))"
    by (rule run_filter_tagged [OF _ w]) (simp add: f)
  finally have "snd (decrypt_all A b (map (\<lambda>i. snd (encrypt_all A a ms) ! i) is)) = \<dots>" .
  moreover have "map (\<lambda>i. unat (?f i)) is = map (\<lambda>i. unat (sendCtr a) + i + 1) is"
    using f by simp
  ultimately show ?thesis by simp
qed

text \<open>A concrete AEAD for the witnesses: the key and nonce in front of the text.\<close>

definition plain_aead :: aead_lib where
  "plain_aead = \<lparr>Seal = (\<lambda>k n p. k @ n @ p),
     Open = (\<lambda>k n c. if take (length k + length n) c = k @ n
                     then Some (drop (length k + length n) c) else None)\<rparr>"

definition low_session :: session where
  "low_session = new_session\<lparr>sendAEAD := Some ''k1'', recvAEAD := Some ''k2'',
     sendDir := directionLowToHigh, recvDir := directionHighToLow\<rparr>"

definition high_session :: session where
  "high_session = new_session\<lparr>sendAEAD := Some ''k2'', recvAEAD := Some ''k1'',
     sendDir := directionHighToLow, recvDir := directionLowToHigh\<rparr>"

lemma plain_aead_correct: "aead_correct plain_aead"
  by (simp add: aead_correct_def plain_aead_def)

lemmas demo_session_defs = low_session_def high_session_def new_session_def

lemma high_session_rel: "window_rel {} high_session"
  by (rule window_rel_init) (simp_all add: demo_session_defs)

theorem decrypt_any_schedule_witness:
  "snd (decrypt_all plain_aead high_session
     (map (\<lambda>i. snd (encrypt_all plain_aead low_session [''a'', ''b'', ''c'']) ! i) [2, 0, 2, 1, 0]))
   = [''c'', ''a'', ''b'']"
proof -
  have "snd (decrypt_all plain_aead high_session
     (map (\<lambda>i. snd (encrypt_all plain_aead low_session [''a'', ''b'', ''c'']) ! i) [2, 0, 2, 1, 0]))
   = map (\<lambda>c. [''a'', ''b'', ''c''] ! (c - unat (sendCtr low_session) - 1))
       (snd (run_filter window_spec {} (map (\<lambda>i. unat (sendCtr low_session) + i + 1) [2, 0, 2, 1, 0])))"
    by (rule decrypt_any_schedule [OF plain_aead_correct])
      (simp_all add: high_session_rel, simp_all add: demo_session_defs)
  then show ?thesis by (simp add: demo_session_defs window_spec_def)
qed

text \<open>
  In order delivery: over two sessions in step, the receiver reads back exactly the messages
  the sender encrypted, for as long as the 64-bit counter does not wrap.
\<close>

theorem decrypt_encrypt_all:
  assumes "synced A (length ms) a b"
  shows "snd (decrypt_all A b (snd (encrypt_all A a ms))) = ms"
proof -
  have send: "ch.send_all A s ns = snd (encrypt_all A s ns)" for s ns
    by (induction ns arbitrary: s) (auto simp: split_def Let_def split: sum.splits)
  have recv: "ch.recv_all A s ps = snd (decrypt_all A s ps)" for s ps
    by (induction ps arbitrary: s) (auto simp: split_def Let_def split: sum.splits)
  show ?thesis using ch.transfer_all [OF assms] by (simp add: send recv)
qed

lemma demo_synced: "synced plain_aead 1000 low_session high_session"
  by (simp add: synced_def plain_aead_correct) (simp add: demo_session_defs)

theorem decrypt_encrypt_all_witness:
  "snd (decrypt_all plain_aead high_session
     (snd (encrypt_all plain_aead low_session [''hello'', [], ''hello'']))) = [''hello'', [], ''hello'']"
  by (rule decrypt_encrypt_all)
    (simp add: synced_def plain_aead_correct, simp add: demo_session_defs)

text \<open>
  C30. Nonces are never reused: the packets of fewer than \<open>2 ^ 64\<close> encryptions under one session
  carry pairwise different nonces (the part of the packet before the dot).
\<close>

theorem nonces_unique:
  assumes "unat (sendCtr a) + length ms < 2 ^ 64"
  shows "distinct (map (takeWhile (\<lambda>c. c \<noteq> CHR ''.'')) (snd (encrypt_all A a ms)))"
proof (cases "sendAEAD a")
  case None
  have "snd (encrypt_all A a ms) = []"
    by (induction ms) (simp_all add: Encrypt_def None)
  then show ?thesis by simp
next
  case (Some k)
  have t: "takeWhile (\<lambda>c. c \<noteq> CHR ''.'') (sealed_packet A k d c m) = std_encode (packet_nonce d c)"
    for d c m
    using std_encode_no_dot [of "packet_nonce d c"]
    by (auto simp: sealed_packet_def takeWhile_append2 takeWhile_append)
  have "inj_on (\<lambda>i. std_encode (packet_nonce (sendDir a) (sendCtr a + of_nat i + 1))) {0..<length ms}"
  proof (rule inj_onI)
    fix i j
    assume ij: "i \<in> {0..<length ms}" "j \<in> {0..<length ms}"
      and "std_encode (packet_nonce (sendDir a) (sendCtr a + of_nat i + 1))
         = std_encode (packet_nonce (sendDir a) (sendCtr a + of_nat j + 1))"
    then have "sendCtr a + of_nat i + 1 = sendCtr a + of_nat j + 1"
      using std_encode_inj packet_nonce_inj by blast
    then have "unat (sendCtr a) + i + 1 = unat (sendCtr a) + j + 1"
      using unat_add_index [OF assms] ij by (metis atLeastLessThan_iff)
    then show "i = j" by simp
  qed
  then show ?thesis
    by (simp add: encrypt_all_packets [OF Some] t distinct_map comp_def)
qed

theorem nonces_unique_witness:
  "unat (sendCtr low_session) + length [''x'', ''x''] < 2 ^ 64 \<and>
   distinct (map (takeWhile (\<lambda>c. c \<noteq> CHR ''.''))
     (snd (encrypt_all plain_aead low_session [''x'', ''x''])))"
proof -
  have h: "unat (sendCtr low_session) + length [''x'', ''x''] < 2 ^ 64"
    by (simp add: demo_session_defs)
  from h nonces_unique [OF h, of plain_aead] show ?thesis by blast
qed

text \<open>
  C31. Reflected packets are refused: a packet a session made itself, sent back to it, gives
  \<open>ErrWrongDirection\<close> and changes nothing, whatever the keys are, since the two directions of a
  session differ.
\<close>

theorem reflection_refused:
  assumes "sendDir s \<noteq> recvDir s" and "recvAEAD s = Some k" and "snd (Encrypt A s m) = Inr p"
  shows "Decrypt A (fst (Encrypt A s m)) p = (fst (Encrypt A s m), Inl ErrWrongDirection)"
proof -
  obtain k' where "sendAEAD s = Some k'"
    using assms(3) by (cases "sendAEAD s") (auto simp: Encrypt_def)
  then show ?thesis
    using assms by (auto simp: Encrypt_Inr intro!: Decrypt_wrong_direction)
qed

theorem reflection_refused_witness:
  "\<exists>p. snd (Encrypt plain_aead low_session ''hi'') = Inr p \<and>
     snd (Decrypt plain_aead (fst (Encrypt plain_aead low_session ''hi'')) p) = Inl ErrWrongDirection"
proof -
  obtain p where p: "snd (Encrypt plain_aead low_session ''hi'') = Inr p"
    by (simp add: Encrypt_def demo_session_defs Let_def)
  have "sendDir low_session \<noteq> recvDir low_session" "recvAEAD low_session = Some ''k2''"
    by (simp_all add: demo_session_defs directionLowToHigh_def directionHighToLow_def)
  from reflection_refused [OF this p] p show ?thesis by auto
qed

end
