(* ===== verification/Handshake.thy ===== *)
theory Handshake
  imports E2ee
begin

text \<open>
  The authenticated key exchange of security/e2ee.go: \<open>Handshake\<close>, \<open>handshakeTranscript\<close> and
  \<open>deriveKey\<close>.

  X25519, HKDF, the ChaCha20-Poly1305 constructor and the libp2p identity keys are code outside
  the repository: the parameter \<open>kex_lib\<close>. Its functions give an error as \<open>Inl\<close>. What the
  agreement theorem relies on is the predicate \<open>kex_correct\<close>: X25519 is commutative in the two
  secrets and yields 32 bytes, HKDF and the cipher constructor accept 32-byte keys, signatures are
  not empty and verify under the signer's public key.

  The stream is modelled by the bytes that arrive on it (\<open>input\<close>) and the bytes written to it (the
  first component of the result); \<open>flush_ok i\<close> says whether the \<open>i\<close>-th flush succeeds. The
  remaining input is the buffered reader the caller goes on with.
\<close>

type_synonym privkey = bytes
type_synonym pubkey = bytes

record kex_lib =
  X25519 :: "bytes \<Rightarrow> bytes \<Rightarrow> bytes result"             \<comment> \<open>scalar, point\<close>
  Basepoint :: bytes
  HKDF :: "bytes \<Rightarrow> bytes \<Rightarrow> bytes \<Rightarrow> nat \<Rightarrow> bytes result"  \<comment> \<open>secret, salt, info, length\<close>
  NewAEAD :: "bytes \<Rightarrow> bytes result"
  GetPublic :: "privkey \<Rightarrow> pubkey"
  Raw :: "pubkey \<Rightarrow> bytes result"
  Sign :: "privkey \<Rightarrow> bytes \<Rightarrow> bytes result"
  Verify :: "pubkey \<Rightarrow> bytes \<Rightarrow> bytes \<Rightarrow> bool result"      \<comment> \<open>message, signature\<close>

text \<open>Continue with the value, or return the error, with its context in front.\<close>

definition rbind :: "'a result \<Rightarrow> ('a \<Rightarrow> 'b result) \<Rightarrow> 'b result" where
  "rbind r f = (case r of Inl e \<Rightarrow> Inl e | Inr x \<Rightarrow> f x)"

definition wrap_err :: "string \<Rightarrow> 'a result \<Rightarrow> 'a result" where
  "wrap_err msg r = (case r of Inl e \<Rightarrow> Inl (msg @ e) | Inr x \<Rightarrow> Inr x)"

lemma rbind_simps [simp]: "rbind (Inl e) f = Inl e" "rbind (Inr x) f = f x"
  by (simp_all add: rbind_def)

lemma wrap_err_simps [simp]: "wrap_err m (Inl e) = Inl (m @ e)" "wrap_err m (Inr x) = Inr x"
  by (simp_all add: wrap_err_def)

lemma rbind_Inr_iff: "rbind r f = Inr y \<longleftrightarrow> (\<exists>x. r = Inr x \<and> f x = Inr y)"
  by (cases r) auto

lemma wrap_err_Inr_iff: "wrap_err m r = Inr y \<longleftrightarrow> r = Inr y"
  by (cases r) auto

section \<open>Transcript and keys\<close>

definition handshakeTranscript ::
    "kex_lib \<Rightarrow> bytes \<Rightarrow> bytes \<Rightarrow> pubkey \<Rightarrow> pubkey \<Rightarrow> bytes result" where
  "handshakeTranscript K localEphemeral remoteEphemeral localIdentity remoteIdentity =
     rbind (wrap_err ''marshal local identity: '' (Raw K localIdentity)) (\<lambda>localID.
     rbind (wrap_err ''marshal remote identity: '' (Raw K remoteIdentity)) (\<lambda>remoteID.
       let ephemerals = sort [localEphemeral, remoteEphemeral];
           identities = sort [localID, remoteID]
       in Inr (Join ([''p2pchat-handshake-v2''] @ ephemerals @ identities) ''|'')))"

definition deriveKey :: "kex_lib \<Rightarrow> bytes \<Rightarrow> bytes \<Rightarrow> string \<Rightarrow> bytes result" where
  "deriveKey K shared transcript info = wrap_err ''hkdf: '' (HKDF K shared transcript info keySize)"

section \<open>The exchange\<close>

text \<open>A line of the exchange: \<open>ReadString\<close>, \<open>TrimSpace\<close> and base64.\<close>

definition read_b64_line :: "bytes \<Rightarrow> (bytes option \<times> bytes) result" where
  "read_b64_line input =
     (case ReadString input of
        None \<Rightarrow> Inl ''EOF''
      | Some (line, rest) \<Rightarrow> Inr (std_decode (TrimSpace line), rest))"

text \<open>The peer's ephemeral key, the shared secret and the transcript.\<close>

definition handshake_exchange ::
    "kex_lib \<Rightarrow> bytes \<Rightarrow> bytes \<Rightarrow> privkey \<Rightarrow> pubkey \<Rightarrow> bytes \<Rightarrow>
       (bytes \<times> bytes \<times> bytes \<times> bytes \<times> bytes) result" where
  "handshake_exchange K priv pub localIdentity remoteIdentity input =
     rbind (read_b64_line input) (\<lambda>(decoded, rest).
     (case decoded of
        None \<Rightarrow> Inl ''invalid peer public key''
      | Some peerPub \<Rightarrow>
          if length peerPub \<noteq> 32 then Inl ''invalid peer public key''
          else
            rbind (X25519 K priv peerPub) (\<lambda>shared.
            rbind (handshakeTranscript K pub peerPub (GetPublic K localIdentity) remoteIdentity)
              (\<lambda>transcript.
            rbind (wrap_err ''sign handshake transcript: '' (Sign K localIdentity transcript))
              (\<lambda>signature. Inr (peerPub, shared, transcript, signature, rest))))))"

text \<open>The direction-separated session from the two ephemeral keys.\<close>

definition handshake_session :: "bytes \<Rightarrow> bytes \<Rightarrow> bytes \<Rightarrow> bytes \<Rightarrow> session result" where
  "handshake_session pub peerPub lowToHigh highToLow =
     (if pub < peerPub then
        Inr (new_session\<lparr>sendAEAD := Some lowToHigh, recvAEAD := Some highToLow,
               sendDir := directionLowToHigh, recvDir := directionHighToLow\<rparr>)
      else if peerPub < pub then
        Inr (new_session\<lparr>sendAEAD := Some highToLow, recvAEAD := Some lowToHigh,
               sendDir := directionHighToLow, recvDir := directionLowToHigh\<rparr>)
      else Inl ''identical ephemeral public keys'')"

text \<open>The peer's signature is read and verified, then the keys are derived.\<close>

definition handshake_finish ::
    "kex_lib \<Rightarrow> bytes \<Rightarrow> bytes \<Rightarrow> bytes \<Rightarrow> bytes \<Rightarrow> pubkey \<Rightarrow> bytes \<Rightarrow> (session \<times> bytes) result" where
  "handshake_finish K pub peerPub shared transcript remoteIdentity input =
     rbind (read_b64_line input) (\<lambda>(decoded, rest).
     (case decoded of
        None \<Rightarrow> Inl ''invalid peer signature''
      | Some peerSignature \<Rightarrow>
          if peerSignature = [] then Inl ''invalid peer signature''
          else
            rbind (wrap_err ''verify peer signature: ''
                     (Verify K remoteIdentity transcript peerSignature)) (\<lambda>verified.
            if \<not> verified then Inl ''peer identity verification failed''
            else
              rbind (deriveKey K shared transcript ''p2pchat-v2-low-to-high'') (\<lambda>lowToHighKey.
              rbind (deriveKey K shared transcript ''p2pchat-v2-high-to-low'') (\<lambda>highToLowKey.
              rbind (NewAEAD K lowToHighKey) (\<lambda>lowToHigh.
              rbind (NewAEAD K highToLowKey) (\<lambda>highToLow.
              rbind (handshake_session pub peerPub lowToHigh highToLow) (\<lambda>session.
                Inr (session, rest)))))))))"

text \<open>A line as it is written: base64 and a newline.\<close>

definition b64_line :: "bytes \<Rightarrow> bytes" where
  "b64_line bs = std_encode bs @ [CHR 0x0A]"

definition Handshake ::
    "kex_lib \<Rightarrow> (nat \<Rightarrow> bool) \<Rightarrow> bytes result \<Rightarrow> privkey option \<Rightarrow> pubkey option \<Rightarrow> bytes \<Rightarrow>
       bytes \<times> (session \<times> bytes) result" where
  "Handshake K flush_ok random localIdentity remoteIdentity input =
     (case (localIdentity, remoteIdentity) of
        (Some local, Some remote) \<Rightarrow>
          (case rbind random (\<lambda>priv. rbind (X25519 K priv (Basepoint K)) (\<lambda>pub. Inr (priv, pub))) of
             Inl e \<Rightarrow> ([], Inl e)
           | Inr (priv, pub) \<Rightarrow>
               if \<not> flush_ok 0 then ([], Inl ''flush'')
               else
                 (case handshake_exchange K priv pub local remote input of
                    Inl e \<Rightarrow> (b64_line pub, Inl e)
                  | Inr (peerPub, shared, transcript, signature, rest) \<Rightarrow>
                      if \<not> flush_ok 1 then (b64_line pub, Inl ''flush'')
                      else (b64_line pub @ b64_line signature,
                            handshake_finish K pub peerPub shared transcript remote rest)))
      | _ \<Rightarrow> ([], Inl ''identity key is missing''))"

section \<open>The transcript\<close>

lemma sort_two: "sort [a, b] = (if b < a then [b, a] else [a, b])" for a b :: "'a::linorder"
  by auto

lemma sort_two_commute: "sort [a, b] = sort [b, a]" for a b :: "'a::linorder"
  by (auto simp: sort_two not_less)

lemma transcript_value:
  assumes "Raw K l = Inr li" and "Raw K r = Inr ri"
  shows "handshakeTranscript K le re l r =
     Inr (Join ([''p2pchat-handshake-v2''] @ sort [le, re] @ sort [li, ri]) ''|'')"
  using assms by (simp add: handshakeTranscript_def)

text \<open>Fields of equal lengths joined by a separator can be read back.\<close>

lemma Join_inj:
  assumes "list_all2 (\<lambda>x y. length x = length y) xs ys" and "Join xs sep = Join ys sep"
  shows "xs = ys"
  using assms
proof (induction xs sep arbitrary: ys rule: Join.induct)
  case (2 x sep)
  then show ?case by (auto simp: list_all2_Cons1)
next
  case (3 x y xs sep)
  then obtain u v us where "ys = u # v # us" by (auto simp: list_all2_Cons1)
  with 3 show ?case by auto
qed simp

section \<open>Two honest parties\<close>

definition kex_correct :: "kex_lib \<Rightarrow> bool" where
  "kex_correct K \<longleftrightarrow>
     (\<forall>a b A B. X25519 K a (Basepoint K) = Inr A \<longrightarrow> X25519 K b (Basepoint K) = Inr B \<longrightarrow>
        length A = 32 \<and> X25519 K a B = X25519 K b A) \<and>
     (\<forall>s t i. \<exists>k. HKDF K s t i keySize = Inr k \<and> length k = keySize) \<and>
     (\<forall>k. length k = keySize \<longrightarrow> NewAEAD K k = Inr k) \<and>
     (\<forall>sk m sig. Sign K sk m = Inr sig \<longrightarrow> sig \<noteq> [] \<and> Verify K (GetPublic K sk) m sig = Inr True)"

lemma kex_hkdf: "kex_correct K \<Longrightarrow> \<exists>k. HKDF K s t i keySize = Inr k \<and> length k = keySize"
  by (simp add: kex_correct_def)

lemma read_own_line:
  assumes "bs \<noteq> []"
  shows "read_b64_line (b64_line bs @ rest) = Inr (Some bs, rest)"
proof -
  have "ReadString (b64_line bs @ rest) = Some (std_encode bs @ [CHR 0x0A], rest)"
    using ReadString_line [OF std_encode_no_newline(1)] by (simp add: b64_line_def)
  moreover have "TrimSpace (std_encode bs @ [CHR 0x0A]) = std_encode bs"
    using assms std_encode_graphic by (intro TrimSpace_line) simp_all
  ultimately show ?thesis by (simp add: read_b64_line_def std_roundtrip)
qed

text \<open>Two fresh sessions that are the two ends of one connection.\<close>

definition mirrored :: "session \<Rightarrow> session \<Rightarrow> bool" where
  "mirrored s t \<longleftrightarrow>
     sendAEAD s = recvAEAD t \<and> recvAEAD s = sendAEAD t \<and> sendDir s = recvDir t \<and> recvDir s = sendDir t
     \<and> sendDir s \<noteq> recvDir s \<and> sendAEAD s \<noteq> None \<and> recvAEAD s \<noteq> None
     \<and> sendCtr s = 0 \<and> recvMax s = 0 \<and> recvWindow s = 0
     \<and> sendCtr t = 0 \<and> recvMax t = 0 \<and> recvWindow t = 0"

lemma handshake_session_mirror:
  assumes "pub \<noteq> peerPub"
  shows "\<exists>s t. handshake_session pub peerPub l h = Inr s \<and> handshake_session peerPub pub l h = Inr t
           \<and> mirrored s t"
proof (cases "pub < peerPub")
  case True
  then have "\<not> peerPub < pub" by simp
  then show ?thesis using True
    by (simp add: handshake_session_def mirrored_def new_session_def directionLowToHigh_def
        directionHighToLow_def)
next
  case False
  then have "peerPub < pub" using assms by simp
  then show ?thesis using False
    by (simp add: handshake_session_def mirrored_def new_session_def directionLowToHigh_def
        directionHighToLow_def)
qed

lemma mirrored_synced:
  assumes "mirrored s t" and "aead_correct A" and "n < 2 ^ 64"
  shows "synced A n s t" and "synced A n t s"
proof -
  have "sendAEAD t \<noteq> None" "recvAEAD t \<noteq> None" using assms(1) unfolding mirrored_def by metis+
  then show "synced A n s t" "synced A n t s"
    using assms unfolding mirrored_def synced_def by simp_all
qed

text \<open>What one side computes when the peer follows the protocol.\<close>

lemma Handshake_one_side:
  assumes K: "kex_correct K"
    and e: "X25519 K ra (Basepoint K) = Inr A" "X25519 K rb (Basepoint K) = Inr B"
    and sh: "X25519 K ra B = Inr shared"
    and T: "handshakeTranscript K A B (GetPublic K skA) pkB = Inr T"
    and sg: "Sign K skA T = Inr sigA" "sigB \<noteq> []" "Verify K pkB T sigB = Inr True"
    and k: "HKDF K shared T ''p2pchat-v2-low-to-high'' keySize = Inr l" "length l = keySize"
           "HKDF K shared T ''p2pchat-v2-high-to-low'' keySize = Inr h" "length h = keySize"
    and s: "handshake_session A B l h = Inr s"
  shows "Handshake K (\<lambda>_. True) (Inr ra) (Some skA) (Some pkB) (b64_line B @ b64_line sigB @ rest)
           = (b64_line A @ b64_line sigA, Inr (s, rest))"
proof -
  have B: "length B = 32" and l: "NewAEAD K l = Inr l" and h: "NewAEAD K h = Inr h"
    using K e k unfolding kex_correct_def by blast+
  then have "B \<noteq> []" by auto
  then have "handshake_exchange K ra A skA pkB (b64_line B @ b64_line sigB @ rest)
      = Inr (B, shared, T, sigA, b64_line sigB @ rest)"
    using B sh T sg(1) by (simp add: handshake_exchange_def read_own_line)
  moreover have "handshake_finish K A B shared T pkB (b64_line sigB @ rest) = Inr (s, rest)"
    using sg k l h s by (simp add: handshake_finish_def read_own_line deriveKey_def)
  ultimately show ?thesis using e(1) by (simp add: Handshake_def)
qed

lemma Handshake_pair:
  assumes K: "kex_correct K"
    and e: "X25519 K ra (Basepoint K) = Inr A" "X25519 K rb (Basepoint K) = Inr B" "A \<noteq> B"
    and sh: "X25519 K ra B = Inr shared"
    and id: "Raw K (GetPublic K skA) = Inr idA" "Raw K (GetPublic K skB) = Inr idB"
    and sg: "\<And>m. \<exists>sig. Sign K skA m = Inr sig" "\<And>m. \<exists>sig. Sign K skB m = Inr sig"
  shows "\<exists>outA outB sA sB.
     Handshake K (\<lambda>_. True) (Inr ra) (Some skA) (Some (GetPublic K skB)) (outB @ restB)
       = (outA, Inr (sA, restB)) \<and>
     Handshake K (\<lambda>_. True) (Inr rb) (Some skB) (Some (GetPublic K skA)) (outA @ restA)
       = (outB, Inr (sB, restA)) \<and>
     mirrored sA sB"
proof -
  obtain T where T: "handshakeTranscript K A B (GetPublic K skA) (GetPublic K skB) = Inr T"
      "handshakeTranscript K B A (GetPublic K skB) (GetPublic K skA) = Inr T"
    using transcript_value [OF id] transcript_value [OF id(2) id(1)]
    by (metis sort_two_commute)
  obtain sigA sigB where sig: "Sign K skA T = Inr sigA" "Sign K skB T = Inr sigB"
    using sg by blast
  have v: "sigA \<noteq> []" "Verify K (GetPublic K skA) T sigA = Inr True"
      "sigB \<noteq> []" "Verify K (GetPublic K skB) T sigB = Inr True"
    using K sig unfolding kex_correct_def by blast+
  obtain l where k1: "HKDF K shared T ''p2pchat-v2-low-to-high'' keySize = Inr l" "length l = keySize"
    using kex_hkdf [OF K] by blast
  obtain h where k2: "HKDF K shared T ''p2pchat-v2-high-to-low'' keySize = Inr h" "length h = keySize"
    using kex_hkdf [OF K] by blast
  note k = k1 k2
  have "X25519 K ra B = X25519 K rb A"
    using K e(1,2) unfolding kex_correct_def by blast
  then have sh': "X25519 K rb A = Inr shared" using sh by simp
  obtain sA sB where s: "handshake_session A B l h = Inr sA" "handshake_session B A l h = Inr sB"
      "mirrored sA sB"
    using handshake_session_mirror [OF e(3)] by blast
  have "Handshake K (\<lambda>_. True) (Inr ra) (Some skA) (Some (GetPublic K skB))
      ((b64_line B @ b64_line sigB) @ restB) = (b64_line A @ b64_line sigA, Inr (sA, restB))"
    unfolding append_assoc by (rule Handshake_one_side [OF K e(1,2) sh T(1) sig(1) v(3,4) k s(1)])
  moreover have "Handshake K (\<lambda>_. True) (Inr rb) (Some skB) (Some (GetPublic K skA))
      ((b64_line A @ b64_line sigA) @ restA) = (b64_line B @ b64_line sigB, Inr (sB, restA))"
    unfolding append_assoc by (rule Handshake_one_side [OF K e(2,1) sh' T(2) sig(2) v(1,2) k s(2)])
  ultimately show ?thesis using s(3) by blast
qed

text \<open>
  A concrete key exchange for the witness: secrets are numbers of the multiplicative kind (the
  shared value is the two points side by side in order), a signature is the key and the message.
\<close>

definition toy_pad :: "bytes \<Rightarrow> bytes" where
  "toy_pad bs = take 32 (bs @ replicate 32 (CHR ''0''))"

definition toy_kex :: kex_lib where
  "toy_kex = \<lparr>X25519 = (\<lambda>a p. if p = ''base'' then Inr (toy_pad a)
                          else Inr (concat (sort [toy_pad a, p]))),
     Basepoint = ''base'',
     HKDF = (\<lambda>s t i n. Inr (replicate n (CHR ''k''))),
     NewAEAD = (\<lambda>k. if length k = keySize then Inr k else Inl ''bad key length''),
     GetPublic = (\<lambda>sk. sk), Raw = Inr,
     Sign = (\<lambda>sk m. Inr (CHR ''s'' # sk @ m)),
     Verify = (\<lambda>pk m sig. Inr (sig = CHR ''s'' # pk @ m))\<rparr>"

lemma toy_pad_length [simp]: "length (toy_pad bs) = 32"
  by (simp add: toy_pad_def)

lemma toy_pad_not_base: "toy_pad bs \<noteq> ''base''"
proof
  assume "toy_pad bs = ''base''"
  then have "length (toy_pad bs) = 4" by simp
  then show False by simp
qed

lemma toy_kex_correct: "kex_correct toy_kex"
  unfolding kex_correct_def toy_kex_def
  by (auto simp: toy_pad_not_base keySize_def not_less)

lemma toy_handshake_hyps:
  "X25519 toy_kex ''a'' (Basepoint toy_kex) = Inr (toy_pad ''a'')"
  "X25519 toy_kex ''b'' (Basepoint toy_kex) = Inr (toy_pad ''b'')"
  "toy_pad ''a'' \<noteq> toy_pad ''b''"
  "X25519 toy_kex ''a'' (toy_pad ''b'') = Inr (concat (sort [toy_pad ''a'', toy_pad ''b'']))"
  "Raw toy_kex (GetPublic toy_kex ''alice'') = Inr ''alice''"
  "Raw toy_kex (GetPublic toy_kex ''bob'') = Inr ''bob''"
  "\<exists>sig. Sign toy_kex ''alice'' m = Inr sig" "\<exists>sig. Sign toy_kex ''bob'' m = Inr sig"
  using toy_pad_not_base [of "''b''"] by (simp_all add: toy_kex_def) (simp add: toy_pad_def)

section \<open>Properties\<close>

text \<open>
  C32. Two honest parties agree: each one's lines are the other one's input, and both handshakes
  succeed with sessions that are the two ends of one connection (the send key and direction of
  one are the receive key and direction of the other, the two directions differ, all counters are
  fresh). Bytes that arrive after the two handshake lines stay in the reader.
\<close>

theorem handshake_agreement:
  assumes K: "kex_correct K"
    and e: "X25519 K ra (Basepoint K) = Inr A" "X25519 K rb (Basepoint K) = Inr B" "A \<noteq> B"
    and sh: "X25519 K ra B = Inr shared"
    and id: "Raw K (GetPublic K skA) = Inr idA" "Raw K (GetPublic K skB) = Inr idB"
    and sg: "\<And>m. \<exists>sig. Sign K skA m = Inr sig" "\<And>m. \<exists>sig. Sign K skB m = Inr sig"
  shows "\<exists>outA outB sA sB.
     Handshake K (\<lambda>_. True) (Inr ra) (Some skA) (Some (GetPublic K skB)) (outB @ restB)
       = (outA, Inr (sA, restB)) \<and>
     Handshake K (\<lambda>_. True) (Inr rb) (Some skB) (Some (GetPublic K skA)) (outA @ restA)
       = (outB, Inr (sB, restA)) \<and>
     mirrored sA sB"
  using assms by (rule Handshake_pair)

theorem handshake_agreement_witness:
  "\<exists>outA outB sA sB.
     Handshake toy_kex (\<lambda>_. True) (Inr ''a'') (Some ''alice'') (Some (GetPublic toy_kex ''bob''))
       (outB @ ''x'') = (outA, Inr (sA, ''x'')) \<and>
     Handshake toy_kex (\<lambda>_. True) (Inr ''b'') (Some ''bob'') (Some (GetPublic toy_kex ''alice''))
       (outA @ ''y'') = (outB, Inr (sB, ''y'')) \<and>
     mirrored sA sB"
  by (rule handshake_agreement [OF toy_kex_correct toy_handshake_hyps])

text \<open>
  C33. A completed handshake is authenticated: whatever bytes arrive, a session is returned only
  when a 32-byte ephemeral key and a signature were read and the signature verifies, under the
  remote identity key of the connection, over the transcript of this very exchange (both
  ephemeral keys and both identities); the two directions of the session differ.
\<close>

theorem handshake_success_authenticated:
  assumes "Handshake K flush_ok random localIdentity remoteIdentity input = (out, Inr (s, rest))"
  shows "\<exists>local remote priv pub peerPub transcript sig.
     localIdentity = Some local \<and> remoteIdentity = Some remote \<and> random = Inr priv \<and>
     X25519 K priv (Basepoint K) = Inr pub \<and> length peerPub = 32 \<and> pub \<noteq> peerPub \<and>
     handshakeTranscript K pub peerPub (GetPublic K local) remote = Inr transcript \<and>
     sig \<noteq> [] \<and> Verify K remote transcript sig = Inr True \<and>
     sendDir s \<noteq> recvDir s \<and> sendAEAD s \<noteq> None \<and> recvAEAD s \<noteq> None"
proof -
  obtain local remote priv pub where id: "localIdentity = Some local" "remoteIdentity = Some remote"
      "random = Inr priv" "X25519 K priv (Basepoint K) = Inr pub"
    using assms by (auto simp: Handshake_def rbind_def split: option.splits sum.splits if_splits)
  obtain peerPub shared transcript signature rest1 where
    ex: "handshake_exchange K priv pub local remote input = Inr (peerPub, shared, transcript, signature, rest1)"
    and fin: "handshake_finish K pub peerPub shared transcript remote rest1 = Inr (s, rest)"
    using assms id by (auto simp: Handshake_def split: sum.splits if_splits)
  have "length peerPub = 32" "handshakeTranscript K pub peerPub (GetPublic K local) remote = Inr transcript"
    using ex by (auto simp: handshake_exchange_def rbind_Inr_iff split: option.splits if_splits)
  moreover obtain sig l h where "sig \<noteq> []" "Verify K remote transcript sig = Inr True"
      and s: "handshake_session pub peerPub l h = Inr s"
    using fin
    by (auto simp: handshake_finish_def rbind_Inr_iff wrap_err_Inr_iff split: option.splits if_splits)
  moreover have "pub \<noteq> peerPub" using s by (auto simp: handshake_session_def)
  moreover have "sendDir s \<noteq> recvDir s \<and> sendAEAD s \<noteq> None \<and> recvAEAD s \<noteq> None"
    using handshake_session_mirror [OF \<open>pub \<noteq> peerPub\<close>, of l h] s by (auto simp: mirrored_def)
  ultimately show ?thesis using id by blast
qed

theorem handshake_success_authenticated_witness:
  "\<exists>peerPub transcript sig. length peerPub = 32 \<and>
     handshakeTranscript toy_kex (toy_pad ''a'') peerPub ''alice'' ''bob'' = Inr transcript \<and>
     Verify toy_kex ''bob'' transcript sig = Inr True"
proof -
  obtain outA outB sA sB where
    "Handshake toy_kex (\<lambda>_. True) (Inr ''a'') (Some ''alice'') (Some (GetPublic toy_kex ''bob'')) (outB @ [])
       = (outA, Inr (sA, []))"
    using Handshake_pair [OF toy_kex_correct toy_handshake_hyps] by blast
  from handshake_success_authenticated [OF this] show ?thesis
    by (auto simp: toy_handshake_hyps(1)) (auto simp: toy_kex_def)
qed

text \<open>
  C34. The transcript binds the exchange: for 32-byte ephemeral keys and identities, two exchanges
  with the same transcript have the same two ephemeral keys and the same two identities, so a
  signature over one transcript cannot be used for another exchange. (Which key belongs to which
  identity is not part of the transcript: both pairs are sorted on their own.)
\<close>

theorem transcript_binding:
  assumes len: "length le = 32" "length re = 32" "length le' = 32" "length re' = 32"
      "length li = 32" "length ri = 32" "length li' = 32" "length ri' = 32"
    and raw: "Raw K l = Inr li" "Raw K r = Inr ri" "Raw K l' = Inr li'" "Raw K r' = Inr ri'"
    and eq: "handshakeTranscript K le re l r = handshakeTranscript K le' re' l' r'"
  shows "{le, re} = {le', re'} \<and> {li, ri} = {li', ri'}"
proof -
  let ?xs = "[''p2pchat-handshake-v2''] @ sort [le, re] @ sort [li, ri]"
    and ?ys = "[''p2pchat-handshake-v2''] @ sort [le', re'] @ sort [li', ri']"
  have "list_all2 (\<lambda>x y. length x = length y) ?xs ?ys"
    using len by (auto simp: sort_two)
  moreover have "Join ?xs ''|'' = Join ?ys ''|''"
    using eq by (simp only: transcript_value [OF raw(1,2)] transcript_value [OF raw(3,4)] sum.inject)
  ultimately have "?xs = ?ys" by (rule Join_inj)
  then have "sort [le, re] = sort [le', re']" "sort [li, ri] = sort [li', ri']"
    by (auto simp: sort_two split: if_splits)
  then have "set (sort [le, re]) = set (sort [le', re'])" "set (sort [li, ri]) = set (sort [li', ri'])"
    by (simp_all only:)
  then show ?thesis unfolding set_sort by simp
qed

theorem transcript_binding_witness:
  "handshakeTranscript toy_kex (toy_pad ''e1'') (toy_pad ''e2'') (toy_pad ''i1'') (toy_pad ''i2'')
     = handshakeTranscript toy_kex (toy_pad ''e2'') (toy_pad ''e1'') (toy_pad ''i1'') (toy_pad ''i2'') \<and>
   {toy_pad ''e1'', toy_pad ''e2''} = {toy_pad ''e2'', toy_pad ''e1''}"
proof -
  have raw: "Raw toy_kex x = Inr x" for x by (simp add: toy_kex_def)
  have eq: "handshakeTranscript toy_kex (toy_pad ''e1'') (toy_pad ''e2'') (toy_pad ''i1'') (toy_pad ''i2'')
     = handshakeTranscript toy_kex (toy_pad ''e2'') (toy_pad ''e1'') (toy_pad ''i1'') (toy_pad ''i2'')"
    unfolding transcript_value [OF raw raw] sort_two_commute [of "toy_pad ''e1''"] by (rule refl)
  have "{toy_pad ''e1'', toy_pad ''e2''} = {toy_pad ''e2'', toy_pad ''e1''} \<and>
        {toy_pad ''i1'', toy_pad ''i2''} = {toy_pad ''i1'', toy_pad ''i2''}"
    by (rule transcript_binding [OF _ _ _ _ _ _ _ _ raw raw raw raw eq]) simp_all
  with eq show ?thesis by blast
qed

end
