(* ===== verification/Sha256.thy ===== *)
theory Sha256
  imports Go_Strings
begin

text \<open>
  \<open>crypto/sha256\<close>, written out on 32-bit words after FIPS 180-4: the program hashes the pair of
  peer identifiers for the conversation identifier, the pair of public keys for the safety number
  and the identity key for the storage key.
\<close>

unbundle bit_operations_syntax

definition rotr :: "nat \<Rightarrow> u32 \<Rightarrow> u32" where
  "rotr n w = (drop_bit n w) OR (push_bit (32 - n) w)"

definition round_constants :: "u32 list" where
  "round_constants =
     [0x428A2F98, 0x71374491, 0xB5C0FBCF, 0xE9B5DBA5, 0x3956C25B, 0x59F111F1, 0x923F82A4, 0xAB1C5ED5,
      0xD807AA98, 0x12835B01, 0x243185BE, 0x550C7DC3, 0x72BE5D74, 0x80DEB1FE, 0x9BDC06A7, 0xC19BF174,
      0xE49B69C1, 0xEFBE4786, 0x0FC19DC6, 0x240CA1CC, 0x2DE92C6F, 0x4A7484AA, 0x5CB0A9DC, 0x76F988DA,
      0x983E5152, 0xA831C66D, 0xB00327C8, 0xBF597FC7, 0xC6E00BF3, 0xD5A79147, 0x06CA6351, 0x14292967,
      0x27B70A85, 0x2E1B2138, 0x4D2C6DFC, 0x53380D13, 0x650A7354, 0x766A0ABB, 0x81C2C92E, 0x92722C85,
      0xA2BFE8A1, 0xA81A664B, 0xC24B8B70, 0xC76C51A3, 0xD192E819, 0xD6990624, 0xF40E3585, 0x106AA070,
      0x19A4C116, 0x1E376C08, 0x2748774C, 0x34B0BCB5, 0x391C0CB3, 0x4ED8AA4A, 0x5B9CCA4F, 0x682E6FF3,
      0x748F82EE, 0x78A5636F, 0x84C87814, 0x8CC70208, 0x90BEFFFA, 0xA4506CEB, 0xBEF9A3F7, 0xC67178F2]"

definition initial_hash :: "u32 list" where
  "initial_hash =
     [0x6A09E667, 0xBB67AE85, 0x3C6EF372, 0xA54FF53A, 0x510E527F, 0x9B05688C, 0x1F83D9AB, 0x5BE0CD19]"

definition big_sigma0 :: "u32 \<Rightarrow> u32" where
  "big_sigma0 x = rotr 2 x XOR rotr 13 x XOR rotr 22 x"

definition big_sigma1 :: "u32 \<Rightarrow> u32" where
  "big_sigma1 x = rotr 6 x XOR rotr 11 x XOR rotr 25 x"

definition small_sigma0 :: "u32 \<Rightarrow> u32" where
  "small_sigma0 x = rotr 7 x XOR rotr 18 x XOR drop_bit 3 x"

definition small_sigma1 :: "u32 \<Rightarrow> u32" where
  "small_sigma1 x = rotr 17 x XOR rotr 19 x XOR drop_bit 10 x"

text \<open>One round on the eight working variables, with the sum of round constant and message word.\<close>

fun sha_round :: "u32 list \<Rightarrow> u32 \<Rightarrow> u32 list" where
  "sha_round [a, b, c, d, e, f, g, h] kw =
     (let t1 = h + big_sigma1 e + ((e AND f) XOR (NOT e AND g)) + kw;
          t2 = big_sigma0 a + ((a AND b) XOR (a AND c) XOR (b AND c))
      in [t1 + t2, a, b, c, d + t1, e, f, g])"
| "sha_round vs kw = vs"

text \<open>
  The message schedule as a sliding window of sixteen words: each round uses the first and appends
  the next.
\<close>

definition next_word :: "u32 list \<Rightarrow> u32" where
  "next_word ws = small_sigma1 (ws ! 14) + ws ! 9 + small_sigma0 (ws ! 1) + ws ! 0"

fun sha_rounds :: "u32 list \<Rightarrow> u32 list \<Rightarrow> u32 list \<Rightarrow> u32 list" where
  "sha_rounds [] ws vs = vs"
| "sha_rounds (k # ks) ws vs = sha_rounds ks (tl ws @ [next_word ws]) (sha_round vs (k + hd ws))"

definition sha_block :: "u32 list \<Rightarrow> bytes \<Rightarrow> u32 list" where
  "sha_block hs block =
     (let ws = map (\<lambda>i. be_get (take 4 (drop (4 * i) block))) [0..<16]
      in map2 (+) hs (sha_rounds round_constants ws hs))"

definition sha_pad :: "bytes \<Rightarrow> bytes" where
  "sha_pad m =
     m @ [CHR 0x80] @ replicate ((119 - length m mod 64) mod 64) (CHR 0x00)
       @ be_put 8 (word_of_nat (8 * length m) :: u64)"

fun sha_blocks :: "u32 list \<Rightarrow> bytes \<Rightarrow> u32 list" where
  "sha_blocks hs m = (if length m < 64 then hs else sha_blocks (sha_block hs (take 64 m)) (drop 64 m))"

declare sha_blocks.simps [simp del]

text \<open>\<open>sha256.Sum256\<close>.\<close>

definition Sum256 :: "bytes \<Rightarrow> bytes" where
  "Sum256 m = concat (map (be_put 4) (sha_blocks initial_hash (sha_pad m)))"

lemma sha_round_length: "length (sha_round vs k) = length vs"
  by (cases "(vs, k)" rule: sha_round.cases) (auto simp: Let_def)

lemma sha_rounds_length: "length (sha_rounds ks ws vs) = length vs"
  by (induction ks ws vs rule: sha_rounds.induct) (auto simp: sha_round_length)

lemma sha_block_length: "length (sha_block hs b) = length hs"
  by (simp add: sha_block_def sha_rounds_length)

lemma sha_blocks_length: "length (sha_blocks hs m) = length hs"
proof (induction hs m rule: sha_blocks.induct)
  case (1 hs m)
  then show ?case by (subst sha_blocks.simps) (simp add: sha_block_length)
qed

lemma concat_be_put_length: "length (concat (map (be_put 4) (hs :: u32 list))) = 4 * length hs"
  by (induction hs) auto

lemma Sum256_length [simp]: "length (Sum256 m) = 32"
  by (simp add: Sum256_def concat_be_put_length sha_blocks_length initial_hash_def)

end
