(* ===== verification/Stream_Manager.thy ===== *)
theory Stream_Manager
  imports Envelope Handshake Sha256
begin

text \<open>
  The state of the chat node: the \<open>StreamManager\<close> of \<open>main.go\<close> with the pending messages of
  \<open>chat_envelope.go\<close>, and the operations on connections (\<open>displayName\<close>, \<open>getSortedPeers\<close>,
  \<open>forgetPeer\<close>, \<open>clearPending\<close>).

  The record keeps the fields of the Go struct. Maps are Go maps of the prelude; a stream is the
  number of the connection; a session pointer is the session stored for the peer. Three more
  fields describe the run: \<open>tick\<close> counts the readings of clock, random source and network, which
  are functions of that count in the environment \<open>env\<close>; \<open>nextAddr\<close> numbers the allocated
  \<open>pendingChat\<close> values, since the code compares pointers to them; and \<open>out\<close> is the sequence of the
  effects: bytes written, streams closed, lines printed and calls of the web interface.

  The libp2p peer identifiers are code outside the repository: \<open>peer_String\<close> and \<open>peer_Decode\<close>
  of the environment.
\<close>

section \<open>Types\<close>

type_synonym pid = string

record env =
  aead :: aead_lib
  kex :: kex_lib
  peer_String :: "pid \<Rightarrow> string"
  peer_Decode :: "string \<Rightarrow> pid option"
  now_ns :: "nat \<Rightarrow> int"
  rand_read :: "nat \<Rightarrow> nat \<Rightarrow> bytes option"   \<comment> \<open>at a tick, that many bytes\<close>
  write_ok :: "nat \<Rightarrow> bool"

record pendingChat =
  pc_envelope :: Envelope
  lastSent :: int
  attempts :: int
  pc_addr :: nat

text \<open>The lines the node prints, with the arguments of the format.\<close>

datatype console =
    HandshakeFailed pid string
  | NicknameFailed pid
  | ConnectionRequestLine int string string
  | ConnectionTimedOut int string
  | ConnectionRejected string string
  | NoPendingRequest int
  | ConnectionClosed string string
  | ReadError string
  | SessionLost string
  | InvalidEnvelope string envelope_error
  | UnexpectedConversation pid
  | UnexpectedSender pid
  | InvalidChatBody pid
  | ReceiveBufferFull pid
  | AckFailed pid
  | InvalidAckBody pid
  | InvalidControlBody pid
  | PeerReportedError pid
  | ChatLine string string
  | InvalidBufferedBody pid
  | NowKnownAs string string
  | LatencyResponseFailed pid
  | LatencyResult int
  | ConcurrentReceived int
  | UnknownControl pid string
  | Connected string string
  | Disconnected string string
  | PlainLine string

text \<open>The calls of the web interface (the \<open>Notify\<close> functions of \<open>web.go\<close>).\<close>

datatype web_call =
    NotifyWebMessage string string string bool string bool
  | NotifyWebPeerUpdate
  | NotifyWebError string
  | NotifyPeerDisconnected string string string
  | NotifyConnectionRequest string string string
  | NotifyWebConnectionRejected string
  | NotifyReconnectStatus string string string

datatype event =
    Console console
  | Web web_call
  | Wire nat bytes
  | Closed nat
  | StartReader nat bytes
  | SendHistory string

record stream_manager =
  streams :: "(pid, nat) gomap"
  activeID :: pid
  sendSeq :: "(pid, u64) gomap"
  recvSeq :: "(pid, u64) gomap"
  recvBuffer :: "(pid, (u64, Envelope) gomap) gomap"
  pending :: "(pid, (string, pendingChat) gomap) gomap"
  node :: "pid option"
  sessions :: "(pid, session) gomap"
  localNick :: string
  peerNicks :: "(pid, string) gomap"
  hasHistory :: bool
  pendingApprovals :: "(pid, nat) gomap"
  pendingRequestNums :: "(int, pid) gomap"
  nextRequestNum :: int
  chans :: "(nat, bool list) gomap"
  concurrentTestReceived :: int
  tick :: nat
  nextAddr :: nat
  out :: "event list"

definition newStreamManager :: "pid option \<Rightarrow> stream_manager" where
  "newStreamManager nd =
     \<lparr>streams = [], activeID = [], sendSeq = [], recvSeq = [], recvBuffer = [], pending = [],
      node = nd, sessions = [], localNick = [], peerNicks = [], hasHistory = False,
      pendingApprovals = [], pendingRequestNums = [], nextRequestNum = 0, chans = [],
      concurrentTestReceived = 0, tick = 0, nextAddr = 0, out = []\<rparr>"

definition emit :: "event \<Rightarrow> stream_manager \<Rightarrow> stream_manager" where
  "emit ev s = s\<lparr>out := out s @ [ev]\<rparr>"

definition ticked :: "stream_manager \<Rightarrow> stream_manager" where
  "ticked s = s\<lparr>tick := Suc (tick s)\<rparr>"

text \<open>\<open>time.Now().UnixMilli()\<close> at a tick.\<close>

definition now_ms :: "env \<Rightarrow> nat \<Rightarrow> int" where
  "now_ms E t = now_ns E t div 1000000"

section \<open>Operations on connections\<close>

definition shortID :: "env \<Rightarrow> pid \<Rightarrow> string" where
  "shortID E p = last8 (peer_String E p)"

definition displayName :: "env \<Rightarrow> pid \<Rightarrow> stream_manager \<Rightarrow> string \<times> string" where
  "displayName E p s = (mget [] (peerNicks s) p, shortID E p)"

definition getSortedPeers :: "env \<Rightarrow> stream_manager \<Rightarrow> pid list" where
  "getSortedPeers E s = sort_key (peer_String E) (map fst (streams s))"

definition clearPending :: "pid \<Rightarrow> stream_manager \<Rightarrow> stream_manager" where
  "clearPending remote s = s\<lparr>pending := mdel remote (pending s)\<rparr>"

definition forgetPeer :: "env \<Rightarrow> pid \<Rightarrow> stream_manager \<Rightarrow> stream_manager" where
  "forgetPeer E p s =
     (let s1 = s\<lparr>streams := mdel p (streams s), sessions := mdel p (sessions s),
                 sendSeq := mdel p (sendSeq s), recvSeq := mdel p (recvSeq s),
                 recvBuffer := mdel p (recvBuffer s),
                 activeID := if activeID s = p then [] else activeID s\<rparr>;
          s2 = clearPending p s1;
          (nick, short) = displayName E p s2
      in emit (Web NotifyWebPeerUpdate)
           (emit (Web (NotifyPeerDisconnected (peer_String E p) nick short)) s2))"

section \<open>Well-formed states\<close>

definition maxReceiveBuffer :: nat where
  "maxReceiveBuffer = 64"

text \<open>A receive buffer: at most 64 envelopes, each under its own number, later than the last delivered.\<close>

definition buffer_ok :: "u64 \<Rightarrow> (u64, Envelope) gomap \<Rightarrow> bool" where
  "buffer_ok lo buf \<longleftrightarrow>
     gomap_ok buf \<and> length buf \<le> maxReceiveBuffer \<and>
     (\<forall>k e. mlookup buf k = Some e \<longrightarrow> k = eSequence e \<and> lo < k)"

text \<open>The next number is not in the buffer: there is nothing to drain.\<close>

definition recv_idle :: "pid \<Rightarrow> stream_manager \<Rightarrow> bool" where
  "recv_idle p s \<longleftrightarrow> mlookup (mget [] (recvBuffer s) p) (mget 0 (recvSeq s) p + 1) = None"

definition pending_ok :: "nat \<Rightarrow> (string, pendingChat) gomap \<Rightarrow> bool" where
  "pending_ok n msgs \<longleftrightarrow>
     gomap_ok msgs \<and> msgs \<noteq> [] \<and>
     (\<forall>k m. mlookup msgs k = Some m \<longrightarrow>
        k = eID (pc_envelope m) \<and> 1 \<le> attempts m \<and> attempts m \<le> 5 \<and> pc_addr m < n)"

text \<open>
  The invariant of the manager: a stream is open exactly when its session is there, the active
  peer is connected; every receive buffer is in order; every table of pending messages is non-empty
  with entries stored under the identifier of their envelope and one to five attempts.
\<close>

definition conn_ok :: "stream_manager \<Rightarrow> bool" where
  "conn_ok s \<longleftrightarrow>
     gomap_ok (streams s) \<and> gomap_ok (sessions s) \<and>
     dom (mlookup (streams s)) = dom (mlookup (sessions s)) \<and>
     (activeID s = [] \<or> activeID s \<in> dom (mlookup (sessions s)))"

definition recv_ok :: "stream_manager \<Rightarrow> bool" where
  "recv_ok s \<longleftrightarrow> (\<forall>p. buffer_ok (mget 0 (recvSeq s) p) (mget [] (recvBuffer s) p) \<and> recv_idle p s)"

definition pend_ok :: "stream_manager \<Rightarrow> bool" where
  "pend_ok s \<longleftrightarrow>
     gomap_ok (pending s) \<and> (\<forall>p msgs. mlookup (pending s) p = Some msgs \<longrightarrow> pending_ok (nextAddr s) msgs)"

definition sm_ok :: "stream_manager \<Rightarrow> bool" where
  "sm_ok s \<longleftrightarrow> conn_ok s \<and> recv_ok s \<and> pend_ok s"

section \<open>A concrete environment\<close>

text \<open>
  An environment for worked examples: peer identifiers print as themselves, the clock shows two
  seconds more at each reading, every write succeeds.
\<close>

definition demo_env :: env where
  "demo_env = \<lparr>aead = plain_aead, kex = toy_kex, peer_String = (\<lambda>p. p), peer_Decode = Some,
     now_ns = (\<lambda>t. 2000000000 * (int t + 1)), rand_read = (\<lambda>t n. Some (replicate n (char_of (t mod 256)))),
     write_ok = (\<lambda>t. True)\<rparr>"

definition demo_node :: stream_manager where
  "demo_node = newStreamManager (Some ''A'')"

end
