(* ===== verification/Chat_Send.thy ===== *)
theory Chat_Send
  imports Stream_Manager
begin

text \<open>
  The sending half of \<open>chat_envelope.go\<close>: the conversation identifier, the message bodies, the
  construction and encryption of envelopes, the table of messages that wait for an
  acknowledgement, and \<open>sendChat\<close>, \<open>sendControl\<close> and \<open>sendAck\<close>.
\<close>

section \<open>Bodies\<close>

definition controlNickname :: string where "controlNickname = ''nickname''"
definition controlLatencyPing :: string where "controlLatencyPing = ''latency_ping''"
definition controlLatencyPong :: string where "controlLatencyPong = ''latency_pong''"
definition controlConcurrentTest :: string where "controlConcurrentTest = ''concurrent_test''"

record controlBody =
  cbKind :: string
  cbName :: string
  cbTimestamp :: int
  cbPayload :: string
  cbIndex :: int

definition control_zero :: controlBody where
  "control_zero = \<lparr>cbKind = [], cbName = [], cbTimestamp = 0, cbPayload = [], cbIndex = 0\<rparr>"

text \<open>\<open>json.Marshal\<close> of \<open>chatBody\<close>, \<open>ackBody\<close> and \<open>controlBody\<close>.\<close>

definition chatBody :: "string \<Rightarrow> bytes" where
  "chatBody text = json_object [(''text'', json_quote text)]"

definition ackBody :: "string \<Rightarrow> bytes" where
  "ackBody ident = json_object [(''id'', json_quote ident)]"

definition marshal_control :: "controlBody \<Rightarrow> bytes" where
  "marshal_control b =
     json_object ([(''kind'', json_quote (cbKind b))]
       @ omitempty (cbName b = []) ''name'' (json_quote (cbName b))
       @ omitempty (cbTimestamp b = 0) ''timestamp'' (dec_int (cbTimestamp b))
       @ omitempty (cbPayload b = []) ''payload'' (json_quote (cbPayload b))
       @ omitempty (cbIndex b = 0) ''index'' (dec_int (cbIndex b)))"

text \<open>\<open>json.Unmarshal\<close> of a body with a single string field, and of a control body.\<close>

fun set_single :: "string \<Rightarrow> (string \<times> string) list \<Rightarrow> string \<Rightarrow> string option" where
  "set_single name [] x = Some x"
| "set_single name ((k, raw) # kvs) x =
     (if key_is name k
      then (case dec_string x raw of None \<Rightarrow> None | Some y \<Rightarrow> set_single name kvs y)
      else set_single name kvs x)"

definition unmarshal_single :: "string \<Rightarrow> bytes \<Rightarrow> string option" where
  "unmarshal_single name data = Option.bind (json_members data) (\<lambda>kvs. set_single name kvs [])"

definition unmarshal_chat :: "bytes \<Rightarrow> string option" where
  "unmarshal_chat data = unmarshal_single ''text'' data"

definition unmarshal_ack :: "bytes \<Rightarrow> string option" where
  "unmarshal_ack data = unmarshal_single ''id'' data"

definition set_control :: "string \<times> string \<Rightarrow> controlBody \<Rightarrow> controlBody option" where
  "set_control kv b =
     (let k = fst kv; raw = snd kv in
      if key_is ''kind'' k then map_option (\<lambda>x. b\<lparr>cbKind := x\<rparr>) (dec_string (cbKind b) raw)
      else if key_is ''name'' k then map_option (\<lambda>x. b\<lparr>cbName := x\<rparr>) (dec_string (cbName b) raw)
      else if key_is ''timestamp'' k then map_option (\<lambda>x. b\<lparr>cbTimestamp := x\<rparr>) (dec_int64 (cbTimestamp b) raw)
      else if key_is ''payload'' k then map_option (\<lambda>x. b\<lparr>cbPayload := x\<rparr>) (dec_string (cbPayload b) raw)
      else if key_is ''index'' k then map_option (\<lambda>x. b\<lparr>cbIndex := x\<rparr>) (dec_int64 (cbIndex b) raw)
      else Some b)"

fun set_controls :: "(string \<times> string) list \<Rightarrow> controlBody \<Rightarrow> controlBody option" where
  "set_controls [] b = Some b"
| "set_controls (kv # kvs) b = (case set_control kv b of None \<Rightarrow> None | Some b' \<Rightarrow> set_controls kvs b')"

definition unmarshal_control :: "bytes \<Rightarrow> controlBody option" where
  "unmarshal_control data = Option.bind (json_members data) (\<lambda>kvs. set_controls kvs control_zero)"

section \<open>Envelopes\<close>

datatype send_error =
    NotConnected
  | NodeMissing
  | BadEnvelope envelope_error
  | CryptoError string
  | WriteError

definition conversationID :: "env \<Rightarrow> pid \<Rightarrow> pid \<Rightarrow> string" where
  "conversationID E first second =
     (let ids = sort [peer_String E first, peer_String E second];
          hash = Sum256 (ids ! 0 @ ''|'' @ ids ! 1)
      in raw_url_encode (take 16 hash))"

text \<open>
  The three constructors of envelopes; each reads the random source once and the clock twice (for
  the timestamp and in the validation).
\<close>

definition build_envelope ::
  "env \<Rightarrow> pid \<Rightarrow> string \<Rightarrow> u64 \<Rightarrow> bytes \<Rightarrow> stream_manager \<Rightarrow> stream_manager \<times> (send_error + Envelope)"
where
  "build_envelope E remote typ sequence body s =
     (case node s of
        None \<Rightarrow> (s, Inl NodeMissing)
      | Some local \<Rightarrow>
          (ticked (ticked s),
           case newEnvelope (rand_read E (tick s) 16) (now_ms E (tick s)) (now_ms E (Suc (tick s))) typ
                  (conversationID E local remote) (peer_String E local) sequence (Some (Some body)) of
             Inl err \<Rightarrow> Inl (BadEnvelope err)
           | Inr e \<Rightarrow> Inr e))"

definition newChatEnvelope ::
  "env \<Rightarrow> pid \<Rightarrow> u64 \<Rightarrow> string \<Rightarrow> stream_manager \<Rightarrow> stream_manager \<times> (send_error + Envelope)"
where
  "newChatEnvelope E remote sequence text s = build_envelope E remote TypeChat sequence (chatBody text) s"

definition newControlEnvelope ::
  "env \<Rightarrow> pid \<Rightarrow> controlBody \<Rightarrow> stream_manager \<Rightarrow> stream_manager \<times> (send_error + Envelope)"
where
  "newControlEnvelope E remote body s = build_envelope E remote TypeControl 0 (marshal_control body) s"

definition newAckEnvelope ::
  "env \<Rightarrow> pid \<Rightarrow> string \<Rightarrow> stream_manager \<Rightarrow> stream_manager \<times> (send_error + Envelope)"
where
  "newAckEnvelope E remote messageID s = build_envelope E remote TypeAck 0 (ackBody messageID) s"

definition sendEnvelope ::
  "env \<Rightarrow> pid \<Rightarrow> nat \<Rightarrow> session \<Rightarrow> Envelope \<Rightarrow> stream_manager \<Rightarrow> stream_manager \<times> send_error option"
where
  "sendEnvelope E remote stream session envelope s =
     (case Encode (now_ms E (tick s)) (Some envelope) of
        Inl err \<Rightarrow> (ticked s, Some (BadEnvelope err))
      | Inr encoded \<Rightarrow>
          (case Encrypt (aead E) session encoded of
             (session', r) \<Rightarrow>
               (let s1 = ticked (s\<lparr>sessions := mput remote session' (sessions s)\<rparr>) in
                case r of
                  Inl err \<Rightarrow> (s1, Some (CryptoError err))
                | Inr packet \<Rightarrow>
                    if write_ok E (tick s1)
                    then (emit (Wire stream (packet @ [CHR 0x0A])) (ticked s1), None)
                    else (ticked s1, Some WriteError))))"

section \<open>Messages that wait for an acknowledgement\<close>

definition pendingTimeout :: int where
  "pendingTimeout = 2 * 1000000000"

definition maxPendingRetries :: int where
  "maxPendingRetries = 5"

definition trackPending :: "env \<Rightarrow> pid \<Rightarrow> Envelope \<Rightarrow> stream_manager \<Rightarrow> stream_manager" where
  "trackPending E remote envelope s =
     (let messages = mget [] (pending s) remote;
          m = \<lparr>pc_envelope = envelope, lastSent = now_ns E (tick s), attempts = 1, pc_addr = nextAddr s\<rparr>
      in ticked (s\<lparr>pending := mput remote (mput (eID envelope) m messages) (pending s),
                   nextAddr := Suc (nextAddr s)\<rparr>))"

definition ackPending :: "pid \<Rightarrow> string \<Rightarrow> stream_manager \<Rightarrow> stream_manager" where
  "ackPending remote messageID s =
     (case mlookup (pending s) remote of
        None \<Rightarrow> s
      | Some messages \<Rightarrow>
          (let messages' = mdel messageID messages in
           if messages' = [] then s\<lparr>pending := mdel remote (pending s)\<rparr>
           else s\<lparr>pending := mput remote messages' (pending s)\<rparr>))"

definition pendingCount :: "pid \<Rightarrow> stream_manager \<Rightarrow> nat" where
  "pendingCount remote s = length (mget [] (pending s) remote)"

section \<open>Sending\<close>

definition sendChat ::
  "env \<Rightarrow> pid \<Rightarrow> string \<Rightarrow> stream_manager \<Rightarrow> stream_manager \<times> (send_error + Envelope)"
where
  "sendChat E remote text s =
     (case (mlookup (streams s) remote, mlookup (sessions s) remote) of
        (Some stream, Some session) \<Rightarrow>
          (let sequence = mget 0 (sendSeq s) remote + 1;
               s1 = s\<lparr>sendSeq := mput remote sequence (sendSeq s)\<rparr>
           in case newChatEnvelope E remote sequence text s1 of
                (s2, Inl err) \<Rightarrow> (s2, Inl err)
              | (s2, Inr envelope) \<Rightarrow>
                  (case sendEnvelope E remote stream session envelope (trackPending E remote envelope s2) of
                     (s3, Some err) \<Rightarrow> (ackPending remote (eID envelope) s3, Inl err)
                   | (s3, None) \<Rightarrow> (s3, Inr envelope)))
      | _ \<Rightarrow> (s, Inl NotConnected))"

definition sendBuilt ::
  "env \<Rightarrow> pid \<Rightarrow> (stream_manager \<Rightarrow> stream_manager \<times> (send_error + Envelope)) \<Rightarrow> stream_manager
    \<Rightarrow> stream_manager \<times> send_error option"
where
  "sendBuilt E remote build s =
     (case (mlookup (streams s) remote, mlookup (sessions s) remote) of
        (Some stream, Some session) \<Rightarrow>
          (case build s of
             (s1, Inl err) \<Rightarrow> (s1, Some err)
           | (s1, Inr envelope) \<Rightarrow> sendEnvelope E remote stream session envelope s1)
      | _ \<Rightarrow> (s, Some NotConnected))"

definition sendControl ::
  "env \<Rightarrow> pid \<Rightarrow> controlBody \<Rightarrow> stream_manager \<Rightarrow> stream_manager \<times> send_error option"
where
  "sendControl E remote body s = sendBuilt E remote (newControlEnvelope E remote body) s"

definition sendAck ::
  "env \<Rightarrow> pid \<Rightarrow> string \<Rightarrow> stream_manager \<Rightarrow> stream_manager \<times> send_error option"
where
  "sendAck E remote messageID s = sendBuilt E remote (newAckEnvelope E remote messageID) s"

section \<open>What sending changes\<close>

text \<open>
  Sending to a peer touches only the session of that peer, the tick and the bytes on the wire.
\<close>

definition is_wire :: "event \<Rightarrow> bool" where
  "is_wire ev \<longleftrightarrow> (case ev of Wire _ _ \<Rightarrow> True | _ \<Rightarrow> False)"

definition core :: "stream_manager \<Rightarrow> stream_manager" where
  "core s = s\<lparr>sessions := [], tick := 0, out := []\<rparr>"

lemma core_simps [simp]:
  "core (s\<lparr>sessions := x\<rparr>) = core s" "core (ticked s) = core s" "core (emit ev s) = core s"
  by (simp_all add: core_def ticked_def emit_def)

lemma core_fields:
  "streams (core s) = streams s" "activeID (core s) = activeID s" "sendSeq (core s) = sendSeq s"
  "recvSeq (core s) = recvSeq s" "recvBuffer (core s) = recvBuffer s" "pending (core s) = pending s"
  "node (core s) = node s" "localNick (core s) = localNick s" "peerNicks (core s) = peerNicks s"
  "hasHistory (core s) = hasHistory s" "pendingApprovals (core s) = pendingApprovals s"
  "pendingRequestNums (core s) = pendingRequestNums s" "nextRequestNum (core s) = nextRequestNum s"
  "chans (core s) = chans s" "concurrentTestReceived (core s) = concurrentTestReceived s"
  "nextAddr (core s) = nextAddr s"
  by (simp_all add: core_def)

lemma same_core_fields:
  assumes "core s' = core s"
  shows "streams s' = streams s" "activeID s' = activeID s" "sendSeq s' = sendSeq s" "recvSeq s' = recvSeq s"
    "recvBuffer s' = recvBuffer s" "pending s' = pending s" "node s' = node s" "localNick s' = localNick s"
    "peerNicks s' = peerNicks s" "hasHistory s' = hasHistory s" "pendingApprovals s' = pendingApprovals s"
    "pendingRequestNums s' = pendingRequestNums s" "nextRequestNum s' = nextRequestNum s" "chans s' = chans s"
    "concurrentTestReceived s' = concurrentTestReceived s" "nextAddr s' = nextAddr s"
  using core_fields [of s'] core_fields [of s] assms by metis+

definition only_sends :: "pid \<Rightarrow> stream_manager \<Rightarrow> stream_manager \<Rightarrow> bool" where
  "only_sends r s s' \<longleftrightarrow>
     core s' = core s \<and> (\<exists>w. out s' = out s @ w \<and> list_all is_wire w) \<and>
     (\<forall>p. p \<noteq> r \<longrightarrow> mlookup (sessions s') p = mlookup (sessions s) p) \<and>
     (mlookup (sessions s') r = None) = (mlookup (sessions s) r = None) \<and>
     (gomap_ok (sessions s) \<longrightarrow> gomap_ok (sessions s'))"

lemma only_sends_refl [simp]: "only_sends r s s"
  by (simp add: only_sends_def)

lemma only_sends_trans: "only_sends r s s' \<Longrightarrow> only_sends r s' s'' \<Longrightarrow> only_sends r s s''"
  unfolding only_sends_def by (elim conjE exE) (intro conjI; simp)

lemma only_sends_core: "only_sends r s s' \<Longrightarrow> core s' = core s"
  by (simp add: only_sends_def)

lemmas only_sends_fields = same_core_fields [OF only_sends_core]

lemma only_sends_dom:
  "only_sends r s s' \<Longrightarrow> (mlookup (sessions s') p = None) = (mlookup (sessions s) p = None)"
  by (cases "p = r") (auto simp: only_sends_def)

lemma only_sends_ok: "only_sends r s s' \<Longrightarrow> gomap_ok (sessions s) \<Longrightarrow> gomap_ok (sessions s')"
  by (simp add: only_sends_def)

lemma only_sends_out:
  assumes "only_sends r s s'"
  obtains w where "out s' = out s @ w" "list_all is_wire w"
  using assms unfolding only_sends_def by blast

lemma only_sends_ticked [simp]: "only_sends r s (ticked s)"
  by (simp add: only_sends_def) (simp add: ticked_def)

lemma only_sends_session:
  "mlookup (sessions s) r \<noteq> None \<Longrightarrow> only_sends r s (s\<lparr>sessions := mput r x (sessions s)\<rparr>)"
  by (simp add: only_sends_def gomap_simps gomap_wf)

lemma only_sends_wire [simp]: "only_sends r s (emit (Wire st b) s)"
  by (simp add: only_sends_def) (simp add: emit_def is_wire_def)

lemma sendEnvelope_only_sends:
  assumes "mlookup (sessions s) r \<noteq> None"
  shows "only_sends r s (fst (sendEnvelope E r st ses e s))"
proof -
  let ?s1 = "\<lambda>x. ticked (s\<lparr>sessions := mput r x (sessions s)\<rparr>)"
  have 1: "only_sends r s (?s1 x)" for x
    using only_sends_session [OF assms] only_sends_ticked by (rule only_sends_trans)
  have 2: "only_sends r s (ticked (?s1 x))" for x
    using 1 only_sends_ticked by (rule only_sends_trans)
  have 3: "only_sends r s (emit (Wire st b) (ticked (?s1 x)))" for x b
    using 2 only_sends_wire by (rule only_sends_trans)
  show ?thesis using 1 2 3 by (simp add: sendEnvelope_def Let_def split: sum.split prod.split)
qed

lemma build_envelope_only_sends: "only_sends r s (fst (build_envelope E p typ q b s))"
  using only_sends_trans [OF only_sends_ticked only_sends_ticked]
  by (simp add: build_envelope_def split: option.split)

lemma sendBuilt_only_sends:
  assumes "\<And>s. only_sends r s (fst (build s))"
  shows "only_sends r s (fst (sendBuilt E r build s))"
proof (cases "mlookup (streams s) r = None \<or> mlookup (sessions s) r = None")
  case True
  then show ?thesis by (auto simp: sendBuilt_def split: option.split)
next
  case False
  obtain s1 x where b: "build s = (s1, x)" by (cases "build s")
  then have 1: "only_sends r s s1" using assms [of s] by simp
  then have "mlookup (sessions s1) r \<noteq> None" using False only_sends_dom [OF 1, of r] by simp
  then have "only_sends r s1 (fst (sendEnvelope E r st ses e s1))" for st ses e
    by (rule sendEnvelope_only_sends)
  with 1 have "only_sends r s (fst (sendEnvelope E r st ses e s1))" for st ses e
    by (rule only_sends_trans)
  then show ?thesis using False 1 b by (cases x) (auto simp: sendBuilt_def)
qed

lemma sendControl_only_sends: "only_sends r s (fst (sendControl E r b s))"
  unfolding sendControl_def by (rule sendBuilt_only_sends) (simp add: newControlEnvelope_def build_envelope_only_sends)

lemma sendAck_only_sends: "only_sends r s (fst (sendAck E r i s))"
  unfolding sendAck_def by (rule sendBuilt_only_sends) (simp add: newAckEnvelope_def build_envelope_only_sends)

text \<open>When nothing fails: the packet is on the wire and the counter of the session has advanced.\<close>

lemma sendEnvelope_ok:
  assumes "v2_rules (now_ms E (tick s)) e" and "wire_exact e" and "sendAEAD ses = Some k"
    and "write_ok E (Suc (tick s))"
  shows "sendEnvelope E r st ses e s =
    (emit (Wire st (sealed_packet (aead E) k (sendDir ses) (sendCtr ses + 1) (json_object (envelope_members e)) @ [CHR 0x0A]))
       (ticked (ticked (s\<lparr>sessions := mput r (ses\<lparr>sendCtr := sendCtr ses + 1\<rparr>) (sessions s)\<rparr>))), None)"
  using assms by (simp add: sendEnvelope_def Encode_exact Encrypt_Inr Let_def) (simp add: ticked_def)

section \<open>Bodies read back\<close>

lemma settled_chatBody: "settled (Suc d) (chatBody text)" "settled (Suc d) (ackBody text)"
  unfolding chatBody_def ackBody_def by (rule settled_object, simp add: settled_quote)+

lemma members_single:
  "json_members (json_object [(k, json_quote x)]) = Some [(to_valid k, json_quote x)]"
  using json_members_object [of "[(k, json_quote x)]"] by (simp add: settled_quote)

lemma unmarshal_chatBody: "unmarshal_chat (chatBody text) = Some (to_valid text)"
  by (simp add: unmarshal_chat_def unmarshal_single_def chatBody_def members_single to_valid_ascii key_is_refl
      dec_string_quote)

lemma unmarshal_ackBody: "unmarshal_ack (ackBody ident) = Some (to_valid ident)"
  by (simp add: unmarshal_ack_def unmarshal_single_def ackBody_def members_single to_valid_ascii key_is_refl
      dec_string_quote)

lemma set_control_known:
  "set_control (''kind'', raw) b = map_option (\<lambda>x. b\<lparr>cbKind := x\<rparr>) (dec_string (cbKind b) raw)"
  "set_control (''name'', raw) b = map_option (\<lambda>x. b\<lparr>cbName := x\<rparr>) (dec_string (cbName b) raw)"
  "set_control (''timestamp'', raw) b = map_option (\<lambda>x. b\<lparr>cbTimestamp := x\<rparr>) (dec_int64 (cbTimestamp b) raw)"
  "set_control (''payload'', raw) b = map_option (\<lambda>x. b\<lparr>cbPayload := x\<rparr>) (dec_string (cbPayload b) raw)"
  "set_control (''index'', raw) b = map_option (\<lambda>x. b\<lparr>cbIndex := x\<rparr>) (dec_int64 (cbIndex b) raw)"
  by (simp_all add: set_control_def key_is_def)

lemma set_controls_append: "set_controls (xs @ ys) b = Option.bind (set_controls xs b) (set_controls ys)"
  by (induction xs arbitrary: b) (auto split: option.splits)

section \<open>Properties\<close>

text \<open>
  Both ends of a conversation compute the same identifier, whoever opened the stream, and it
  always has the 22 characters of 16 hash bytes, so it is never empty and within the limit of 128
  that the envelope validation puts on it.
\<close>

theorem conversationID_symmetric:
  "conversationID E a b = conversationID E b a \<and> length (conversationID E a b) = 22"
  by (simp add: conversationID_def Let_def sort_two_commute [of "peer_String E a"] raw_url_encode_length
      del: sort_key_simps)

definition int64_range :: "int \<Rightarrow> bool" where
  "int64_range i \<longleftrightarrow> - (2 ^ 63) \<le> i \<and> i < 2 ^ 63"

text \<open>
  Message bodies survive the wire format: the text of a chat body, the identifier of an
  acknowledgement and all five fields of a control body are read back from their JSON form exactly
  (strings with invalid UTF-8 have the invalid bytes replaced, so valid ones are unchanged), for
  numbers in the range of \<open>int64\<close>.
\<close>

theorem bodies_roundtrip:
  assumes "int64_range (cbTimestamp b)" and "int64_range (cbIndex b)"
  shows "unmarshal_chat (chatBody text) = Some (to_valid text) \<and>
    unmarshal_ack (ackBody ident) = Some (to_valid ident) \<and>
    unmarshal_control (marshal_control b) =
      Some (b\<lparr>cbKind := to_valid (cbKind b), cbName := to_valid (cbName b), cbPayload := to_valid (cbPayload b)\<rparr>)"
proof -
  define kvs where "kvs = [(''kind'', json_quote (cbKind b))]
       @ omitempty (cbName b = []) ''name'' (json_quote (cbName b))
       @ omitempty (cbTimestamp b = 0) ''timestamp'' (dec_int (cbTimestamp b))
       @ omitempty (cbPayload b = []) ''payload'' (json_quote (cbPayload b))
       @ omitempty (cbIndex b = 0) ''index'' (dec_int (cbIndex b))"
  have kv: "kv \<in> set kvs \<Longrightarrow> settled inner_nesting (snd kv) \<and> to_valid (fst kv) = fst kv" for kv
    by (auto simp: kvs_def omitempty_def settled_quote settled_int to_valid_ascii split: if_splits)
  have "map (\<lambda>(k, v). (to_valid k, v)) kvs = kvs" by (rule map_idI) (use kv in \<open>auto simp: split_def\<close>)
  then have "json_members (json_object kvs) = Some kvs" using kv by (subst json_members_object) auto
  moreover have "set_controls kvs control_zero =
      Some (b\<lparr>cbKind := to_valid (cbKind b), cbName := to_valid (cbName b), cbPayload := to_valid (cbPayload b)\<rparr>)"
    using assms
    by (simp add: kvs_def omitempty_def set_controls_append set_control_known dec_string_quote dec_int64_dec
        int64_range_def control_zero_def to_valid_pieces(1))
  ultimately show ?thesis
    by (simp add: unmarshal_control_def marshal_control_def kvs_def unmarshal_chatBody unmarshal_ackBody)
qed

theorem bodies_roundtrip_witness:
  "unmarshal_control (marshal_control (control_zero\<lparr>cbKind := ''latency_ping'', cbTimestamp := 1700000000000\<rparr>))
     = Some (control_zero\<lparr>cbKind := ''latency_ping'', cbTimestamp := 1700000000000\<rparr>)"
  using bodies_roundtrip [of "control_zero\<lparr>cbKind := ''latency_ping'', cbTimestamp := 1700000000000\<rparr>" "[]" "[]"]
  by (simp add: int64_range_def control_zero_def to_valid_ascii)

end
