(* ===== verification/Chat_Receive.thy ===== *)
theory Chat_Receive
  imports Chat_Send
begin

text \<open>
  The receiving half of \<open>chat_envelope.go\<close>: \<open>handleEnvelope\<close> with the acknowledgements, the
  reordering buffer of 64 messages per peer and \<open>drainReceiveBuffer\<close>, the control messages, and
  the \<open>readLoop\<close> of \<open>main.go\<close> that decrypts, decodes and dispatches the lines of a stream.

  The theorems show that a conversation is delivered in order, without gaps and without repetition
  whatever the order of arrival, that every message is delivered once all its predecessors have
  arrived, and that the buffer is bounded.
\<close>

section \<open>Operations\<close>

definition deliverChat :: "env \<Rightarrow> pid \<Rightarrow> string \<Rightarrow> stream_manager \<Rightarrow> stream_manager" where
  "deliverChat E p text s =
     (let (nick, short) = displayName E p s;
          display = (if nick \<noteq> [] then nick else short)
      in emit (Web (NotifyWebMessage (peer_String E p) display text False (peer_String E p) True))
           (emit (Console (ChatLine display text)) (ticked s)))"

text \<open>An acknowledgement whose failure is only printed.\<close>

definition ack_or_print :: "env \<Rightarrow> pid \<Rightarrow> string \<Rightarrow> stream_manager \<Rightarrow> stream_manager" where
  "ack_or_print E p ident s =
     (case sendAck E p ident s of
        (s', None) \<Rightarrow> s'
      | (s', Some err) \<Rightarrow> emit (Console (AckFailed p)) s')"

text \<open>One turn of the loop of \<open>drainReceiveBuffer\<close>; \<open>None\<close> when it returns.\<close>

definition drain_step :: "env \<Rightarrow> pid \<Rightarrow> stream_manager \<Rightarrow> stream_manager option" where
  "drain_step E p s =
     (let nxt = mget 0 (recvSeq s) p + 1;
          buf = mget [] (recvBuffer s) p
      in case mlookup buf nxt of
           None \<Rightarrow> None
         | Some envelope \<Rightarrow>
             (let s1 = s\<lparr>recvBuffer := mput p (mdel nxt buf) (recvBuffer s),
                        recvSeq := mput p nxt (recvSeq s)\<rparr>
              in case unmarshal_chat (eBody envelope) of
                   None \<Rightarrow> Some (emit (Console (InvalidBufferedBody p)) s1)
                 | Some text \<Rightarrow>
                     if TrimSpace text = [] then Some s1
                     else Some (ack_or_print E p (eID envelope) (deliverChat E p text s1))))"

lemma deliverChat_recv [simp]:
  "recvSeq (deliverChat E p text s) = recvSeq s" "recvBuffer (deliverChat E p text s) = recvBuffer s"
  by (simp_all add: deliverChat_def emit_def ticked_def Let_def split_def)

lemma emit_recv [simp]: "recvSeq (emit ev s) = recvSeq s" "recvBuffer (emit ev s) = recvBuffer s"
  by (simp_all add: emit_def)

lemma ack_or_print_recv [simp]:
  "recvSeq (ack_or_print E p i s) = recvSeq s" "recvBuffer (ack_or_print E p i s) = recvBuffer s"
proof -
  have c: "core (fst (sendAck E p i s)) = core s" by (rule only_sends_core [OF sendAck_only_sends])
  show "recvSeq (ack_or_print E p i s) = recvSeq s" "recvBuffer (ack_or_print E p i s) = recvBuffer s"
    using same_core_fields(4,5) [OF c]
    by (simp_all add: ack_or_print_def split: prod.split option.split) (metis fst_conv)+
qed

lemma mdel_less: "mlookup m k = Some v \<Longrightarrow> length (mdel k m) < length m"
  by (auto simp: mdel_def AList.delete_eq intro!: length_filter_less dest: mlookup_in_set)

lemma drain_step_less:
  assumes "drain_step E p s = Some s'"
  shows "length (mget [] (recvBuffer s') p) < length (mget [] (recvBuffer s) p)"
  using assms
  by (auto simp: drain_step_def Let_def gomap_simps mdel_less split: option.splits if_splits)

function drainReceiveBuffer :: "env \<Rightarrow> pid \<Rightarrow> stream_manager \<Rightarrow> stream_manager" where
  "drainReceiveBuffer E p s =
     (case drain_step E p s of None \<Rightarrow> s | Some s' \<Rightarrow> drainReceiveBuffer E p s')"
  by pat_completeness auto
termination
  by (relation "measure (\<lambda>(E, p, s). length (mget [] (recvBuffer s) p))") (auto dest: drain_step_less)

declare drainReceiveBuffer.simps [simp del]

definition handleControl :: "env \<Rightarrow> pid \<Rightarrow> controlBody \<Rightarrow> stream_manager \<Rightarrow> stream_manager" where
  "handleControl E p body s =
     (if cbKind body = controlNickname then
        (let nick = TrimSpace (cbName body) in
         if nick = [] then s
         else
           (let old = mget [] (peerNicks s) p;
                s1 = s\<lparr>peerNicks := mput p nick (peerNicks s)\<rparr>
            in if old \<noteq> nick
               then emit (Web NotifyWebPeerUpdate)
                      (emit (Console (NowKnownAs (snd (displayName E p s1)) nick)) s1)
               else s1))
      else if cbKind body = controlLatencyPing then
        (if cbTimestamp body \<le> 0 then s
         else (case sendControl E p (control_zero\<lparr>cbKind := controlLatencyPong,
                      cbTimestamp := cbTimestamp body\<rparr>) s of
                 (s', None) \<Rightarrow> s'
               | (s', Some err) \<Rightarrow> emit (Console (LatencyResponseFailed p)) s'))
      else if cbKind body = controlLatencyPong then
        (if cbTimestamp body \<le> 0 then s
         else (let rtt = now_ms E (tick s) - cbTimestamp body
               in emit (Console (LatencyResult (sgn rtt * (\<bar>rtt\<bar> div 2)))) (ticked s)))
      else if cbKind body = controlConcurrentTest then
        (let count = concurrentTestReceived s + 1
         in emit (Console (ConcurrentReceived count)) (s\<lparr>concurrentTestReceived := count\<rparr>))
      else emit (Console (UnknownControl p (cbKind body))) s)"

text \<open>The chat case of \<open>handleEnvelope\<close>, once the text is known not to be blank.\<close>

definition handleChat :: "env \<Rightarrow> pid \<Rightarrow> Envelope \<Rightarrow> string \<Rightarrow> stream_manager \<Rightarrow> stream_manager" where
  "handleChat E p envelope text s =
     (let lst = mget 0 (recvSeq s) p in
      if eSequence envelope \<le> lst then fst (sendAck E p (eID envelope) s)
      else if eSequence envelope > lst + 1 then
        (let buffer = mget [] (recvBuffer s) p;
             s1 = (if mlookup (recvBuffer s) p = None
                   then s\<lparr>recvBuffer := mput p [] (recvBuffer s)\<rparr> else s)
         in if length buffer \<ge> maxReceiveBuffer then emit (Console (ReceiveBufferFull p)) s1
            else fst (sendAck E p (eID envelope)
                   (s1\<lparr>recvBuffer := mput p (mput (eSequence envelope) envelope buffer) (recvBuffer s1)\<rparr>)))
      else
        drainReceiveBuffer E p
          (ack_or_print E p (eID envelope)
            (deliverChat E p text (s\<lparr>recvSeq := mput p (eSequence envelope) (recvSeq s)\<rparr>))))"

definition handleEnvelope :: "env \<Rightarrow> pid \<Rightarrow> Envelope \<Rightarrow> stream_manager \<Rightarrow> stream_manager" where
  "handleEnvelope E p envelope s =
     (case node s of
        None \<Rightarrow> s
      | Some local \<Rightarrow>
          if eConversation envelope \<noteq> conversationID E local p then
            emit (Console (UnexpectedConversation p)) s
          else if eSender envelope \<noteq> peer_String E p then emit (Console (UnexpectedSender p)) s
          else if eType envelope = TypeChat then
            (case unmarshal_chat (eBody envelope) of
               None \<Rightarrow> emit (Console (InvalidChatBody p)) s
             | Some text \<Rightarrow> if TrimSpace text = [] then s else handleChat E p envelope text s)
          else if eType envelope = TypeAck then
            (case unmarshal_ack (eBody envelope) of
               None \<Rightarrow> emit (Console (InvalidAckBody p)) s
             | Some ident \<Rightarrow> ackPending p ident s)
          else if eType envelope = TypeControl then
            (case unmarshal_control (eBody envelope) of
               None \<Rightarrow> emit (Console (InvalidControlBody p)) s
             | Some body \<Rightarrow> handleControl E p body s)
          else if eType envelope = TypeError then emit (Console (PeerReportedError p)) s
          else s)"

section \<open>The read loop\<close>

text \<open>The body of \<open>readLoop\<close> for one line; \<open>None\<close> when the loop ends because the session is gone.\<close>

definition readLoop_line :: "env \<Rightarrow> pid \<Rightarrow> string \<Rightarrow> stream_manager \<Rightarrow> stream_manager option" where
  "readLoop_line E p line s =
     (case mlookup (sessions s) p of
        None \<Rightarrow> None
      | Some session \<Rightarrow>
          (case Decrypt (aead E) session (TrimSpace line) of
             (session', r) \<Rightarrow>
               (let s1 = s\<lparr>sessions := mput p session' (sessions s)\<rparr> in
                case r of
                  Inl err \<Rightarrow> Some s1
                | Inr plain \<Rightarrow>
                    (case Decode (now_ms E (tick s1)) plain of
                       Inl err \<Rightarrow> Some (emit (Console (InvalidEnvelope (shortID E p) err)) (ticked s1))
                     | Inr envelope \<Rightarrow> Some (handleEnvelope E p envelope (ticked s1))))))"

lemma ReadString_less: "ReadString s = Some (l, r) \<Longrightarrow> length r < length s"
  by (induction s arbitrary: l) (auto split: if_splits option.splits)

text \<open>
  The loop over the bytes that arrive on the stream until it ends; \<open>eof\<close> tells a clean end from a
  read error.
\<close>

function readLoop :: "env \<Rightarrow> pid \<Rightarrow> nat \<Rightarrow> bool \<Rightarrow> bytes \<Rightarrow> stream_manager \<Rightarrow> stream_manager" where
  "readLoop E p stream eof input s =
     (case ReadString input of
        None \<Rightarrow>
          (let (nick, short) = displayName E p s;
               s1 = emit (Console (if eof then ConnectionClosed nick short else ReadError (shortID E p))) s
           in emit (Closed stream) (forgetPeer E p s1))
      | Some (line, rest) \<Rightarrow>
          (case readLoop_line E p line s of
             None \<Rightarrow> forgetPeer E p (emit (Closed stream) (emit (Console (SessionLost (shortID E p))) s))
           | Some s' \<Rightarrow> readLoop E p stream eof rest s'))"
  by pat_completeness auto
termination
  by (relation "measure (\<lambda>(E, p, st, eof, input, s). length input)") (auto dest: ReadString_less)

declare readLoop.simps [simp del]

section \<open>What was delivered\<close>

text \<open>The texts of a peer that reached the user, in order: the incoming messages in the trace.\<close>

definition incoming :: "env \<Rightarrow> pid \<Rightarrow> event \<Rightarrow> string list" where
  "incoming E p ev =
     (case ev of
        Web (NotifyWebMessage from nm text own conv persist) \<Rightarrow>
          if \<not> own \<and> conv = peer_String E p then [text] else []
      | _ \<Rightarrow> [])"

definition delivered :: "env \<Rightarrow> pid \<Rightarrow> stream_manager \<Rightarrow> string list" where
  "delivered E p s = concat (map (incoming E p) (out s))"

lemma delivered_emit: "delivered E p (emit ev s) = delivered E p s @ incoming E p ev"
  by (simp add: delivered_def emit_def)

lemma delivered_same: "out s' = out s \<Longrightarrow> delivered E p s' = delivered E p s"
  by (simp add: delivered_def)

lemma delivered_recv [simp]:
  "delivered E p (s\<lparr>recvSeq := x\<rparr>) = delivered E p s" "delivered E p (s\<lparr>recvBuffer := y\<rparr>) = delivered E p s"
  by (simp_all add: delivered_def)

lemma delivered_ticked [simp]: "delivered E p (ticked s) = delivered E p s"
  by (rule delivered_same) (simp add: ticked_def)

lemma delivered_console [simp]: "delivered E p (emit (Console c) s) = delivered E p s"
  by (simp add: delivered_emit incoming_def)

lemma delivered_only_sends: "only_sends r s s' \<Longrightarrow> delivered E p s' = delivered E p s"
proof (erule only_sends_out)
  fix w
  assume o: "out s' = out s @ w" and "list_all is_wire w"
  then have "concat (map (incoming E p) w) = []"
    by (auto simp: list_all_iff is_wire_def incoming_def split: event.splits)
  with o show ?thesis by (simp add: delivered_def)
qed

lemma delivered_sendAck [simp]: "delivered E p (fst (sendAck E q i s)) = delivered E p s"
  by (rule delivered_only_sends [OF sendAck_only_sends])

lemma delivered_ack [simp]: "delivered E p (ack_or_print E q i s) = delivered E p s"
  using delivered_sendAck [of E p q i s]
  by (cases "sendAck E q i s") (simp add: ack_or_print_def split: option.split)

lemma delivered_deliver: "delivered E p (deliverChat E p text s) = delivered E p s @ [text]"
  by (simp add: deliverChat_def Let_def split_def delivered_emit incoming_def)

section \<open>In-order delivery\<close>

text \<open>A chat envelope of the conversation \<open>txt\<close>: number \<open>k\<close> carries the text \<open>txt k\<close>.\<close>

definition chat_of :: "(u64 \<Rightarrow> string) \<Rightarrow> Envelope \<Rightarrow> bool" where
  "chat_of txt e \<longleftrightarrow>
     eType e = TypeChat \<and> unmarshal_chat (eBody e) = Some (txt (eSequence e)) \<and>
     TrimSpace (txt (eSequence e)) \<noteq> [] \<and> eSequence e \<noteq> 0"

definition addressed :: "env \<Rightarrow> pid \<Rightarrow> stream_manager \<Rightarrow> Envelope \<Rightarrow> bool" where
  "addressed E p s e \<longleftrightarrow>
     (\<exists>local. node s = Some local \<and> eConversation e = conversationID E local p \<and> eSender e = peer_String E p)"

definition numbered :: "(u64 \<Rightarrow> string) \<Rightarrow> nat \<Rightarrow> string list" where
  "numbered txt n = map (\<lambda>i. txt (word_of_nat i)) [1..<Suc n]"

lemma numbered_Suc: "numbered txt (Suc n) = numbered txt n @ [txt (word_of_nat (Suc n))]"
  by (simp add: numbered_def)

text \<open>
  The receiver after it saw the sequence numbers \<open>R\<close>: it delivered the numbers up to the last one
  in order, and the buffer holds messages of the conversation with later numbers.
\<close>

definition recv_inv ::
  "env \<Rightarrow> pid \<Rightarrow> (u64 \<Rightarrow> string) \<Rightarrow> string list \<Rightarrow> u64 set \<Rightarrow> stream_manager \<Rightarrow> bool"
where
  "recv_inv E p txt D R s \<longleftrightarrow>
     (let lst = mget 0 (recvSeq s) p; buf = mget [] (recvBuffer s) p in
      gomap_ok buf \<and> length buf \<le> maxReceiveBuffer \<and>
      (\<forall>k e. mlookup buf k = Some e \<longrightarrow> k = eSequence e \<and> chat_of txt e \<and> lst < k \<and> k \<in> R) \<and>
      (\<forall>k. 1 \<le> k \<and> k \<le> lst \<longrightarrow> k \<in> R) \<and>
      delivered E p s = D @ numbered txt (unat lst))"

text \<open>
  Nothing that arrived is missing: later numbers that were seen are in the buffer, and the buffer
  reaches at most 65 numbers ahead.
\<close>

definition recv_full :: "pid \<Rightarrow> u64 set \<Rightarrow> stream_manager \<Rightarrow> bool" where
  "recv_full p R s \<longleftrightarrow>
     (\<forall>k \<in> R. mget 0 (recvSeq s) p < k \<longrightarrow> mlookup (mget [] (recvBuffer s) p) k \<noteq> None) \<and>
     (\<forall>k e. mlookup (mget [] (recvBuffer s) p) k = Some e \<longrightarrow> unat k \<le> unat (mget 0 (recvSeq s) p) + 65)"

lemma unat_plus_1: "(a :: u64) < b \<Longrightarrow> unat (a + 1) = Suc (unat a)"
  using unat_succ [of a] unsigned_less [of b, where 'a = nat] by (simp add: word_less_nat_alt)

lemma less_next: "(a :: u64) < b \<Longrightarrow> b \<noteq> a + 1 \<Longrightarrow> a + 1 < b"
  using unat_plus_1 [of a b] by (simp add: word_less_nat_alt word_unat_eq_iff)

lemma le_next: "(a :: u64) < b \<Longrightarrow> k \<le> a + 1 \<longleftrightarrow> k \<le> a \<or> k = a + 1"
  using unat_plus_1 [of a b] by (auto simp: word_le_nat_alt word_unat_eq_iff)

text \<open>Delivery of the next number, from the wire or from the buffer.\<close>

lemma deliver_next:
  assumes inv: "recv_inv E p txt D R s" and lt: "mget 0 (recvSeq s) p < k" and k: "k = mget 0 (recvSeq s) p + 1"
    and seq: "mget 0 (recvSeq s') p = k" and buf: "mget [] (recvBuffer s') p = mdel k (mget [] (recvBuffer s) p)"
    and del: "delivered E p s' = delivered E p s @ [txt k]" and R: "R' = insert k R"
  shows "recv_inv E p txt D R' s'"
proof -
  have u: "unat k = Suc (unat (mget 0 (recvSeq s) p))" using unat_plus_1 [OF lt] k by simp
  have w: "word_of_nat (unat k) = k" by simp
  have num: "numbered txt (unat k) = numbered txt (unat (mget 0 (recvSeq s) p)) @ [txt k]"
    using w by (simp only: u numbered_Suc)
  have later: "j \<noteq> k \<Longrightarrow> mget 0 (recvSeq s) p < j \<Longrightarrow> k < j" for j using less_next [of _ j] k by simp
  show ?thesis
    using inv num later le_next [OF lt] k R gm.len_del [of "mget [] (recvBuffer s) p" k]
    by (auto simp: recv_inv_def Let_def seq buf del gomap_wf gomap_simps split: if_splits)
qed

lemma drain_step_chat:
  assumes inv: "recv_inv E p txt D R s" and st: "drain_step E p s = Some s'"
  defines "k \<equiv> mget 0 (recvSeq s) p + 1"
  shows "mget 0 (recvSeq s) p < k" "mget 0 (recvSeq s') p = k" "k \<in> R"
    "mget [] (recvBuffer s') p = mdel k (mget [] (recvBuffer s) p)"
    "delivered E p s' = delivered E p s @ [txt k]"
proof -
  obtain e where e: "mlookup (mget [] (recvBuffer s) p) k = Some e"
    using st by (auto simp: drain_step_def Let_def k_def split: option.splits)
  then have c: "k = eSequence e" "chat_of txt e" and "mget 0 (recvSeq s) p < k" "k \<in> R"
    using inv unfolding recv_inv_def Let_def by blast+
  then show "mget 0 (recvSeq s) p < k" "k \<in> R" by blast+
  have "unmarshal_chat (eBody e) = Some (txt k)" "TrimSpace (txt k) \<noteq> []"
    using c by (simp_all add: chat_of_def)
  then have s': "s' = ack_or_print E p (eID e) (deliverChat E p (txt k)
      (s\<lparr>recvBuffer := mput p (mdel k (mget [] (recvBuffer s) p)) (recvBuffer s), recvSeq := mput p k (recvSeq s)\<rparr>))"
    using st e by (simp add: drain_step_def Let_def k_def)
  show "mget 0 (recvSeq s') p = k" "mget [] (recvBuffer s') p = mdel k (mget [] (recvBuffer s) p)"
    by (simp_all add: s' gomap_simps)
  show "delivered E p s' = delivered E p s @ [txt k]"
    by (simp add: s' delivered_deliver)
qed

lemma drain_step_inv:
  assumes "recv_inv E p txt D R s" and "drain_step E p s = Some s'"
  shows "recv_inv E p txt D R s'"
  using deliver_next [OF assms(1) _ refl] drain_step_chat [OF assms] by (simp add: insert_absorb)

lemma drain_step_full:
  assumes "recv_inv E p txt D R s" and "drain_step E p s = Some s'" and "recv_full p R s"
  shows "recv_full p R s'"
  using assms(3) drain_step_chat [OF assms(1,2)] unat_plus_1 [OF drain_step_chat(1) [OF assms(1,2)]]
  by (auto simp: recv_full_def gomap_simps le_SucI split: if_splits)

lemma drain_inv:
  "recv_inv E p txt D R s \<Longrightarrow> recv_inv E p txt D R (drainReceiveBuffer E p s)"
proof (induction E p s rule: drainReceiveBuffer.induct)
  case (1 E p s)
  then show ?case by (subst drainReceiveBuffer.simps) (auto split: option.split intro: drain_step_inv)
qed

lemma drain_full:
  "recv_inv E p txt D R s \<Longrightarrow> recv_full p R s \<Longrightarrow> recv_full p R (drainReceiveBuffer E p s)"
proof (induction E p s rule: drainReceiveBuffer.induct)
  case (1 E p s)
  then show ?case
    by (subst drainReceiveBuffer.simps) (auto split: option.split intro: drain_step_inv drain_step_full)
qed

lemma drain_idle: "recv_idle p (drainReceiveBuffer E p s)"
proof (induction E p s rule: drainReceiveBuffer.induct)
  case (1 E p s)
  show ?case
  proof (cases "drain_step E p s")
    case None
    then have "drainReceiveBuffer E p s = s" by (subst drainReceiveBuffer.simps) simp
    moreover have "recv_idle p s"
      using None by (auto simp: recv_idle_def drain_step_def Let_def split: option.splits if_splits)
    ultimately show ?thesis by simp
  next
    case (Some s')
    then show ?thesis using 1 by (subst drainReceiveBuffer.simps) simp
  qed
qed

subsection \<open>One envelope\<close>

lemma handleEnvelope_chat:
  assumes "chat_of txt e" and "addressed E p s e"
  shows "handleEnvelope E p e s = handleChat E p e (txt (eSequence e)) s"
  using assms by (auto simp: handleEnvelope_def chat_of_def addressed_def)

lemma recv_inv_mono:
  assumes "recv_inv E p txt D R s" and "R \<subseteq> R'"
    and "mget 0 (recvSeq s') p = mget 0 (recvSeq s) p" "mget [] (recvBuffer s') p = mget [] (recvBuffer s) p"
    and "delivered E p s' = delivered E p s"
  shows "recv_inv E p txt D R' s'"
  using assms by (auto simp: recv_inv_def Let_def)

lemma recv_inv_buffer:
  assumes inv: "recv_inv E p txt D R s" and e: "chat_of txt e" "mget 0 (recvSeq s) p < eSequence e"
    and room: "length (mget [] (recvBuffer s) p) < maxReceiveBuffer"
    and s': "mget 0 (recvSeq s') p = mget 0 (recvSeq s) p"
      "mget [] (recvBuffer s') p = mput (eSequence e) e (mget [] (recvBuffer s) p)"
      "delivered E p s' = delivered E p s"
  shows "recv_inv E p txt D (insert (eSequence e) R) s'"
  using inv e room gm.len_put [of "mget [] (recvBuffer s) p" "eSequence e" e]
  by (auto simp: recv_inv_def Let_def s' gomap_simps gomap_wf split: if_splits)

lemma mdel_absent: "mlookup m k = None \<Longrightarrow> mdel k m = m"
  by (auto simp: mdel_def AList.delete_eq mlookup_def map_of_eq_None_iff intro!: filter_True) force

text \<open>A full buffer holds every number within reach.\<close>

lemma full_buffer_has:
  assumes inv: "recv_inv E p txt D R s" and idle: "recv_idle p s"
    and full: "maxReceiveBuffer \<le> length (mget [] (recvBuffer s) p)"
    and win: "recv_full p R s"
    and q: "mget 0 (recvSeq s) p + 1 < q" "mget 0 (recvSeq s) p < q" "unat q \<le> unat (mget 0 (recvSeq s) p) + 65"
  shows "mlookup (mget [] (recvBuffer s) p) q \<noteq> None"
proof
  let ?buf = "mget [] (recvBuffer s) p" and ?l = "unat (mget 0 (recvSeq s) p)"
  assume none: "mlookup ?buf q = None"
  have l1: "unat (mget 0 (recvSeq s) p + 1) = Suc ?l" using unat_plus_1 [OF q(2)] .
  have ok: "gomap_ok ?buf" using inv by (simp add: recv_inv_def Let_def)
  have sub: "unat k \<in> {?l + 2..?l + 65} - {unat q}" if k: "mlookup ?buf k = Some e" for k e
  proof -
    have "mget 0 (recvSeq s) p < k" using inv k unfolding recv_inv_def Let_def by blast
    then have "?l < unat k" by (simp add: word_less_nat_alt)
    moreover have "k \<noteq> mget 0 (recvSeq s) p + 1" using idle k by (auto simp: recv_idle_def)
    then have "unat k \<noteq> Suc ?l" using l1 by (simp add: word_unat_eq_iff)
    moreover have "unat k \<noteq> unat q" using none k by (auto simp: word_unat_eq_iff [symmetric])
    ultimately show ?thesis using win k by (auto simp: recv_full_def)
  qed
  have qin: "unat q \<in> {?l + 2..?l + 65}" using q(1,3) l1 by (simp add: word_less_nat_alt)
  let ?ks = "map unat (map fst ?buf)"
  have "distinct ?ks" using ok by (simp add: gomap_ok_def distinct_map inj_on_def word_unat_eq_iff comp_def del: map_map)
  then have "length ?buf = card (set ?ks)" using distinct_card [of ?ks] by simp
  also have "\<dots> \<le> card ({?l + 2..?l + 65} - {unat q})"
    using sub ok by (intro card_mono) (auto simp: mlookup_iff_in_set)
  also have "\<dots> < card {?l + 2..?l + 65}"
    using qin by (intro card_Diff1_less) simp_all
  finally show False using full by (simp add: maxReceiveBuffer_def)
qed

lemma handle_chat_branches:
  assumes e: "chat_of txt e" "addressed E p s e"
  defines "l \<equiv> mget 0 (recvSeq s) p" and "b \<equiv> mget [] (recvBuffer s) p" and "q \<equiv> eSequence e"
    and "s' \<equiv> handleEnvelope E p e s"
  obtains (old) "q \<le> l" "mget 0 (recvSeq s') p = l" "mget [] (recvBuffer s') p = b" "delivered E p s' = delivered E p s"
  | (full) "l < q" "l + 1 < q" "maxReceiveBuffer \<le> length b" "mget 0 (recvSeq s') p = l"
      "mget [] (recvBuffer s') p = b" "delivered E p s' = delivered E p s"
  | (early) "l < q" "l + 1 < q" "length b < maxReceiveBuffer" "mget 0 (recvSeq s') p = l"
      "mget [] (recvBuffer s') p = mput q e b" "delivered E p s' = delivered E p s"
  | (in_order) s1 where "l < q" "q = l + 1" "s' = drainReceiveBuffer E p s1" "mget 0 (recvSeq s1) p = q"
      "mget [] (recvBuffer s1) p = b" "delivered E p s1 = delivered E p s @ [txt q]"
proof -
  have s': "s' = handleChat E p e (txt q) s" unfolding s'_def q_def by (rule handleEnvelope_chat [OF e])
  have f: "recvSeq (fst (sendAck E p i t)) = recvSeq t" "recvBuffer (fst (sendAck E p i t)) = recvBuffer t" for i t
    using only_sends_fields(4,5) [OF sendAck_only_sends] by blast+
  consider "q \<le> l" | "l < q" "l + 1 < q" | "l < q" "q = l + 1" using less_next [of l q] by fastforce
  then show thesis
  proof cases
    case 1
    then show thesis by (intro old) (simp_all add: s' handleChat_def Let_def q_def l_def b_def f)
  next
    case 2
    show thesis
    proof (cases "maxReceiveBuffer \<le> length b")
      case True
      then show thesis
        using 2 by (intro full) (auto simp: s' handleChat_def Let_def q_def l_def b_def gomap_simps mget_def
            intro!: delivered_same split: option.splits)
    next
      case False
      then show thesis
        using 2 by (intro early) (auto simp: s' handleChat_def Let_def q_def l_def b_def f gomap_simps
            intro!: delivered_same)
    qed
  next
    case 3
    then show thesis
      by (intro in_order [of "ack_or_print E p (eID e) (deliverChat E p (txt q) (s\<lparr>recvSeq := mput p q (recvSeq s)\<rparr>))"])
        (simp_all add: s' handleChat_def Let_def q_def l_def b_def gomap_simps delivered_deliver)
  qed
qed

lemma handle_chat_inv:
  assumes inv: "recv_inv E p txt D R s" and idle: "recv_idle p s" and e: "chat_of txt e" "addressed E p s e"
  shows "recv_inv E p txt D (insert (eSequence e) R) (handleEnvelope E p e s)" (is ?inv)
    and "recv_idle p (handleEnvelope E p e s)" (is ?idle)
    and "recv_full p R s \<Longrightarrow> unat (eSequence e) \<le> unat (mget 0 (recvSeq s) p) + 65 \<Longrightarrow>
           recv_full p (insert (eSequence e) R) (handleEnvelope E p e s)" (is "?pre1 \<Longrightarrow> ?pre2 \<Longrightarrow> ?full")
proof -
  let ?l = "mget 0 (recvSeq s) p" and ?b = "mget [] (recvBuffer s) p" and ?q = "eSequence e"
  show ?inv using e
  proof (cases rule: handle_chat_branches)
    case (in_order s1)
    have "mdel ?q ?b = ?b" using idle in_order by (intro mdel_absent) (simp add: recv_idle_def)
    then have "recv_inv E p txt D (insert ?q R) s1"
      using in_order by (intro deliver_next [OF inv, of ?q]) simp_all
    then show ?thesis using in_order drain_inv by simp
  qed (use inv e recv_inv_mono [OF inv subset_insertI] recv_inv_buffer [OF inv e(1)] in auto)
  show ?idle using e
  proof (cases rule: handle_chat_branches)
    case (in_order s1)
    then show ?thesis using drain_idle by simp
  qed (use idle in \<open>auto simp: recv_idle_def gomap_simps\<close>)
  show ?full if win: ?pre1 ?pre2
    using e
  proof (cases rule: handle_chat_branches)
    case old
    then show ?thesis using win by (auto simp: recv_full_def)
  next
    case full
    then show ?thesis using win full_buffer_has [OF inv idle _ win(1)] by (auto simp: recv_full_def)
  next
    case early
    then show ?thesis using win by (auto simp: recv_full_def gomap_simps)
  next
    case (in_order s1)
    have "mdel ?q ?b = ?b" using idle in_order by (intro mdel_absent) (simp add: recv_idle_def)
    then have 1: "recv_inv E p txt D (insert ?q R) s1"
      using in_order by (intro deliver_next [OF inv, of ?q]) simp_all
    have "recv_full p (insert ?q R) s1"
      using win in_order unat_plus_1 [OF in_order(1)] by (auto simp: recv_full_def le_SucI)
    then show ?thesis using in_order 1 drain_full by simp
  qed
qed

section \<open>What receiving leaves alone\<close>

text \<open>Receiving chat messages changes the receive state, the sessions, the tick and the trace.\<close>

definition rcore :: "stream_manager \<Rightarrow> stream_manager" where
  "rcore s = (core s)\<lparr>recvSeq := [], recvBuffer := []\<rparr>"

definition recv_frame :: "stream_manager \<Rightarrow> stream_manager \<Rightarrow> bool" where
  "recv_frame s s' \<longleftrightarrow>
     rcore s' = rcore s \<and> (\<forall>p. (mlookup (sessions s') p = None) = (mlookup (sessions s) p = None)) \<and>
     (gomap_ok (sessions s) \<longrightarrow> gomap_ok (sessions s'))"

lemma recv_frame_refl [simp]: "recv_frame s s"
  by (simp add: recv_frame_def)

lemma recv_frame_trans: "recv_frame s s' \<Longrightarrow> recv_frame s' s'' \<Longrightarrow> recv_frame s s''"
  by (simp add: recv_frame_def)

lemma recv_frame_sends: "only_sends r s s' \<Longrightarrow> recv_frame s s'"
  using only_sends_dom [of r s s'] by (simp add: recv_frame_def rcore_def only_sends_core only_sends_ok)

lemma rcore_fields:
  "streams (rcore s) = streams s" "activeID (rcore s) = activeID s" "sendSeq (rcore s) = sendSeq s"
  "pending (rcore s) = pending s" "node (rcore s) = node s" "nextAddr (rcore s) = nextAddr s"
  "peerNicks (rcore s) = peerNicks s"
  by (simp_all add: rcore_def core_def)

lemma recv_frame_fields:
  assumes "recv_frame s s'"
  shows "streams s' = streams s" "activeID s' = activeID s" "sendSeq s' = sendSeq s"
    "pending s' = pending s" "node s' = node s" "nextAddr s' = nextAddr s" "peerNicks s' = peerNicks s"
  using rcore_fields [of s'] rcore_fields [of s] assms unfolding recv_frame_def by metis+

lemma recv_frame_emit [simp]: "recv_frame s (emit ev s)"
  by (simp add: recv_frame_def rcore_def) (simp add: emit_def)

lemma recv_frame_ticked [simp]: "recv_frame s (ticked s)"
  by (simp add: recv_frame_def rcore_def) (simp add: ticked_def)

lemma recv_frame_recv [simp]:
  "recv_frame s (s\<lparr>recvSeq := x\<rparr>)" "recv_frame s (s\<lparr>recvBuffer := y\<rparr>)"
  "recv_frame s (s\<lparr>recvBuffer := y, recvSeq := x\<rparr>)"
  by (simp_all add: recv_frame_def rcore_def core_def)

lemma recv_frame_ack: "recv_frame s (ack_or_print E p i s)"
proof -
  have "recv_frame s (fst (sendAck E p i s))" by (rule recv_frame_sends [OF sendAck_only_sends])
  then show ?thesis
    by (cases "sendAck E p i s") (auto simp: ack_or_print_def split: option.split intro: recv_frame_trans recv_frame_emit)
qed

lemma recv_frame_deliver: "recv_frame s (deliverChat E p text s)"
  unfolding deliverChat_def Let_def split_def
  by (intro recv_frame_trans [OF _ recv_frame_emit] recv_frame_ticked)

lemma recv_frame_drain_step: "drain_step E p s = Some s' \<Longrightarrow> recv_frame s s'"
  by (auto simp: drain_step_def Let_def split: option.splits if_splits
      intro!: recv_frame_trans [OF _ recv_frame_ack] recv_frame_trans [OF _ recv_frame_deliver]
        recv_frame_trans [OF _ recv_frame_emit])

lemma recv_frame_drain: "recv_frame s (drainReceiveBuffer E p s)"
proof (induction E p s rule: drainReceiveBuffer.induct)
  case (1 E p s)
  then show ?case
    by (subst drainReceiveBuffer.simps) (auto split: option.split dest: recv_frame_drain_step intro: recv_frame_trans)
qed

lemma recv_frame_sendAck: "recv_frame s (fst (sendAck E p i s))"
  by (rule recv_frame_sends [OF sendAck_only_sends])

lemma recv_frame_chat: "recv_frame s (handleChat E p e text s)"
proof -
  have "recv_frame s (s\<lparr>recvBuffer := x, recvBuffer := y\<rparr>)" for x y by simp
  then show ?thesis unfolding handleChat_def Let_def
    by (auto intro!: recv_frame_sendAck recv_frame_trans [OF _ recv_frame_sendAck] recv_frame_trans [OF _ recv_frame_emit]
        recv_frame_trans [OF _ recv_frame_drain] recv_frame_trans [OF _ recv_frame_ack] recv_frame_trans [OF _ recv_frame_deliver])
qed

lemma recv_frame_chat_envelope:
  "chat_of txt e \<Longrightarrow> addressed E p s e \<Longrightarrow> recv_frame s (handleEnvelope E p e s)"
  by (simp add: handleEnvelope_chat recv_frame_chat)

section \<open>Runs\<close>

text \<open>The envelopes of a list, one after the other.\<close>

definition handle_all :: "env \<Rightarrow> pid \<Rightarrow> Envelope list \<Rightarrow> stream_manager \<Rightarrow> stream_manager" where
  "handle_all E p es s = fold (handleEnvelope E p) es s"

text \<open>Every arrival is at most 65 numbers beyond the last delivered one.\<close>

fun within_reach :: "env \<Rightarrow> pid \<Rightarrow> Envelope list \<Rightarrow> stream_manager \<Rightarrow> bool" where
  "within_reach E p [] s \<longleftrightarrow> True"
| "within_reach E p (e # es) s \<longleftrightarrow>
     unat (eSequence e) \<le> unat (mget 0 (recvSeq s) p) + 65 \<and> within_reach E p es (handleEnvelope E p e s)"

lemma addressed_frame: "recv_frame s s' \<Longrightarrow> addressed E p s' e = addressed E p s e"
  by (simp add: addressed_def recv_frame_fields)

lemma handle_all_inv:
  assumes "recv_inv E p txt D R s" and "recv_idle p s" and "\<forall>e \<in> set es. chat_of txt e \<and> addressed E p s e"
  shows "recv_inv E p txt D (R \<union> eSequence ` set es) (handle_all E p es s) \<and> recv_idle p (handle_all E p es s) \<and>
    (recv_full p R s \<longrightarrow> within_reach E p es s \<longrightarrow> recv_full p (R \<union> eSequence ` set es) (handle_all E p es s))"
  using assms
proof (induction es arbitrary: R s)
  case (Cons e es)
  then have e: "chat_of txt e" "addressed E p s e" by auto
  let ?s = "handleEnvelope E p e s"
  note step = handle_chat_inv [OF Cons.prems(1,2) e]
  have "\<forall>e' \<in> set es. chat_of txt e' \<and> addressed E p ?s e'"
    using Cons.prems(3) addressed_frame [OF recv_frame_chat_envelope [OF e]] by auto
  from Cons.IH [OF step(1,2) this] show ?case using step(3) by (simp add: handle_all_def)
qed (simp add: handle_all_def)

text \<open>A peer as \<open>AddStream\<close> leaves it: nothing received yet.\<close>

definition fresh_peer :: "pid \<Rightarrow> stream_manager \<Rightarrow> bool" where
  "fresh_peer p s \<longleftrightarrow> mget 0 (recvSeq s) p = 0 \<and> mget [] (recvBuffer s) p = []"

lemma fresh_recv_inv:
  "fresh_peer p s \<Longrightarrow> recv_inv E p txt (delivered E p s) {} s \<and> recv_idle p s \<and> recv_full p {} s"
  by (auto simp: fresh_peer_def recv_inv_def recv_idle_def recv_full_def Let_def gomap_simps gomap_wf numbered_def word_le_nat_alt)

lemma next_not_arrived:
  assumes "fresh_peer p s" and "\<forall>e \<in> set es. chat_of txt e \<and> addressed E p s e" and "within_reach E p es s"
  shows "mget 0 (recvSeq (handle_all E p es s)) p + 1 \<notin> eSequence ` set es"
proof
  let ?s = "handle_all E p es s"
  let ?l = "mget 0 (recvSeq ?s) p"
  assume a: "?l + 1 \<in> eSequence ` set es"
  then have "?l + 1 \<noteq> 0" using assms(2) by (auto simp: chat_of_def)
  then have "?l < ?l + 1" using unatSuc [of ?l] by (simp add: word_less_nat_alt add.commute)
  moreover have "recv_full p ({} \<union> eSequence ` set es) ?s" "recv_idle p ?s"
    using handle_all_inv [OF _ _ assms(2)] fresh_recv_inv [OF assms(1)] assms(3) by blast+
  ultimately show False using a by (auto simp: recv_full_def recv_idle_def)
qed

section \<open>Properties\<close>

text \<open>
  C13. In-order delivery without gaps or repetition: let the envelopes of a conversation arrive in
  any order, with any losses and repetitions, at a peer that has just connected. What reaches the
  user is exactly the texts number 1, 2, up to the number in \<open>recvSeq\<close>, each once and in this
  order; all these numbers did arrive; and the receive buffer never holds more than 64 messages.
\<close>

theorem in_order_delivery:
  assumes "fresh_peer p s" and "\<forall>e \<in> set es. chat_of txt e \<and> addressed E p s e"
  defines "s' \<equiv> handle_all E p es s"
  shows "delivered E p s' = delivered E p s @ numbered txt (unat (mget 0 (recvSeq s') p)) \<and>
    (\<forall>k. 1 \<le> k \<and> k \<le> mget 0 (recvSeq s') p \<longrightarrow> k \<in> eSequence ` set es) \<and>
    length (mget [] (recvBuffer s') p) \<le> 64"
proof -
  have "recv_inv E p txt (delivered E p s) ({} \<union> eSequence ` set es) s'"
    unfolding s'_def using handle_all_inv [OF _ _ assms(2)] fresh_recv_inv [OF assms(1)] by blast
  then show ?thesis by (simp add: recv_inv_def Let_def maxReceiveBuffer_def)
qed

text \<open>Two messages of a conversation with the example node, the second arriving first.\<close>

definition demo_chat :: "u64 \<Rightarrow> Envelope" where
  "demo_chat k = zero_envelope\<lparr>eVersion := 2, eType := TypeChat, eID := ''m'',
     eConversation := conversationID demo_env ''A'' ''B'', eSender := ''B'', eTimestamp := 1,
     eSequence := k, eBody := chatBody ''hi''\<rparr>"

lemma demo_chat_ok: "k \<noteq> 0 \<Longrightarrow> chat_of (\<lambda>_. ''hi'') (demo_chat k)"
  by (simp add: chat_of_def demo_chat_def unmarshal_chatBody to_valid_ascii TrimSpace_graphic graphic_def)

lemma demo_chat_addressed: "addressed demo_env ''B'' demo_node (demo_chat k)"
  by (simp add: addressed_def demo_node_def newStreamManager_def demo_chat_def demo_env_def)

lemma demo_fresh: "fresh_peer p demo_node"
  by (simp add: fresh_peer_def demo_node_def newStreamManager_def gomap_simps)

lemma demo_delivered: "delivered E p demo_node = []"
  by (simp add: delivered_def demo_node_def newStreamManager_def)

theorem in_order_delivery_witness:
  "delivered demo_env ''B'' (handle_all demo_env ''B'' [demo_chat 2, demo_chat 1] demo_node)
     = numbered (\<lambda>_. ''hi'')
         (unat (mget 0 (recvSeq (handle_all demo_env ''B'' [demo_chat 2, demo_chat 1] demo_node)) ''B''))"
  using in_order_delivery [OF demo_fresh, of "[demo_chat 2, demo_chat 1]" "\<lambda>_. ''hi''" demo_env "''B''"]
  by (simp add: demo_chat_ok demo_chat_addressed)
    (simp add: demo_delivered)

text \<open>
  Nothing that arrived is withheld: as long as each arriving number is at most 65 beyond the
  last one delivered, the number after the last delivered one has not arrived, so the receiver
  always delivers the longest gapless beginning of the conversation it has seen.
\<close>

theorem complete_delivery:
  assumes "fresh_peer p s" and "\<forall>e \<in> set es. chat_of txt e \<and> addressed E p s e" and "within_reach E p es s"
  shows "mget 0 (recvSeq (handle_all E p es s)) p + 1 \<notin> eSequence ` set es"
  using assms by (rule next_not_arrived)

theorem complete_delivery_witness:
  "mget 0 (recvSeq (handle_all demo_env ''B'' [demo_chat 2, demo_chat 1] demo_node)) ''B'' + 1 \<notin> {2, 1}"
  using complete_delivery [OF demo_fresh, of "[demo_chat 2, demo_chat 1]" "\<lambda>_. ''hi''" demo_env "''B''"]
  by (simp add: demo_chat_ok demo_chat_addressed) (simp add: demo_chat_def)

text \<open>
  C14. Everything is delivered in the end: at a peer from which nothing was received yet, if the chat
  messages of this conversation that arrive all have texts that are not blank, and their numbers are exactly 1 to \<open>n\<close>,
  in any order and with any repetitions, and \<open>n\<close> is at most 65, then all \<open>n\<close> texts are delivered in
  order and the receive buffer is empty again. (A blank text is never delivered and keeps back all that
  follow it: \<open>blank_message_blocks\<close>.)
\<close>

theorem any_order_delivers_all:
  assumes "fresh_peer p s" and "\<forall>e \<in> set es. chat_of txt e \<and> addressed E p s e"
    and "(\<lambda>e. unat (eSequence e)) ` set es = {1..n}" and "n \<le> 65"
  shows "delivered E p (handle_all E p es s) = delivered E p s @ numbered txt n \<and>
    mget [] (recvBuffer (handle_all E p es s)) p = []"
proof -
  let ?s = "handle_all E p es s"
  let ?l = "mget 0 (recvSeq ?s) p" and ?buf = "mget [] (recvBuffer ?s) p"
  have bound: "unat (eSequence e) \<le> 65" if "e \<in> set es" for e proof -
    have "unat (eSequence e) \<in> {1..n}" using assms(3) that by blast
    then show ?thesis using assms(4) by simp
  qed
  have "within_reach E p xs t" if "\<forall>e \<in> set xs. unat (eSequence e) \<le> 65" for xs t
    using that by (induction xs arbitrary: t) auto
  then have reach: "within_reach E p es s" using bound by blast
  have "recv_inv E p txt (delivered E p s) ({} \<union> eSequence ` set es) ?s" and idle: "recv_idle p ?s"
    and full: "recv_full p ({} \<union> eSequence ` set es) ?s"
    using handle_all_inv [OF _ _ assms(2)] fresh_recv_inv [OF assms(1)] reach by blast+
  then have inv: "\<And>k e. mlookup ?buf k = Some e \<Longrightarrow> ?l < k \<and> k \<in> eSequence ` set es"
    "\<And>k. 1 \<le> k \<Longrightarrow> k \<le> ?l \<Longrightarrow> k \<in> eSequence ` set es"
    and del: "delivered E p ?s = delivered E p s @ numbered txt (unat ?l)"
    by (simp_all add: recv_inv_def Let_def)
  have seqs: "k \<in> eSequence ` set es \<longleftrightarrow> unat k \<in> {1..n}" for k
    unfolding assms(3) [symmetric] by (auto simp: image_iff word_unat_eq_iff)
  have "unat ?l \<le> n"
  proof (cases "?l = 0")
    case False
    then have "1 \<le> ?l" by (simp add: word_le_nat_alt unat_gt_0 Suc_le_eq)
    then have "?l \<in> eSequence ` set es" using inv(2) by blast
    then show ?thesis by (simp add: seqs)
  qed simp
  moreover have "\<not> unat ?l < n"
  proof
    assume lt: "unat ?l < n"
    then have "unat (?l + 1) = Suc (unat ?l)" using unat_succ [of ?l] assms(4) by simp
    then have "?l + 1 \<in> eSequence ` set es" using lt by (simp add: seqs)
    then show False using next_not_arrived [OF assms(1,2) reach] by contradiction
  qed
  ultimately have l: "unat ?l = n" by simp
  have "mlookup ?buf k = None" for k
    using inv(1) [of k] l by (cases "mlookup ?buf k") (auto simp: seqs word_less_nat_alt)
  then have "?buf = []" by (cases ?buf) (auto simp: mlookup_def split: if_splits prod.splits, metis map_of_Cons_code(2) option.distinct(1) prod.collapse)
  then show ?thesis using del l by simp
qed

theorem any_order_delivers_all_witness:
  "delivered demo_env ''B'' (handle_all demo_env ''B'' [demo_chat 2, demo_chat 1, demo_chat 2] demo_node) = [''hi'', ''hi'']"
proof -
  have "(\<lambda>e. unat (eSequence e)) ` set [demo_chat 2, demo_chat 1, demo_chat 2] = {1..2}"
    by (auto simp: demo_chat_def)
  then show ?thesis
    using any_order_delivers_all [OF demo_fresh, of "[demo_chat 2, demo_chat 1, demo_chat 2]" "\<lambda>_. ''hi''" demo_env "''B''" 2]
    by (simp add: demo_chat_ok demo_chat_addressed)
      (simp add: demo_delivered numbered_def upt_rec)
qed

text \<open>
  A chat envelope with a blank text is dropped without an acknowledgement and without moving on to
  the next number, so no later message of the conversation is delivered.
\<close>

lemma blank_message_blocks:
  assumes "fresh_peer p s" and "addressed E p s e" and "eType e = TypeChat" and "unmarshal_chat (eBody e) = Some t"
    and "TrimSpace t = []" and "\<forall>e' \<in> set es. chat_of txt e' \<and> addressed E p s e' \<and> eSequence e' \<noteq> 1"
  shows "handleEnvelope E p e s = s \<and> delivered E p (handle_all E p (e # es) s) = delivered E p s"
proof -
  have same: "handleEnvelope E p e s = s" using assms by (auto simp: handleEnvelope_def addressed_def)
  let ?s = "handle_all E p es s"
  have "recv_inv E p txt (delivered E p s) ({} \<union> eSequence ` set es) ?s"
    using handle_all_inv [of E p "txt" "delivered E p s" "{}" s es] fresh_recv_inv [OF assms(1)] assms(6) by blast
  then have "\<And>k. 1 \<le> k \<Longrightarrow> k \<le> mget 0 (recvSeq ?s) p \<Longrightarrow> k \<in> eSequence ` set es"
    and d: "delivered E p ?s = delivered E p s @ numbered txt (unat (mget 0 (recvSeq ?s) p))"
    by (auto simp: recv_inv_def Let_def)
  then have "\<not> 1 \<le> mget 0 (recvSeq ?s) p" using assms(6) by fastforce
  then have "unat (mget 0 (recvSeq ?s) p) = 0" by (simp add: word_le_nat_alt)
  with d same show ?thesis by (simp add: handle_all_def numbered_def)
qed

end
