(* ===== verification/Retransmit.thy ===== *)
theory Retransmit
  imports Chat_Receive
begin

text \<open>
  Retransmission of unacknowledged messages (\<open>retransmitDue\<close> of \<open>chat_envelope.go\<close>): the messages
  due are collected under the lock, then each is sent again and its entry brought up to date if it
  is still the one collected. Acknowledgements may arrive between these steps, so the step for one
  message is a definition of its own.
\<close>

section \<open>Operations\<close>

definition due_items :: "int \<Rightarrow> stream_manager \<Rightarrow> (pid \<times> pendingChat) list" where
  "due_items now s =
     concat (map (\<lambda>(remote, messages).
       map (\<lambda>(ident, message). (remote, message))
         (filter (\<lambda>(ident, message). now - lastSent message \<ge> pendingTimeout) messages)) (pending s))"

text \<open>The table after one message was removed from it.\<close>

definition drop_pending :: "pid \<Rightarrow> string \<Rightarrow> stream_manager \<Rightarrow> stream_manager" where
  "drop_pending remote ident s =
     (let messages = mdel ident (mget [] (pending s) remote) in
      if messages = [] then s\<lparr>pending := mdel remote (pending s)\<rparr>
      else s\<lparr>pending := mput remote messages (pending s)\<rparr>)"

definition settle :: "int \<Rightarrow> pid \<Rightarrow> pendingChat \<Rightarrow> send_error option \<Rightarrow> stream_manager \<Rightarrow> stream_manager" where
  "settle now remote message err s =
     (let ident = eID (pc_envelope message);
          messages = mget [] (pending s) remote
      in case mlookup messages ident of
           None \<Rightarrow> s
         | Some current \<Rightarrow>
             if pc_addr current \<noteq> pc_addr message then s
             else if err \<noteq> None \<or> attempts current \<ge> maxPendingRetries
             then emit (Web (NotifyWebError ''Message delivery failed'')) (drop_pending remote ident s)
             else s\<lparr>pending := mput remote
                      (mput ident (current\<lparr>attempts := attempts current + 1, lastSent := now\<rparr>) messages)
                      (pending s)\<rparr>)"

definition resend :: "env \<Rightarrow> int \<Rightarrow> pid \<times> pendingChat \<Rightarrow> stream_manager \<Rightarrow> stream_manager" where
  "resend E now item s =
     (case (mlookup (streams s) (fst item), mlookup (sessions s) (fst item)) of
        (Some stream, Some session) \<Rightarrow>
          (case sendEnvelope E (fst item) stream session (pc_envelope (snd item)) s of
             (s1, err) \<Rightarrow> settle now (fst item) (snd item) err s1)
      | _ \<Rightarrow> s)"

definition retransmitDue :: "env \<Rightarrow> stream_manager \<Rightarrow> stream_manager" where
  "retransmitDue E s =
     (let now = now_ns E (tick s)
      in fold (resend E now) (due_items now s) (ticked s))"

text \<open>
  \<open>retransmitLoop\<close> over the events its \<open>select\<close> receives; before each of them the other goroutines
  have changed the state by the given function. The list ends where the loop still waits.
\<close>

fun retransmitLoop ::
  "env \<Rightarrow> ((stream_manager \<Rightarrow> stream_manager) \<times> loop_event) list \<Rightarrow> stream_manager \<Rightarrow> stream_manager"
where
  "retransmitLoop E [] s = s"
| "retransmitLoop E ((others, TickerFired) # evs) s = retransmitLoop E evs (retransmitDue E (others s))"
| "retransmitLoop E ((others, ContextDone) # evs) s = others s"

section \<open>The table of pending messages\<close>

text \<open>
  The interface of the table: a family of finite maps, one per peer, with no empty map kept.
  Clients see which message waits for which peer.
\<close>

locale pending_table =
  fixes waiting :: "'s \<Rightarrow> 'p \<Rightarrow> 'i \<Rightarrow> 'm option"
    and track :: "'p \<Rightarrow> 'i \<Rightarrow> 'm \<Rightarrow> 's \<Rightarrow> 's"
    and ack :: "'p \<Rightarrow> 'i \<Rightarrow> 's \<Rightarrow> 's"
    and clear :: "'p \<Rightarrow> 's \<Rightarrow> 's"
  assumes waiting_track: "waiting (track p i m s) q j = (if q = p \<and> j = i then Some m else waiting s q j)"
    and waiting_ack: "waiting (ack p i s) q j = (if q = p \<and> j = i then None else waiting s q j)"
    and waiting_clear: "waiting (clear p s) q j = (if q = p then None else waiting s q j)"
begin

lemma ack_track: "waiting (ack p i (track p i m s)) q j = (if q = p \<and> j = i then None else waiting s q j)"
  by (simp add: waiting_track waiting_ack)

lemma acks_order: "waiting (ack p i (ack q j s)) = waiting (ack q j (ack p i s))"
  by (auto simp: waiting_ack fun_eq_iff)

lemma ack_all: "waiting (fold (ack p) is s) q j = (if q = p \<and> j \<in> set is then None else waiting s q j)"
  by (induction "is" arbitrary: s) (auto simp: waiting_ack)

end

definition waiting :: "stream_manager \<Rightarrow> pid \<Rightarrow> string \<Rightarrow> pendingChat option" where
  "waiting s p i = mlookup (mget [] (pending s) p) i"

definition track_entry :: "pid \<Rightarrow> string \<Rightarrow> pendingChat \<Rightarrow> stream_manager \<Rightarrow> stream_manager" where
  "track_entry p i m s = s\<lparr>pending := mput p (mput i m (mget [] (pending s) p)) (pending s)\<rparr>"

lemma waiting_ackPending:
  "waiting (ackPending p i s) q j = (if q = p \<and> j = i then None else waiting s q j)"
proof (cases "mlookup (pending s) p")
  case None
  then show ?thesis by (auto simp: waiting_def ackPending_def mget_def gomap_simps)
next
  case (Some msgs)
  have "mlookup msgs j = None" if "mdel i msgs = []" "j \<noteq> i" for j
    using gm.lookup_del [of i msgs j] that by (simp add: gomap_simps)
  with Some show ?thesis by (auto simp: waiting_def ackPending_def Let_def mget_def gomap_simps)
qed

interpretation pt: pending_table waiting track_entry ackPending clearPending
proof
  show "waiting (track_entry p i m s) q j = (if q = p \<and> j = i then Some m else waiting s q j)" for p i m s q j
    by (auto simp: waiting_def track_entry_def gomap_simps)
  show "waiting (clearPending p s) q j = (if q = p then None else waiting s q j)" for p s q j
    by (auto simp: waiting_def clearPending_def gomap_simps)
qed (rule waiting_ackPending)

lemma drop_pending_ack: "waiting s p i \<noteq> None \<Longrightarrow> drop_pending p i s = ackPending p i s"
  by (auto simp: drop_pending_def ackPending_def Let_def waiting_def mget_def gomap_simps split: option.splits)

lemma trackPending_entry:
  "waiting (trackPending E p e s) q j =
     (if q = p \<and> j = eID e
      then Some \<lparr>pc_envelope = e, lastSent = now_ns E (tick s), attempts = 1, pc_addr = nextAddr s\<rparr>
      else waiting s q j)"
  by (auto simp: waiting_def trackPending_def ticked_def Let_def gomap_simps)

lemma waiting_same: "pending s' = pending s \<Longrightarrow> waiting s' = waiting s"
  by (simp add: waiting_def fun_eq_iff)

lemma waiting_emit [simp]: "waiting (emit ev s) = waiting s"
  by (rule waiting_same) (simp add: emit_def)

lemma waiting_ticked [simp]: "waiting (ticked s) = waiting s"
  by (rule waiting_same) (simp add: ticked_def)

lemma waiting_only_sends: "only_sends r s s' \<Longrightarrow> waiting s' = waiting s"
  by (rule waiting_same) (rule only_sends_fields(6))

section \<open>One message\<close>

definition failed :: "stream_manager \<Rightarrow> nat" where
  "failed s = length (filter (\<lambda>ev. ev = Web (NotifyWebError ''Message delivery failed'')) (out s))"

lemma settle_waiting:
  "waiting (settle now p m err s) q j =
     (if q = p \<and> j = eID (pc_envelope m) then
        (case waiting s p j of
           None \<Rightarrow> None
         | Some cur \<Rightarrow>
             if pc_addr cur \<noteq> pc_addr m then Some cur
             else if err \<noteq> None \<or> attempts cur \<ge> 5 then None
             else Some (cur\<lparr>attempts := attempts cur + 1, lastSent := now\<rparr>))
      else waiting s q j)"
proof (cases "waiting s p (eID (pc_envelope m))")
  case None
  then show ?thesis by (auto simp: settle_def Let_def waiting_def)
next
  case (Some cur)
  then have w: "mlookup (mget [] (pending s) p) (eID (pc_envelope m)) = Some cur" by (simp add: waiting_def)
  consider (stale) "pc_addr cur \<noteq> pc_addr m" | (drop) "pc_addr cur = pc_addr m" "err \<noteq> None \<or> attempts cur \<ge> 5"
    | (keep) "pc_addr cur = pc_addr m" "err = None" "\<not> attempts cur \<ge> 5" by blast
  then show ?thesis
  proof cases
    case drop
    then have "settle now p m err s = emit (Web (NotifyWebError ''Message delivery failed''))
        (ackPending p (eID (pc_envelope m)) s)"
      using w Some by (simp add: settle_def Let_def maxPendingRetries_def drop_pending_ack)
    then show ?thesis using drop Some by (auto simp: waiting_ackPending)
  next
    case keep
    then have "settle now p m err s =
        track_entry p (eID (pc_envelope m)) (cur\<lparr>attempts := attempts cur + 1, lastSent := now\<rparr>) s"
      using w by (simp add: settle_def Let_def maxPendingRetries_def track_entry_def)
    then show ?thesis using keep Some by (auto simp: pt.waiting_track)
  qed (use w Some in \<open>auto simp: settle_def Let_def\<close>)
qed

lemma resend_waiting:
  "waiting (resend E now item s) q j =
     (if q = fst item \<and> j = eID (pc_envelope (snd item)) then
        (case waiting s q j of
           None \<Rightarrow> None
         | Some cur \<Rightarrow>
             if mlookup (streams s) q = None \<or> mlookup (sessions s) q = None \<or> pc_addr cur \<noteq> pc_addr (snd item) then Some cur
             else if snd (sendEnvelope E q (the (mlookup (streams s) q)) (the (mlookup (sessions s) q)) (pc_envelope (snd item)) s) \<noteq> None
                     \<or> attempts cur \<ge> 5 then None
             else Some (cur\<lparr>attempts := attempts cur + 1, lastSent := now\<rparr>))
      else waiting s q j)"
proof (cases "mlookup (streams s) (fst item) = None \<or> mlookup (sessions s) (fst item) = None")
  case True
  then show ?thesis by (auto simp: resend_def split: option.splits)
next
  case False
  then obtain st ses where c: "mlookup (streams s) (fst item) = Some st" "mlookup (sessions s) (fst item) = Some ses"
    by auto
  obtain s1 err where e: "sendEnvelope E (fst item) st ses (pc_envelope (snd item)) s = (s1, err)"
    by (cases "sendEnvelope E (fst item) st ses (pc_envelope (snd item)) s")
  have "only_sends (fst item) s s1" using sendEnvelope_only_sends [of s "fst item" E st ses "pc_envelope (snd item)"] c e by simp
  then have "waiting s1 = waiting s" by (rule waiting_only_sends)
  with c e show ?thesis by (auto simp: resend_def settle_waiting split: option.splits)
qed

text \<open>A message only ever changes its number of attempts and the time of the last one.\<close>

definition later_entry :: "pendingChat option \<Rightarrow> pendingChat option \<Rightarrow> bool" where
  "later_entry old new \<longleftrightarrow>
     (case new of None \<Rightarrow> True
      | Some m' \<Rightarrow> (case old of None \<Rightarrow> False
         | Some m \<Rightarrow> pc_envelope m' = pc_envelope m \<and> pc_addr m' = pc_addr m \<and>
             attempts m \<le> attempts m' \<and> (attempts m \<le> 5 \<longrightarrow> attempts m' \<le> 5)))"

lemma later_entry_refl [simp]: "later_entry x x"
  by (simp add: later_entry_def split: option.split)

lemma later_entry_trans: "later_entry x y \<Longrightarrow> later_entry y z \<Longrightarrow> later_entry x z"
  by (auto simp: later_entry_def split: option.splits)

lemma resend_later: "later_entry (waiting s q j) (waiting (resend E now item s) q j)"
  by (auto simp: resend_waiting later_entry_def split: option.split)

text \<open>
  A pass over the due messages during which acknowledgements arrive: before each message is sent
  again, the given acknowledgements are handled.
\<close>

fun pass_with_acks ::
  "env \<Rightarrow> int \<Rightarrow> ((pid \<times> string) list \<times> pid \<times> pendingChat) list \<Rightarrow> stream_manager \<Rightarrow> stream_manager"
where
  "pass_with_acks E now [] s = s"
| "pass_with_acks E now ((acks, item) # rest) s =
     pass_with_acks E now rest (resend E now item (fold (\<lambda>(p, i). ackPending p i) acks s))"

lemma acks_later: "later_entry (waiting s q j) (waiting (fold (\<lambda>(p, i). ackPending p i) acks s) q j)"
proof (induction acks arbitrary: s)
  case (Cons a acks)
  have "later_entry (waiting s q j) (waiting (ackPending (fst a) (snd a) s) q j)"
    by (auto simp: waiting_ackPending later_entry_def split: option.split)
  from later_entry_trans [OF this Cons.IH] show ?case by (simp add: split_def)
qed simp

lemma acks_remove:
  "(q, j) \<in> set acks \<Longrightarrow> waiting (fold (\<lambda>(p, i). ackPending p i) acks s) q j = None"
proof (induction acks arbitrary: s)
  case (Cons a acks)
  show ?case
  proof (cases "(q, j) \<in> set acks")
    case False
    with Cons.prems have "a = (q, j)" by auto
    moreover have "later_entry None (waiting (fold (\<lambda>(p, i). ackPending p i) acks (ackPending q j s)) q j)"
      using acks_later [of "ackPending q j s" q j acks] by (simp add: waiting_ackPending)
    ultimately show ?thesis by (auto simp: later_entry_def split: option.splits)
  qed (use Cons in \<open>auto simp: split_def\<close>)
qed simp

lemma pass_later: "later_entry (waiting s q j) (waiting (pass_with_acks E now steps s) q j)"
proof (induction E now steps s rule: pass_with_acks.induct)
  case (2 E now acks item rest s)
  from later_entry_trans [OF acks_later later_entry_trans [OF resend_later 2]] show ?case by simp
qed simp

section \<open>Properties\<close>

text \<open>
  C25. Acknowledgements win over retransmission: whatever is collected for a pass and whenever the
  acknowledgements arrive in it, an acknowledged message is not waiting after the pass, no message
  becomes waiting that was not, and one that still waits is the same message with at least as many
  attempts, never more than five.
\<close>

theorem acknowledged_stays_acknowledged:
  "(\<forall>acks item. (acks, item) \<in> set steps \<longrightarrow> (p, i) \<in> set acks \<longrightarrow>
      waiting (pass_with_acks E now steps s) p i = None) \<and>
   (\<forall>m'. waiting (pass_with_acks E now steps s) p i = Some m' \<longrightarrow>
      (\<exists>m. waiting s p i = Some m \<and> pc_envelope m' = pc_envelope m \<and> pc_addr m' = pc_addr m \<and>
         attempts m \<le> attempts m' \<and> (attempts m \<le> 5 \<longrightarrow> attempts m' \<le> 5)))"
proof -
  have "waiting (pass_with_acks E now steps s) p i = None"
    if "(acks, item) \<in> set steps" "(p, i) \<in> set acks" for acks item
    using that
  proof (induction E now steps s rule: pass_with_acks.induct)
    case (2 E now acks' item' rest s)
    show ?case
    proof (cases "(acks, item) \<in> set rest")
      case False
      then have "acks' = acks" using 2(2) by simp
      let ?s = "resend E now item' (fold (\<lambda>(p, i). ackPending p i) acks s)"
      have "waiting ?s p i = None"
        using resend_later [of "fold (\<lambda>(p, i). ackPending p i) acks s" p i E now item'] acks_remove [OF 2(3)]
        by (simp add: later_entry_def split: option.splits)
      then show ?thesis using pass_later [of ?s p i E now rest] \<open>acks' = acks\<close>
        by (simp add: later_entry_def split: option.splits)
    qed (use 2 in auto)
  qed simp
  then show ?thesis using pass_later [of s p i E now steps]
    by (auto simp: later_entry_def split: option.splits)
qed

definition demo_pending :: pendingChat where
  "demo_pending = \<lparr>pc_envelope = demo_chat 1, lastSent = 0, attempts = 1, pc_addr = 0\<rparr>"

theorem acknowledged_stays_acknowledged_witness:
  "waiting (pass_with_acks demo_env 0 [([], (''B'', demo_pending)), ([(''B'', ''m'')], (''C'', demo_pending))]
     (track_entry ''B'' ''m'' demo_pending demo_node)) ''B'' ''m'' = None"
  using acknowledged_stays_acknowledged [of "[([], (''B'', demo_pending)), ([(''B'', ''m'')], (''C'', demo_pending))]"
    "''B''" "''m''" demo_env 0 "track_entry ''B'' ''m'' demo_pending demo_node"]
  by (auto simp del: pass_with_acks.simps)

subsection \<open>Giving up\<close>

text \<open>A connection over which no write fails, with a clock that never goes back.\<close>

definition working :: "env \<Rightarrow> bool" where
  "working E \<longleftrightarrow> (\<forall>t. write_ok E t \<and> now_ns E t \<le> now_ns E (Suc t))"

definition usable :: "stream_manager \<Rightarrow> pid \<Rightarrow> bool" where
  "usable s p \<longleftrightarrow>
     mlookup (streams s) p \<noteq> None \<and> (\<exists>ses. mlookup (sessions s) p = Some ses \<and> sendAEAD ses \<noteq> None)"

definition lone_pending :: "stream_manager \<Rightarrow> pid \<Rightarrow> pendingChat \<Rightarrow> bool" where
  "lone_pending s p m \<longleftrightarrow> pending s = [(p, [(eID (pc_envelope m), m)])]"

definition wires :: "stream_manager \<Rightarrow> nat" where
  "wires s = length (filter is_wire (out s))"

lemma working_mono: "working E \<Longrightarrow> t \<le> t' \<Longrightarrow> now_ns E t \<le> now_ns E t'"
  by (rule lift_Suc_mono_le) (simp_all add: working_def)

lemma v2_rules_tick: "working E \<Longrightarrow> v2_rules (now_ms E t) e \<Longrightarrow> t \<le> t' \<Longrightarrow> v2_rules (now_ms E t') e"
  using v2_rules_later [of "now_ms E t" e "now_ms E t'"] working_mono [of E t t'] by (simp add: now_ms_def zdiv_mono1)

lemma retransmit_lone:
  assumes st: "working E" and us: "usable s p" and lone: "lone_pending s p m"
    and due: "lastSent m + pendingTimeout \<le> now_ns E (tick s)"
    and e: "v2_rules (now_ms E (tick s)) (pc_envelope m)" "wire_exact (pc_envelope m)"
  defines "s' \<equiv> retransmitDue E s"
  shows "tick s' = tick s + 3" "usable s' p" "wires s' = wires s + 1"
    "attempts m \<ge> 5 \<Longrightarrow> pending s' = [] \<and> failed s' = failed s + 1"
    "attempts m < 5 \<Longrightarrow> lone_pending s' p (m\<lparr>attempts := attempts m + 1, lastSent := now_ns E (tick s)\<rparr>)
       \<and> failed s' = failed s"
proof -
  let ?e = "pc_envelope m" and ?now = "now_ns E (tick s)"
  obtain stm ses k where c: "mlookup (streams s) p = Some stm" "mlookup (sessions s) p = Some ses" "sendAEAD ses = Some k"
    using us by (auto simp: usable_def)
  have items: "due_items ?now s = [(p, m)]"
    using lone due by (simp add: due_items_def lone_pending_def)
  have r: "v2_rules (now_ms E (tick (ticked s))) ?e" by (rule v2_rules_tick [OF st e(1)]) (simp add: ticked_def)
  have w: "write_ok E (Suc (tick (ticked s)))" using st by (simp add: working_def)
  define s1 where "s1 = fst (sendEnvelope E p stm ses ?e (ticked s))"
  note send = sendEnvelope_ok [OF r e(2) c(3) w, of p stm]
  have s1: "tick s1 = tick s + 3" "pending s1 = pending s" "streams s1 = streams s"
    "mlookup (sessions s1) p = Some (ses\<lparr>sendCtr := sendCtr ses + 1\<rparr>)" "wires s1 = wires s + 1" "failed s1 = failed s"
    unfolding s1_def send by (simp_all add: emit_def ticked_def gomap_simps wires_def failed_def is_wire_def)
  have "s' = settle ?now p m None s1"
  proof -
    have "mlookup (streams (ticked s)) p = Some stm" "mlookup (sessions (ticked s)) p = Some ses"
      using c by (simp_all add: ticked_def)
    moreover have "sendEnvelope E p stm ses ?e (ticked s) = (s1, None)" unfolding s1_def send by simp
    ultimately show ?thesis by (simp add: s'_def retransmitDue_def Let_def items resend_def)
  qed
  moreover have "mget [] (pending s1) p = [(eID ?e, m)]"
    using lone s1(2) by (simp add: lone_pending_def mget_def mlookup_def)
  ultimately have s': "s' = (if attempts m \<ge> 5
      then emit (Web (NotifyWebError ''Message delivery failed'')) (s1\<lparr>pending := []\<rparr>)
      else s1\<lparr>pending := [(p, [(eID ?e, m\<lparr>attempts := attempts m + 1, lastSent := ?now\<rparr>)])]\<rparr>)"
    using lone s1(2)
    by (simp add: settle_def Let_def mlookup_def maxPendingRetries_def drop_pending_def mdel_def lone_pending_def mput_def)
  show "tick s' = tick s + 3" "usable s' p" "wires s' = wires s + 1"
    using s1 c by (simp_all add: s' usable_def emit_def wires_def is_wire_def)
  show "attempts m \<ge> 5 \<Longrightarrow> pending s' = [] \<and> failed s' = failed s + 1"
    using s1 by (simp add: s' emit_def failed_def)
  show "attempts m < 5 \<Longrightarrow> lone_pending s' p (m\<lparr>attempts := attempts m + 1, lastSent := ?now\<rparr>) \<and> failed s' = failed s"
    using s1 by (simp add: s' lone_pending_def failed_def)
qed

text \<open>A pass at which nothing is due only reads the clock.\<close>

lemma retransmit_idle: "due_items (now_ns E (tick s)) s = [] \<Longrightarrow> retransmitDue E s = ticked s"
  by (simp add: retransmitDue_def Let_def)

lemma idle_items:
  "pending s = [] \<Longrightarrow> due_items now s = []"
  "lone_pending s p m \<Longrightarrow> \<not> lastSent m + pendingTimeout \<le> now \<Longrightarrow> due_items now s = []"
  by (simp_all add: due_items_def lone_pending_def)

text \<open>The passes of the loop; before the pass \<open>i\<close> the clock was read \<open>f i\<close> times elsewhere.\<close>

definition passes :: "env \<Rightarrow> (nat \<Rightarrow> nat) \<Rightarrow> nat \<Rightarrow> stream_manager \<Rightarrow> stream_manager" where
  "passes E f n s = retransmitLoop E (map (\<lambda>i. (ticked ^^ f i, TickerFired)) [0..<n]) s"

lemma passes_Suc: "passes E f (Suc n) s = retransmitDue E ((ticked ^^ f n) (passes E f n s))"
proof -
  have "retransmitLoop E (map (\<lambda>i. (g i, TickerFired)) is @ [(h, TickerFired)]) s
      = retransmitDue E (h (retransmitLoop E (map (\<lambda>i. (g i, TickerFired)) is) s))" for g h "is"
    by (induction "is" arbitrary: s) simp_all
  then show ?thesis by (simp add: passes_def)
qed

lemma ticks_fields:
  "tick ((ticked ^^ n) s) = tick s + n" "pending ((ticked ^^ n) s) = pending s" "streams ((ticked ^^ n) s) = streams s"
  "sessions ((ticked ^^ n) s) = sessions s" "out ((ticked ^^ n) s) = out s"
  by (induction n) (simp_all add: ticked_def)

text \<open>A message after its first transmission and \<open>k\<close> more, or given up.\<close>

definition resent :: "env \<Rightarrow> pid \<Rightarrow> pendingChat \<Rightarrow> stream_manager \<Rightarrow> pendingChat \<Rightarrow> stream_manager \<Rightarrow> bool" where
  "resent E p m s m' s' \<longleftrightarrow>
     lone_pending s' p m' \<and> pc_envelope m' = pc_envelope m \<and> 1 \<le> attempts m' \<and> attempts m' \<le> 5 \<and>
     int (wires s') = int (wires s) + (attempts m' - 1) \<and> failed s' = failed s \<and>
     lastSent m + (attempts m' - 1) * pendingTimeout \<le> lastSent m'"

definition given_up :: "stream_manager \<Rightarrow> stream_manager \<Rightarrow> bool" where
  "given_up s s' \<longleftrightarrow> pending s' = [] \<and> wires s' = wires s + 5 \<and> failed s' = failed s + 1"

lemma resent_same:
  assumes "pending s'' = pending s'" and "out s'' = out s'"
  shows "resent E p m s m' s'' = resent E p m s m' s'" "given_up s s'' = given_up s s'"
  using assms by (simp_all add: resent_def given_up_def lone_pending_def wires_def failed_def)

lemma resent_ticked [simp]: "resent E p m s m' (ticked s') = resent E p m s m' s'" "given_up s (ticked s') = given_up s s'"
  by (rule resent_same; simp add: ticked_def)+

lemma resent_pass:
  assumes E: "working E" and us: "usable s' p" and m': "resent E p m s m' s'"
    and e: "v2_rules (now_ms E (tick s')) (pc_envelope m)" "wire_exact (pc_envelope m)"
  shows "usable (retransmitDue E s') p" "tick s' < tick (retransmitDue E s')"
    "\<not> lastSent m' + pendingTimeout \<le> now_ns E (tick s') \<Longrightarrow> retransmitDue E s' = ticked s'"
    "lastSent m' + pendingTimeout \<le> now_ns E (tick s') \<Longrightarrow>
      (\<exists>m2. resent E p m s m2 (retransmitDue E s') \<and> attempts m2 = attempts m' + 1) \<or> given_up s (retransmitDue E s')"
proof -
  have l: "lone_pending s' p m'" and env: "pc_envelope m' = pc_envelope m" using m' by (simp_all add: resent_def)
  show idle: "\<not> lastSent m' + pendingTimeout \<le> now_ns E (tick s') \<Longrightarrow> retransmitDue E s' = ticked s'"
    using retransmit_idle idle_items(2) [OF l] by simp
  show due: "(\<exists>m2. resent E p m s m2 (retransmitDue E s') \<and> attempts m2 = attempts m' + 1) \<or> given_up s (retransmitDue E s')"
    if d: "lastSent m' + pendingTimeout \<le> now_ns E (tick s')"
  proof -
    note pass = retransmit_lone [OF E us l d, unfolded env, OF e]
    show ?thesis
    proof (cases "attempts m' < 5")
      case True
      let ?m2 = "m'\<lparr>attempts := attempts m' + 1, lastSent := now_ns E (tick s')\<rparr>"
      have "lastSent m + attempts m' * pendingTimeout \<le> now_ns E (tick s')"
        using m' d by (simp add: resent_def left_diff_distrib)
      then have "resent E p m s ?m2 (retransmitDue E s')" using m' pass(3,5) True by (simp add: resent_def)
      then show ?thesis by (intro disjI1 exI [of _ ?m2]) simp
    next
      case False
      then show ?thesis using m' pass(3,4) by (simp add: resent_def given_up_def)
    qed
  qed
  show "usable (retransmitDue E s') p" "tick s' < tick (retransmitDue E s')"
    using retransmit_lone(1,2) [OF E us l _ e [folded env]] idle us
    by (cases "lastSent m' + pendingTimeout \<le> now_ns E (tick s')"; simp add: usable_def ticked_def)+
qed

lemma passes_resent:
  assumes E: "working E" and us: "usable s p" and l: "lone_pending s p m" "attempts m = 1"
    and e: "v2_rules (now_ms E (tick s)) (pc_envelope m)" "wire_exact (pc_envelope m)"
  shows "usable (passes E f n s) p \<and> tick s + n \<le> tick (passes E f n s) \<and>
    ((\<exists>m'. resent E p m s m' (passes E f n s)) \<or> given_up s (passes E f n s))"
proof (induction n)
  case 0
  then show ?case using us l by (auto simp: passes_def resent_def)
next
  case (Suc n)
  let ?t = "passes E f n s" and ?t' = "(ticked ^^ f n) (passes E f n s)"
  have us': "usable ?t' p" using Suc by (simp add: usable_def ticks_fields)
  have later: "tick s + n \<le> tick ?t'" using Suc by (simp add: ticks_fields)
  have e': "v2_rules (now_ms E (tick ?t')) (pc_envelope m)" using v2_rules_tick [OF E e(1)] later by simp
  show ?case
  proof (cases "given_up s ?t")
    case True
    then have "retransmitDue E ?t' = ticked ?t'"
      using retransmit_idle idle_items(1) by (simp add: given_up_def ticks_fields)
    then show ?thesis using us' later True
      using resent_same(2) [of "ticked ?t'" ?t] by (simp add: passes_Suc) (simp add: usable_def ticked_def ticks_fields)
  next
    case False
    with Suc obtain m' where "resent E p m s m' ?t" by blast
    then have m': "resent E p m s m' ?t'" by (simp add: resent_same(1) [of ?t' ?t] ticks_fields)
    note pass = resent_pass [OF E us' m' e' e(2)]
    have "(\<exists>m2. resent E p m s m2 (retransmitDue E ?t')) \<or> given_up s (retransmitDue E ?t')"
      using pass(3,4) m' resent_same(1) [of "ticked ?t'" ?t'] by (cases "lastSent m' + pendingTimeout \<le> now_ns E (tick ?t')")
        (auto simp: ticked_def)
    then show ?thesis using pass(1,2) later by (simp add: passes_Suc)
  qed
qed

lemma passes_move:
  assumes E: "working E" and us: "usable s p" and l: "lone_pending s p m" "attempts m = 1"
    and e: "v2_rules (now_ms E (tick s)) (pc_envelope m)" "wire_exact (pc_envelope m)"
    and m': "resent E p m s m' (passes E f n s)" and clock: "\<forall>x. \<exists>t. x \<le> now_ns E t"
  shows "\<exists>n' > n. (\<exists>m2. resent E p m s m2 (passes E f n' s) \<and> attempts m2 = attempts m' + 1) \<or> given_up s (passes E f n' s)"
proof (rule ccontr)
  assume stuck: "\<not> ?thesis"
  have "resent E p m s m' (passes E f (n + k) s)" for k
  proof (induction k)
    case (Suc k)
    let ?t' = "(ticked ^^ f (n + k)) (passes E f (n + k) s)"
    have t': "resent E p m s m' ?t'" using Suc by (simp add: resent_same(1) [of ?t' "passes E f (n + k) s"] ticks_fields)
    note inv = passes_resent [OF E us l e, of f "n + k"]
    have us': "usable ?t' p" using inv by (simp add: usable_def ticks_fields)
    have e': "v2_rules (now_ms E (tick ?t')) (pc_envelope m)" using v2_rules_tick [OF E e(1)] inv by (simp add: ticks_fields)
    note pass = resent_pass [OF E us' t' e' e(2), folded passes_Suc]
    have "n < Suc (n + k)" by simp
    then have "\<not> lastSent m' + pendingTimeout \<le> now_ns E (tick ?t')" using pass(4) stuck by blast
    then have "passes E f (Suc (n + k)) s = ticked ?t'" by (rule pass(3))
    then show ?case using t' by simp
  qed (use m' in simp)
  note still = this
  obtain x where x: "lastSent m' + pendingTimeout \<le> now_ns E x" using clock by blast
  let ?t' = "(ticked ^^ f (n + x)) (passes E f (n + x) s)"
  have t': "resent E p m s m' ?t'" using still [of x] by (simp add: resent_same(1) [of ?t' "passes E f (n + x) s"] ticks_fields)
  note inv = passes_resent [OF E us l e, of f "n + x"]
  have us': "usable ?t' p" and late: "x \<le> tick ?t'" using inv by (simp_all add: usable_def ticks_fields)
  have e': "v2_rules (now_ms E (tick ?t')) (pc_envelope m)" using v2_rules_tick [OF E e(1)] inv by (simp add: ticks_fields)
  have "lastSent m' + pendingTimeout \<le> now_ns E (tick ?t')" using x working_mono [OF E late] by simp
  note moved = resent_pass(4) [OF E us' t' e' e(2) this, folded passes_Suc]
  have "n < Suc (n + x)" by simp
  then show False using moved stuck by blast
qed


definition demo_waiting :: stream_manager where
  "demo_waiting = demo_node\<lparr>streams := [(''B'', 1)], sessions := [(''B'', low_session)],
     pending := [(''B'', [(''id1'', demo_pending\<lparr>pc_envelope := demo_envelope\<rparr>)])]\<rparr>"


end
