(* ===== verification/Connection.thy ===== *)
theory Connection
  imports Retransmit
begin

text \<open>
  Opening and closing connections (\<open>main.go\<close>): \<open>AddStream\<close> with the handshake, the approval of
  incoming requests by the user (\<open>HandleIncomingStream\<close>, \<open>RespondToConnectionRequest\<close>,
  \<open>RespondToConnectionRequestByNum\<close>), dialling (\<open>connectToPeer\<close>) and disconnecting.

  A connection is the record \<open>conn\<close>: the number of the stream, the remote peer, the identity keys
  and the randomness of the handshake, and the bytes the remote side sends. The libp2p host and the
  multiaddress parser are code outside the repository: the record \<open>net\<close> says what they return.

  \<open>HandleIncomingStream\<close> waits for the user in its middle, so it is two definitions: the request up
  to the wait, and what follows the decision. A channel of capacity one holds the decision.
\<close>

section \<open>Connections\<close>

definition ConnReqPrefix :: string where "ConnReqPrefix = ''__CONNREQ__:''"
definition ConnAcceptMsg :: string where "ConnAcceptMsg = ''__ACCEPT__''"
definition ConnRejectMsg :: string where "ConnRejectMsg = ''__REJECT__''"

record conn =
  c_stream :: nat
  c_peer :: pid
  c_privkey :: "privkey option"
  c_pubkey :: "pubkey option"
  c_random :: "bytes result"
  c_flush :: "nat \<Rightarrow> bool"
  c_input :: bytes

text \<open>\<open>readLine\<close>: the trimmed text up to the first newline and the rest, \<open>None\<close> at the end of input.\<close>

definition readLine :: "bytes \<Rightarrow> (string \<times> bytes) option" where
  "readLine input =
     (case ReadString input of None \<Rightarrow> None | Some (line, rest) \<Rightarrow> Some (TrimSpace (butlast line), rest))"

definition send_nickname :: "env \<Rightarrow> pid \<Rightarrow> stream_manager \<Rightarrow> stream_manager" where
  "send_nickname E p s =
     (if localNick s = [] then s
      else (case sendControl E p (control_zero\<lparr>cbKind := controlNickname, cbName := localNick s\<rparr>) s of
         (s', None) \<Rightarrow> s'
       | (s', Some err) \<Rightarrow> emit (Console (NicknameFailed p)) s'))"

text \<open>The entry of a new connection into the tables.\<close>

definition register :: "pid \<Rightarrow> nat \<Rightarrow> session \<Rightarrow> stream_manager \<Rightarrow> stream_manager" where
  "register p stream session s =
     s\<lparr>streams := mput p stream (streams s), sessions := mput p session (sessions s),
       sendSeq := mput p 0 (sendSeq s), recvSeq := mput p 0 (recvSeq s),
       recvBuffer := mput p [] (recvBuffer s),
       activeID := if activeID s = [] then p else activeID s\<rparr>"

definition AddStream :: "env \<Rightarrow> conn \<Rightarrow> stream_manager \<Rightarrow> stream_manager" where
  "AddStream E c s =
     (case node s of
        None \<Rightarrow> emit (Closed (c_stream c)) s
      | Some local \<Rightarrow>
          (case Handshake (kex E) (c_flush c) (c_random c) (c_privkey c) (c_pubkey c) (c_input c) of
             (written, Inl err) \<Rightarrow>
               emit (Closed (c_stream c))
                 (emit (Console (HandshakeFailed (c_peer c) err)) (emit (Wire (c_stream c) written) s))
           | (written, Inr (session, rest)) \<Rightarrow>
               (let s1 = register (c_peer c) (c_stream c) session (emit (Wire (c_stream c) written) s);
                    s2 = send_nickname E (c_peer c) (emit (StartReader (c_stream c) rest) s1);
                    s3 = emit (Web NotifyWebPeerUpdate) s2
                in if hasHistory s3 then emit (SendHistory (peer_String E (c_peer c))) s3 else s3)))"

section \<open>Incoming requests\<close>

record request =
  rq_num :: int
  rq_chan :: nat
  rq_nick :: string
  rq_rest :: bytes

definition incoming_request :: "env \<Rightarrow> conn \<Rightarrow> stream_manager \<Rightarrow> stream_manager \<times> request option" where
  "incoming_request E c s =
     (case readLine (c_input c) of
        None \<Rightarrow> (emit (Closed (c_stream c)) s, None)
      | Some (line, rest) \<Rightarrow>
          if \<not> HasPrefix line ConnReqPrefix then (emit (Closed (c_stream c)) s, None)
          else
            (let short = shortID E (c_peer c);
                 given = TrimPrefix line ConnReqPrefix;
                 nickname = (if given = [] then short else given);
                 num = nextRequestNum s + 1;
                 ch = nextAddr s;
                 s1 = s\<lparr>nextRequestNum := num, nextAddr := Suc ch, chans := mput ch [] (chans s),
                        pendingApprovals := mput (c_peer c) ch (pendingApprovals s),
                        pendingRequestNums := mput num (c_peer c) (pendingRequestNums s)\<rparr>;
                 s2 = emit (Console (ConnectionRequestLine num nickname short)) s1
             in (emit (Web (NotifyConnectionRequest (peer_String E (c_peer c)) short nickname)) s2,
                 Some \<lparr>rq_num = num, rq_chan = ch, rq_nick = nickname, rq_rest = rest\<rparr>)))"

definition cleanup_request :: "pid \<Rightarrow> int \<Rightarrow> stream_manager \<Rightarrow> stream_manager" where
  "cleanup_request p num s =
     (let nums = mdel num (pendingRequestNums s) in
      s\<lparr>pendingApprovals := mdel p (pendingApprovals s), pendingRequestNums := nums,
        nextRequestNum := if nums = [] then 0 else nextRequestNum s\<rparr>)"

text \<open>The \<open>select\<close> takes the decision from the channel or the timeout; \<open>None\<close> while it still waits.\<close>

definition incoming_decision ::
  "env \<Rightarrow> conn \<Rightarrow> request \<Rightarrow> bool \<Rightarrow> stream_manager \<Rightarrow> stream_manager option"
where
  "incoming_decision E c rq timed_out s =
     (let p = c_peer c;
          finish = (\<lambda>accepted s.
            cleanup_request p (rq_num rq)
              (if accepted
               then AddStream E (c\<lparr>c_input := rq_rest rq\<rparr>) (emit (Wire (c_stream c) (ConnAcceptMsg @ [CHR 0x0A])) s)
               else emit (Closed (c_stream c))
                      (emit (Console (ConnectionRejected (rq_nick rq) (shortID E p)))
                        (emit (Wire (c_stream c) (ConnRejectMsg @ [CHR 0x0A])) s))))
      in if timed_out then Some (finish False (emit (Console (ConnectionTimedOut (rq_num rq) (rq_nick rq))) s))
         else (case mget [] (chans s) (rq_chan rq) of
                 [] \<Rightarrow> None
               | b # bs \<Rightarrow> Some (finish b (s\<lparr>chans := mput (rq_chan rq) bs (chans s)\<rparr>))))"

text \<open>Sending on a channel of capacity one; \<open>None\<close> when the sender blocks.\<close>

definition chan_send :: "nat \<Rightarrow> bool \<Rightarrow> stream_manager \<Rightarrow> stream_manager option" where
  "chan_send ch b s =
     (case mget [] (chans s) ch of [] \<Rightarrow> Some (s\<lparr>chans := mput ch [b] (chans s)\<rparr>) | _ \<Rightarrow> None)"

definition RespondToConnectionRequest :: "env \<Rightarrow> string \<Rightarrow> bool \<Rightarrow> stream_manager \<Rightarrow> stream_manager option" where
  "RespondToConnectionRequest E peerIDStr accepted s =
     (case peer_Decode E peerIDStr of
        None \<Rightarrow> Some s
      | Some p \<Rightarrow>
          (case mlookup (pendingApprovals s) p of None \<Rightarrow> Some s | Some ch \<Rightarrow> chan_send ch accepted s))"

definition RespondToConnectionRequestByNum :: "int \<Rightarrow> bool \<Rightarrow> stream_manager \<Rightarrow> stream_manager option" where
  "RespondToConnectionRequestByNum num accepted s =
     (case mlookup (pendingRequestNums s) num of
        None \<Rightarrow> Some (emit (Console (NoPendingRequest num)) s)
      | Some p \<Rightarrow>
          (case mlookup (pendingApprovals s) p of None \<Rightarrow> Some s | Some ch \<Rightarrow> chan_send ch accepted s))"

section \<open>Dialling and disconnecting\<close>

record net =
  NewMultiaddr :: "string \<Rightarrow> bool"
  AddrInfoFromP2pAddr :: "string \<Rightarrow> pid option"
  Connect :: "pid \<Rightarrow> string option"
  NewStream :: "pid \<Rightarrow> conn option"
  ConnReqSent :: bool
  ResponseInTime :: bool

definition say :: "string \<Rightarrow> stream_manager \<Rightarrow> stream_manager" where
  "say line s = emit (Console (PlainLine line)) s"

definition fail_with :: "string \<Rightarrow> string \<Rightarrow> stream_manager \<Rightarrow> stream_manager" where
  "fail_with line web s = emit (Web (NotifyWebError web)) (say line s)"

definition announce_connected :: "env \<Rightarrow> pid \<Rightarrow> stream_manager \<Rightarrow> stream_manager" where
  "announce_connected E p s =
     (let (nick, short) = displayName E p s
      in emit (Console (Connected nick short)) s)"

definition connectToPeer :: "env \<Rightarrow> net \<Rightarrow> string \<Rightarrow> stream_manager \<Rightarrow> stream_manager" where
  "connectToPeer E N address s =
     (if \<not> NewMultiaddr N address then fail_with ''Invalid multiaddr'' ''Invalid multiaddress'' s
      else (case AddrInfoFromP2pAddr N address of
         None \<Rightarrow> fail_with ''Invalid peer info'' ''Invalid peer information'' s
       | Some p \<Rightarrow>
           if mlookup (streams s) p \<noteq> None
           then fail_with ''Already connected to this peer'' ''Already connected to this peer'' s
           else
             (let s1 = say ''Connecting to peer...'' s in
              case Connect N p of
                Some err \<Rightarrow> fail_with ''Connection failed'' (''Connection failed: '' @ err) s1
              | None \<Rightarrow>
                  (case NewStream N p of
                     None \<Rightarrow> fail_with ''Failed to open stream'' ''Could not open a chat stream'' s1
                   | Some c \<Rightarrow>
                       if \<not> ConnReqSent N then
                         emit (Closed (c_stream c))
                           (fail_with ''Failed to send connection request'' ''Could not send the connection request'' s1)
                       else
                         (let s2 = emit (Wire (c_stream c) (ConnReqPrefix @ localNick s1 @ [CHR 0x0A])) s1 in
                          if \<not> ResponseInTime N then
                            emit (Closed (c_stream c))
                              (fail_with ''Connection request timed out'' ''Connection request timed out'' s2)
                          else (case readLine (c_input c) of
                             None \<Rightarrow> emit (Closed (c_stream c))
                                       (fail_with ''No response from peer'' ''No response from the peer'' s2)
                           | Some (response, rest) \<Rightarrow>
                               if response \<noteq> ConnAcceptMsg then
                                 emit (Closed (c_stream c))
                                   (emit (Web (NotifyWebConnectionRejected (peer_String E p)))
                                     (say ''Connection rejected by peer'' s2))
                               else
                                 announce_connected E p
                                   (AddStream E (c\<lparr>c_input := rest\<rparr>)
                                     (say ''Connection accepted! Establishing session...'' s2))))))))"

text \<open>Closing a stream; the read loop of the stream then ends and forgets the peer.\<close>

definition disconnect :: "env \<Rightarrow> pid \<Rightarrow> nat \<Rightarrow> stream_manager \<Rightarrow> stream_manager" where
  "disconnect E p stream s =
     (let (nick, short) = displayName E p s
      in emit (Console (Disconnected nick short)) (emit (Closed stream) s))"

definition disconnectActivePeer :: "env \<Rightarrow> stream_manager \<Rightarrow> stream_manager" where
  "disconnectActivePeer E s =
     (case mlookup (streams s) (activeID s) of
        None \<Rightarrow> say ''No active peer to disconnect'' s
      | Some stream \<Rightarrow>
          if activeID s = [] then say ''No active peer to disconnect'' s
          else disconnect E (activeID s) stream s)"

definition disconnectSpecificPeer :: "env \<Rightarrow> string \<Rightarrow> stream_manager \<Rightarrow> stream_manager" where
  "disconnectSpecificPeer E peerIDStr s =
     (case peer_Decode E peerIDStr of
        None \<Rightarrow> s
      | Some p \<Rightarrow>
          (case mlookup (streams s) p of
             None \<Rightarrow> say ''Peer not connected'' s
           | Some stream \<Rightarrow> disconnect E p stream s))"

section \<open>Approval\<close>

lemma incoming_request_Some:
  assumes "incoming_request E c s = (s1, Some rq)"
  shows "rq_num rq = nextRequestNum s + 1" "rq_chan rq = nextAddr s"
    "pendingApprovals s1 = mput (c_peer c) (nextAddr s) (pendingApprovals s)"
    "pendingRequestNums s1 = mput (nextRequestNum s + 1) (c_peer c) (pendingRequestNums s)"
    "chans s1 = mput (nextAddr s) [] (chans s)" "nextAddr s1 = Suc (nextAddr s)" "streams s1 = streams s"
    "nextRequestNum s1 = nextRequestNum s + 1"
  using assms by (auto simp: incoming_request_def Let_def emit_def split: option.splits if_splits)

lemma incoming_request_streams: "streams (fst (incoming_request E c s)) = streams s"
  by (simp add: incoming_request_def Let_def emit_def split: option.split prod.split)

lemma cleanup_request_fields [simp]:
  "streams (cleanup_request p n s) = streams s" "out (cleanup_request p n s) = out s"
  by (simp_all add: cleanup_request_def Let_def)

definition refused :: "env \<Rightarrow> conn \<Rightarrow> request \<Rightarrow> event list" where
  "refused E c rq =
     [Wire (c_stream c) (ConnRejectMsg @ [CHR 0x0A]),
      Console (ConnectionRejected (rq_nick rq) (shortID E (c_peer c))), Closed (c_stream c)]"

definition demo_conn :: conn where
  "demo_conn = \<lparr>c_stream = 1, c_peer = ''B'', c_privkey = None, c_pubkey = None, c_random = Inl ''none'',
     c_flush = (\<lambda>i. True), c_input = ''__CONNREQ__:bob'' @ [CHR 0x0A]\<rparr>"

definition demo_request :: request where
  "demo_request = \<lparr>rq_num = 1, rq_chan = 0, rq_nick = ''bob'', rq_rest = []\<rparr>"

text \<open>
  A second request of the same peer takes over the first one's entry: answering the number of the
  first request decides the second.
\<close>

lemma second_request_takes_answer:
  assumes "incoming_request E c s = (s1, Some rq1)" and "incoming_request E c s1 = (s2, Some rq2)"
  shows "\<exists>s3. RespondToConnectionRequestByNum (rq_num rq1) b s2 = Some s3 \<and>
    mget [] (chans s3) (rq_chan rq2) = [b] \<and> mget [] (chans s3) (rq_chan rq1) = []"
  using incoming_request_Some [OF assms(1)] incoming_request_Some [OF assms(2)]
  by (simp add: RespondToConnectionRequestByNum_def gomap_simps chan_send_def)

text \<open>A stream that starts with anything but a request line is closed at once.\<close>

lemma no_request_line_closed:
  assumes "readLine (c_input c) = Some (line, rest)" and "\<not> HasPrefix line ConnReqPrefix"
  shows "incoming_request E c s = (emit (Closed (c_stream c)) s, None)"
  using assms by (simp add: incoming_request_def)

end
