(* ===== verification/Node_Invariant.thy ===== *)
theory Node_Invariant
  imports Connection
begin

text \<open>
  The node as a state machine: its steps are the handlers of the components (sending, a line from a
  stream, a retransmission, opening and forgetting connections, requests and their answers), in any
  order. The invariant \<open>sm_ok\<close> of the manager holds in every reachable state.
\<close>

section \<open>What does not touch the invariant\<close>

text \<open>The part of the state the invariant speaks about.\<close>

definition same_tables :: "stream_manager \<Rightarrow> stream_manager \<Rightarrow> bool" where
  "same_tables s s' \<longleftrightarrow>
     streams s' = streams s \<and> activeID s' = activeID s \<and> recvSeq s' = recvSeq s \<and>
     recvBuffer s' = recvBuffer s \<and> pending s' = pending s \<and> nextAddr s \<le> nextAddr s' \<and>
     dom (mlookup (sessions s')) = dom (mlookup (sessions s)) \<and>
     (gomap_ok (sessions s) \<longrightarrow> gomap_ok (sessions s'))"

lemma same_tables_refl [simp]: "same_tables s s"
  by (simp add: same_tables_def)

lemma same_tables_trans: "same_tables s s' \<Longrightarrow> same_tables s' s'' \<Longrightarrow> same_tables s s''"
  by (auto simp: same_tables_def)

lemma same_tables_sends:
  assumes "only_sends r s s'"
  shows "same_tables s s'"
proof -
  have "dom (mlookup (sessions s')) = dom (mlookup (sessions s))" by (rule same_dom) (rule only_sends_dom [OF assms])
  then show ?thesis using only_sends_ok [OF assms] by (simp add: same_tables_def only_sends_fields [OF assms])
qed

lemma same_tables_emit [simp]: "same_tables s (emit ev s)" "same_tables s (ticked s)" "same_tables s (say l s)"
  "same_tables s (fail_with l w s)"
  by (simp_all add: same_tables_def emit_def ticked_def say_def fail_with_def)

lemma same_tables_other [simp]:
  "same_tables s (s\<lparr>peerNicks := a\<rparr>)" "same_tables s (s\<lparr>concurrentTestReceived := b\<rparr>)"
  "same_tables s (s\<lparr>sendSeq := c\<rparr>)" "same_tables s (s\<lparr>chans := d\<rparr>)"
  by (simp_all add: same_tables_def)

lemma pending_ok_mono: "pending_ok n msgs \<Longrightarrow> n \<le> n' \<Longrightarrow> pending_ok n' msgs"
  unfolding pending_ok_def by (meson less_le_trans)

lemma sm_ok_same:
  assumes ok: "sm_ok s" and t: "same_tables s s'"
  shows "sm_ok s'"
proof -
  have "conn_ok s'" using ok t by (simp add: sm_ok_def conn_ok_def same_tables_def)
  moreover have "recv_ok s'" using ok t by (simp add: sm_ok_def recv_ok_def recv_idle_def same_tables_def)
  moreover have "pend_ok s'"
    using ok t pending_ok_mono [of "nextAddr s" _ "nextAddr s'"] by (simp add: sm_ok_def pend_ok_def same_tables_def)
  ultimately show ?thesis by (simp add: sm_ok_def)
qed

lemma sm_ok_fields: "sm_ok s \<Longrightarrow> sm_ok (s\<lparr>node := x\<rparr>)" "sm_ok s \<Longrightarrow> sm_ok (s\<lparr>hasHistory := b\<rparr>)" "sm_ok s \<Longrightarrow> sm_ok (s\<lparr>localNick := n\<rparr>)"
  by (simp_all add: sm_ok_def conn_ok_def recv_ok_def recv_idle_def pend_ok_def)

lemma recv_frame_ok:
  assumes "recv_frame s s'" and "conn_ok s \<and> pend_ok s"
  shows "conn_ok s' \<and> pend_ok s'"
proof -
  have "dom (mlookup (sessions s')) = dom (mlookup (sessions s))"
    using assms(1) by (intro same_dom) (simp add: recv_frame_def)
  moreover have "gomap_ok (sessions s')" using assms by (simp add: recv_frame_def conn_ok_def)
  ultimately show ?thesis using assms(2) by (simp add: conn_ok_def pend_ok_def recv_frame_fields [OF assms(1)])
qed

lemma emit_ok: "sm_ok s \<Longrightarrow> sm_ok (emit ev s)"
  by (erule sm_ok_same) simp

lemma ticked_ok: "sm_ok s \<Longrightarrow> sm_ok (ticked s)"
  by (erule sm_ok_same) simp

section \<open>Pending messages\<close>

lemma trackPending_ok: "sm_ok s \<Longrightarrow> sm_ok (trackPending E p e s)"
proof -
  assume ok: "sm_ok s"
  let ?m = "\<lparr>pc_envelope = e, lastSent = now_ns E (tick s), attempts = 1, pc_addr = nextAddr s\<rparr>"
  let ?msgs = "mget [] (pending s) p"
  have old: "gomap_ok ?msgs" "\<And>k m. mlookup ?msgs k = Some m \<Longrightarrow>
      k = eID (pc_envelope m) \<and> 1 \<le> attempts m \<and> attempts m \<le> 5 \<and> pc_addr m < Suc (nextAddr s)"
    using ok by (auto simp: sm_ok_def pend_ok_def pending_ok_def mget_def gomap_simps gomap_wf less_Suc_eq split: option.splits)
  have "pending_ok (Suc (nextAddr s)) (mput (eID e) ?m ?msgs)"
    using old by (auto simp: pending_ok_def gomap_simps gomap_wf split: if_splits)
  then have "pend_ok (trackPending E p e s)"
    using ok pending_ok_mono [of "nextAddr s" _ "Suc (nextAddr s)"]
    by (auto simp: sm_ok_def pend_ok_def trackPending_def ticked_def Let_def gomap_simps gomap_wf split: if_splits)
  moreover have "conn_ok (trackPending E p e s)" "recv_ok (trackPending E p e s)"
    using ok by (simp_all add: sm_ok_def conn_ok_def recv_ok_def recv_idle_def trackPending_def ticked_def Let_def)
  ultimately show ?thesis by (simp add: sm_ok_def)
qed

lemma set_pending_ok:
  assumes "sm_ok s" and "gomap_ok tbl" and "\<And>p msgs. mlookup tbl p = Some msgs \<Longrightarrow> pending_ok (nextAddr s) msgs"
  shows "sm_ok (s\<lparr>pending := tbl\<rparr>)"
  using assms by (simp add: sm_ok_def conn_ok_def recv_ok_def recv_idle_def pend_ok_def)

lemma pend_okD:
  "sm_ok s \<Longrightarrow> gomap_ok (pending s)"
  "sm_ok s \<Longrightarrow> mlookup (pending s) p = Some msgs \<Longrightarrow> pending_ok (nextAddr s) msgs"
  by (auto simp: sm_ok_def pend_ok_def)

lemma pending_ok_del: "pending_ok n msgs \<Longrightarrow> mdel i msgs \<noteq> [] \<Longrightarrow> pending_ok n (mdel i msgs)"
  by (auto simp: pending_ok_def gomap_simps gomap_wf split: if_splits)

lemma ackPending_ok: "sm_ok s \<Longrightarrow> sm_ok (ackPending p i s)"
  by (auto simp: ackPending_def Let_def gomap_simps gomap_wf pend_okD pending_ok_del
      split: option.split if_splits intro!: set_pending_ok)

lemma settle_ok:
  assumes ok: "sm_ok s"
  shows "sm_ok (settle now p m err s)"
proof (cases "mlookup (mget [] (pending s) p) (eID (pc_envelope m))")
  case None
  then show ?thesis using ok by (simp add: settle_def Let_def)
next
  case (Some cur)
  then obtain msgs where msgs: "mlookup (pending s) p = Some msgs" "mlookup msgs (eID (pc_envelope m)) = Some cur"
    by (cases "mlookup (pending s) p") (auto simp: mget_def gomap_simps)
  have po: "pending_ok (nextAddr s) msgs" using ok msgs(1) pend_okD(2) by blast
  have "pending_ok (nextAddr s) (mput (eID (pc_envelope m)) (cur\<lparr>attempts := attempts cur + 1, lastSent := now\<rparr>) msgs)"
    if "attempts cur < 5"
  proof -
    have "eID (pc_envelope m) = eID (pc_envelope cur)" "1 \<le> attempts cur" "pc_addr cur < nextAddr s"
      using po msgs(2) unfolding pending_ok_def by blast+
    then show ?thesis using po that by (auto simp: pending_ok_def gomap_simps gomap_wf split: if_splits)
  qed
  moreover have "drop_pending p (eID (pc_envelope m)) s = ackPending p (eID (pc_envelope m)) s"
    using Some by (intro drop_pending_ack) (simp add: waiting_def)
  moreover have "mget [] (pending s) p = msgs" using msgs(1) by (simp add: mget_def)
  ultimately show ?thesis
    using ok Some po ackPending_ok [OF ok] sm_ok_same [OF ackPending_ok [OF ok] same_tables_emit(1)]
    by (auto simp: settle_def Let_def maxPendingRetries_def gomap_simps gomap_wf pend_okD
        intro!: set_pending_ok split: if_splits)
qed

lemma sendEnvelope_ok_inv:
  "sm_ok s \<Longrightarrow> mlookup (sessions s) p \<noteq> None \<Longrightarrow> sm_ok (fst (sendEnvelope E p st ses e s))"
  using sm_ok_same same_tables_sends sendEnvelope_only_sends by blast

lemma resend_ok: "sm_ok s \<Longrightarrow> sm_ok (resend E now item s)"
  using sendEnvelope_ok_inv [of s "fst item" E _ _ "pc_envelope (snd item)"] settle_ok
  by (auto simp: resend_def split: option.splits prod.splits) (metis fst_conv)

lemma retransmitDue_ok: "sm_ok s \<Longrightarrow> sm_ok (retransmitDue E s)"
proof -
  have "sm_ok s \<Longrightarrow> sm_ok (fold (resend E now) items s)" for now items s
    by (induction items arbitrary: s) (auto simp: resend_ok)
  then show "sm_ok s \<Longrightarrow> ?thesis"
    using sm_ok_same [of s "ticked s"] by (simp add: retransmitDue_def Let_def)
qed

lemma retransmitLoop_ok:
  "\<forall>(others, ev) \<in> set evs. \<forall>s. sm_ok s \<longrightarrow> sm_ok (others s) \<Longrightarrow> sm_ok s \<Longrightarrow> sm_ok (retransmitLoop E evs s)"
  by (induction E evs s rule: retransmitLoop.induct) (auto simp: retransmitDue_ok)

lemma sendChat_ok: "sm_ok s \<Longrightarrow> sm_ok (fst (sendChat E p text s))"
proof (cases "mlookup (streams s) p = None \<or> mlookup (sessions s) p = None")
  case True
  then show "sm_ok s \<Longrightarrow> ?thesis" by (auto simp: sendChat_def split: option.split)
next
  case False
  assume ok: "sm_ok s"
  let ?q = "mget 0 (sendSeq s) p + 1"
  let ?s1 = "s\<lparr>sendSeq := mput p ?q (sendSeq s)\<rparr>"
  obtain s2 r where b: "newChatEnvelope E p ?q text ?s1 = (s2, r)" by (cases "newChatEnvelope E p ?q text ?s1")
  have sends: "only_sends p ?s1 s2"
    using build_envelope_only_sends [of p ?s1 E p TypeChat ?q "chatBody text"] b by (simp add: newChatEnvelope_def)
  then have ok2: "sm_ok s2" using sm_ok_same [OF ok] same_tables_sends sm_ok_same same_tables_other(3) by blast
  have "mlookup (sessions s2) p \<noteq> None" using False only_sends_dom [OF sends, of p] by simp
  then have "mlookup (sessions (trackPending E p e s2)) p \<noteq> None" for e
    by (simp add: trackPending_def ticked_def Let_def)
  then have ok3: "sm_ok (fst (sendEnvelope E p st ses e (trackPending E p e s2)))" for st ses e
    using sendEnvelope_ok_inv trackPending_ok [OF ok2] by blast
  from False obtain st ses where c: "mlookup (streams s) p = Some st" "mlookup (sessions s) p = Some ses" by auto
  show ?thesis
  proof (cases r)
    case (Inr e)
    obtain s3 err where "sendEnvelope E p st ses e (trackPending E p e s2) = (s3, err)" by fastforce
    with ok3 [of st ses e] show ?thesis
      using b Inr c ackPending_ok by (cases err) (simp_all add: sendChat_def Let_def)
  qed (use b c ok2 in \<open>simp add: sendChat_def Let_def\<close>)
qed

section \<open>Receiving\<close>

definition buf_ok :: "pid \<Rightarrow> stream_manager \<Rightarrow> bool" where
  "buf_ok p s \<longleftrightarrow> buffer_ok (mget 0 (recvSeq s) p) (mget [] (recvBuffer s) p)"

lemma recv_ok_alt: "recv_ok s \<longleftrightarrow> (\<forall>p. buf_ok p s \<and> recv_idle p s)"
  by (simp add: recv_ok_def buf_ok_def)

definition same_recv :: "pid \<Rightarrow> stream_manager \<Rightarrow> stream_manager \<Rightarrow> bool" where
  "same_recv p s s' \<longleftrightarrow>
     mget 0 (recvSeq s') p = mget 0 (recvSeq s) p \<and> mget [] (recvBuffer s') p = mget [] (recvBuffer s) p"

lemma same_recv_ok: "same_recv p s s' \<Longrightarrow> buf_ok p s \<and> recv_idle p s \<Longrightarrow> buf_ok p s' \<and> recv_idle p s'"
  by (simp add: same_recv_def buf_ok_def recv_idle_def)

lemma drain_step_recv:
  assumes "drain_step E p s = Some s'"
  shows "\<exists>e. mlookup (mget [] (recvBuffer s) p) (mget 0 (recvSeq s) p + 1) = Some e"
    and "recvSeq s' = mput p (mget 0 (recvSeq s) p + 1) (recvSeq s)"
    and "recvBuffer s' = mput p (mdel (mget 0 (recvSeq s) p + 1) (mget [] (recvBuffer s) p)) (recvBuffer s)"
  using assms by (auto simp: drain_step_def Let_def split: option.splits if_splits)

lemma drain_buf_ok: "buf_ok p s \<Longrightarrow> buf_ok p (drainReceiveBuffer E p s)"
proof (induction E p s rule: drainReceiveBuffer.induct)
  case (1 E p s)
  have "buf_ok p s'" if d: "drain_step E p s = Some s'" for s'
  proof -
    let ?l = "mget 0 (recvSeq s) p" and ?b = "mget [] (recvBuffer s) p"
    have ok: "gomap_ok ?b" "length ?b \<le> maxReceiveBuffer"
      and keys: "\<And>k e. mlookup ?b k = Some e \<Longrightarrow> k = eSequence e \<and> ?l < k"
      using "1.prems" by (auto simp: buf_ok_def buffer_ok_def)
    have "mget 0 (recvSeq s') p = ?l + 1" "mget [] (recvBuffer s') p = mdel (?l + 1) ?b"
      using drain_step_recv [OF d] by (simp_all add: gomap_simps)
    then show ?thesis
      using ok keys less_next gm.len_del [OF ok(1), of "?l + 1"]
      by (auto simp: buf_ok_def buffer_ok_def gomap_simps gomap_wf split: if_splits)
  qed
  with 1 show ?case by (subst drainReceiveBuffer.simps) (auto split: option.split)
qed

lemma drain_same_recv: "q \<noteq> p \<Longrightarrow> same_recv q s (drainReceiveBuffer E p s)"
proof (induction E p s rule: drainReceiveBuffer.induct)
  case (1 E p s)
  then show ?case
    by (subst drainReceiveBuffer.simps)
      (auto simp: same_recv_def gomap_simps drain_step_recv(2,3) split: option.split)
qed

lemma sendAck_recv [simp]:
  "recvSeq (fst (sendAck E p i s)) = recvSeq s" "recvBuffer (fst (sendAck E p i s)) = recvBuffer s"
  using only_sends_fields(4,5) [OF sendAck_only_sends] by blast+

lemma handleChat_recv_ok:
  assumes "recv_ok s"
  shows "recv_ok (handleChat E p e text s)"
  unfolding recv_ok_alt
proof
  fix q
  let ?l = "mget 0 (recvSeq s) p" and ?b = "mget [] (recvBuffer s) p" and ?k = "eSequence e"
  have p: "buf_ok p s" "recv_idle p s" and q: "buf_ok q s \<and> recv_idle q s" using assms by (auto simp: recv_ok_alt)
  show "buf_ok q (handleChat E p e text s) \<and> recv_idle q (handleChat E p e text s)"
  proof (cases "q = p")
    case False
    then have "same_recv q s (handleChat E p e text s)"
      using drain_same_recv [of q p "ack_or_print E p (eID e) (deliverChat E p text (s\<lparr>recvSeq := mput p ?k (recvSeq s)\<rparr>))" E]
      by (simp add: handleChat_def Let_def same_recv_def gomap_simps)
    then show ?thesis using same_recv_ok q by blast
  next
    case True
    consider "?k \<le> ?l" | "?l < ?k" "?l + 1 < ?k" | "?l < ?k" "?k = ?l + 1" using less_next [of ?l ?k] by fastforce
    then show ?thesis
    proof cases
      case 1
      then show ?thesis using q by (simp add: handleChat_def Let_def buf_ok_def recv_idle_def)
    next
      case 2
      then show ?thesis using p True gm.len_put [of ?b ?k e]
        by (auto simp: handleChat_def Let_def buf_ok_def recv_idle_def buffer_ok_def gomap_simps gomap_wf mget_None
            split: if_splits)
    next
      case 3
      let ?s1 = "ack_or_print E p (eID e) (deliverChat E p text (s\<lparr>recvSeq := mput p ?k (recvSeq s)\<rparr>))"
      have "?k < k" if "mlookup ?b k = Some x" for k x
      proof -
        have "?l < k" using p(1) that unfolding buf_ok_def buffer_ok_def by blast
        moreover have "k \<noteq> ?l + 1" using p(2) that by (auto simp: recv_idle_def)
        ultimately show ?thesis using 3 less_next [of ?l k] by simp
      qed
      then have "buf_ok p ?s1"
        using p by (auto simp: buf_ok_def buffer_ok_def gomap_simps)
      moreover have "\<not> ?k \<le> ?l" using 3(1) by simp
      ultimately show ?thesis
        using True 3(2) drain_buf_ok drain_idle by (simp add: handleChat_def Let_def)
    qed
  qed
qed

lemma handleChat_ok: "sm_ok s \<Longrightarrow> sm_ok (handleChat E p e text s)"
  using recv_frame_ok [OF recv_frame_chat] handleChat_recv_ok by (simp add: sm_ok_def)

lemma same_tables_send_or_print:
  assumes "only_sends r s (fst x)"
  shows "same_tables s (case x of (s', None) \<Rightarrow> s' | (s', Some err) \<Rightarrow> emit ev s')"
proof -
  obtain s' err where x: "x = (s', err)" by (cases x)
  then have "same_tables s s'" using assms same_tables_sends by simp
  then show ?thesis using x same_tables_trans [OF _ same_tables_emit(1)] by (cases err) auto
qed

lemma handleControl_ok: "sm_ok s \<Longrightarrow> sm_ok (handleControl E p b s)"
proof -
  have nick: "same_tables s (emit ev (emit ev' (s\<lparr>peerNicks := x\<rparr>)))" "same_tables s (emit ev (ticked s))"
    "same_tables s (emit ev (s\<lparr>concurrentTestReceived := y\<rparr>))" for ev ev' x y
    by (simp_all add: same_tables_def emit_def ticked_def)
  have "same_tables s (handleControl E p b s)"
    using nick same_tables_send_or_print [OF sendControl_only_sends]
    by (simp add: handleControl_def Let_def)
  then show "sm_ok s \<Longrightarrow> ?thesis" using sm_ok_same by blast
qed

lemma handleEnvelope_ok: "sm_ok s \<Longrightarrow> sm_ok (handleEnvelope E p e s)"
  using sm_ok_same [OF _ same_tables_emit(1)]
  by (simp add: handleEnvelope_def handleChat_ok handleControl_ok ackPending_ok split: option.split)

lemma readLoop_line_ok:
  assumes "sm_ok s" and "readLoop_line E p line s = Some s'"
  shows "sm_ok s'"
proof -
  obtain ses ses' r where d: "mlookup (sessions s) p = Some ses" "Decrypt (aead E) ses (TrimSpace line) = (ses', r)"
    using assms(2) by (cases "mlookup (sessions s) p"; cases "Decrypt (aead E) (the (mlookup (sessions s) p)) (TrimSpace line)")
      (auto simp: readLoop_line_def)
  let ?s1 = "s\<lparr>sessions := mput p ses' (sessions s)\<rparr>"
  have "same_tables s ?s1" using same_tables_sends [OF only_sends_session [of s p ses']] d(1) by simp
  then have 1: "sm_ok ?s1" using sm_ok_same [OF assms(1)] by blast
  then have 2: "sm_ok (ticked ?s1)" by (rule ticked_ok)
  have h: "sm_ok (handleEnvelope E p e (ticked ?s1))" for e by (rule handleEnvelope_ok [OF 2])
  show ?thesis
  proof (cases r)
    case (Inl err)
    then show ?thesis using d assms(2) 1 by (simp add: readLoop_line_def Let_def)
  next
    case (Inr plain)
    then show ?thesis
      using d assms(2) emit_ok [OF 2] h by (cases "Decode (now_ms E (tick s)) plain") (simp_all add: readLoop_line_def Let_def, blast+)
  qed
qed

section \<open>Connections\<close>

lemma register_ok: "sm_ok s \<Longrightarrow> sm_ok (register p st ses s)"
  by (auto simp: sm_ok_def conn_ok_def recv_ok_def recv_idle_def pend_ok_def buffer_ok_def register_def
      gomap_simps gomap_wf gm.dom_put maxReceiveBuffer_def)

lemma send_nickname_ok: "sm_ok s \<Longrightarrow> sm_ok (send_nickname E p s)"
  using sm_ok_same [OF _ same_tables_send_or_print [OF sendControl_only_sends]] by (simp add: send_nickname_def)

lemma AddStream_ok: "sm_ok s \<Longrightarrow> sm_ok (AddStream E c s)"
proof -
  assume "sm_ok s"
  then show ?thesis
    by (simp add: emit_ok AddStream_def Let_def register_ok send_nickname_ok split: option.split prod.split sum.split)
qed

lemma forgetPeer_ok: "sm_ok s \<Longrightarrow> sm_ok (forgetPeer E p s)"
proof -
  assume ok: "sm_ok s"
  let ?s1 = "s\<lparr>streams := mdel p (streams s), sessions := mdel p (sessions s), sendSeq := mdel p (sendSeq s),
    recvSeq := mdel p (recvSeq s), recvBuffer := mdel p (recvBuffer s), activeID := if activeID s = p then [] else activeID s\<rparr>"
  have "sm_ok (clearPending p ?s1)"
    using ok by (auto simp: sm_ok_def conn_ok_def recv_ok_def recv_idle_def pend_ok_def buffer_ok_def clearPending_def
      gomap_simps gomap_wf gm.dom_del maxReceiveBuffer_def split: if_splits)
  then show ?thesis unfolding forgetPeer_def Let_def split_def by (intro emit_ok)
qed

lemma incoming_request_ok: "sm_ok s \<Longrightarrow> sm_ok (fst (incoming_request E c s))"
proof -
  have "same_tables s (fst (incoming_request E c s))"
    by (simp add: incoming_request_def Let_def same_tables_def emit_def split: option.split prod.split)
  then show "sm_ok s \<Longrightarrow> ?thesis" using sm_ok_same by blast
qed

lemma chan_send_ok: "sm_ok s \<Longrightarrow> chan_send ch b s = Some s' \<Longrightarrow> sm_ok s'"
  using sm_ok_same [OF _ same_tables_other(4)] by (auto simp: chan_send_def split: list.splits)

lemma incoming_decision_ok: "sm_ok s \<Longrightarrow> incoming_decision E c rq t s = Some s' \<Longrightarrow> sm_ok s'"
proof -
  have cl: "sm_ok s \<Longrightarrow> sm_ok (cleanup_request q n s)" for q n s
    by (erule sm_ok_same) (simp add: cleanup_request_def Let_def same_tables_def)
  have ch: "sm_ok s \<Longrightarrow> sm_ok (s\<lparr>chans := x\<rparr>)" for x s using sm_ok_same same_tables_other(4) by blast
  show "sm_ok s \<Longrightarrow> incoming_decision E c rq t s = Some s' \<Longrightarrow> sm_ok s'"
    using cl ch AddStream_ok by (auto simp: emit_ok incoming_decision_def Let_def split: list.splits if_splits)
qed

section \<open>The state machine\<close>

text \<open>
  The steps of a node. A retransmission is a step for each message, so acknowledgements may come
  between two of them; any item may be resent, also a stale one.
\<close>

inductive sm_step :: "env \<Rightarrow> stream_manager \<Rightarrow> stream_manager \<Rightarrow> bool" for E where
  send_chat: "sm_step E s (fst (sendChat E p text s))"
| send_control: "sm_step E s (fst (sendControl E p body s))"
| line: "readLoop_line E p l s = Some s' \<Longrightarrow> sm_step E s s'"
| forget: "sm_step E s (forgetPeer E p s)"
| add: "sm_step E s (AddStream E c s)"
| retransmit: "sm_step E s (retransmitDue E s)"
| resend_one: "sm_step E s (resend E now item s)"
| request: "sm_step E s (fst (incoming_request E c s))"
| decision: "incoming_decision E c rq t s = Some s' \<Longrightarrow> sm_step E s s'"
| respond: "RespondToConnectionRequest E i b s = Some s' \<Longrightarrow> sm_step E s s'"
| respond_num: "RespondToConnectionRequestByNum n b s = Some s' \<Longrightarrow> sm_step E s s'"

definition reachable :: "env \<Rightarrow> pid option \<Rightarrow> stream_manager \<Rightarrow> bool" where
  "reachable E nd s \<longleftrightarrow> (sm_step E)\<^sup>*\<^sup>* (newStreamManager nd) s"

lemma sm_step_ok:
  assumes "sm_step E s s'" and ok: "sm_ok s"
  shows "sm_ok s'"
  using assms(1)
proof cases
  case (send_control p body)
  then show ?thesis using ok sm_ok_same same_tables_sends sendControl_only_sends by metis
next
  case (line p l)
  then show ?thesis using ok readLoop_line_ok by blast
next
  case (decision c rq t)
  then show ?thesis using ok incoming_decision_ok by blast
next
  case (respond i b)
  then show ?thesis
    using ok chan_send_ok by (auto simp: RespondToConnectionRequest_def split: option.splits)
next
  case (respond_num n b)
  then show ?thesis
    using ok chan_send_ok emit_ok by (auto simp: RespondToConnectionRequestByNum_def split: option.splits)
qed (simp_all only: ok sendChat_ok forgetPeer_ok AddStream_ok retransmitDue_ok resend_ok incoming_request_ok)

lemma newStreamManager_ok: "sm_ok (newStreamManager nd)"
  by (simp add: newStreamManager_def sm_ok_def conn_ok_def recv_ok_def recv_idle_def pend_ok_def buffer_ok_def
      gomap_simps gomap_wf maxReceiveBuffer_def dom_def)

interpretation sm_run: run_invariant "sm_step E" sm_ok for E
  by unfold_locales (rule sm_step_ok)

lemma reachable_ok: "reachable E nd s \<Longrightarrow> sm_ok s"
  unfolding reachable_def by (rule sm_run.run_good [OF _ newStreamManager_ok])

section \<open>Properties\<close>

text \<open>
  C15. The invariant of the node: after any sequence of steps (messages sent, lines received from any
  peers, retransmissions interleaved with acknowledgements, connections opened, approved, refused
  and forgotten) every open stream has a session and conversely, the active peer is connected, each
  receive buffer holds at most 64 envelopes, all with numbers beyond the last one delivered and
  never the next one, and each table of pending messages is non-empty with entries of one to five
  attempts under their own identifiers.
\<close>

theorem reachable_states_ok:
  assumes "reachable E nd s"
  shows "sm_ok s"
  using assms by (rule reachable_ok)

theorem reachable_states_ok_witness: "sm_ok (forgetPeer demo_env ''B'' (fst (sendChat demo_env ''B'' ''hi'' demo_node)))"
proof -
  have "reachable demo_env (Some ''A'') (forgetPeer demo_env ''B'' (fst (sendChat demo_env ''B'' ''hi'' demo_node)))"
    unfolding reachable_def demo_node_def
    by (rule rtranclp.rtrancl_into_rtrancl, rule r_into_rtranclp, rule sm_step.send_chat, rule sm_step.forget)
  then show ?thesis by (rule reachable_states_ok)
qed

end
