(* ===== verification/Go_Time.thy ===== *)
theory Go_Time
  imports Go_Json
begin

text \<open>
  What the storage package uses of \<open>time\<close> and \<open>encoding/json\<close> besides the basic values: a
  \<open>time.Time\<close> as the RFC 3339 text that \<open>MarshalJSON\<close> writes and \<open>UnmarshalJSON\<close> reads, Boolean
  fields, and the indented form of a list of objects that \<open>json.MarshalIndent\<close> writes.

  A time is the calendar reading with its zone offset, which is what the text carries; the clock
  of the program is a function to such readings.
\<close>

section \<open>Times\<close>

record time =
  t_year :: nat
  t_month :: nat
  t_day :: nat
  t_hour :: nat
  t_min :: nat
  t_sec :: nat
  t_nsec :: nat
  t_offset :: int   \<comment> \<open>seconds east of Greenwich\<close>

definition time_zero :: time where
  "time_zero = \<lparr>t_year = 1, t_month = 1, t_day = 1, t_hour = 0, t_min = 0, t_sec = 0, t_nsec = 0,
     t_offset = 0\<rparr>"

definition leap :: "nat \<Rightarrow> bool" where
  "leap y \<longleftrightarrow> 4 dvd y \<and> (\<not> 100 dvd y \<or> 400 dvd y)"

definition daysIn :: "nat \<Rightarrow> nat \<Rightarrow> nat" where
  "daysIn m y = (if m = 2 then (if leap y then 29 else 28) else if m \<in> {4, 6, 9, 11} then 30 else 31)"

text \<open>The readings a clock shows: calendar fields in range, a zone of whole minutes under a day.\<close>

definition time_ok :: "time \<Rightarrow> bool" where
  "time_ok t \<longleftrightarrow>
     t_year t \<le> 9999 \<and> 1 \<le> t_month t \<and> t_month t \<le> 12 \<and> 1 \<le> t_day t \<and>
     t_day t \<le> daysIn (t_month t) (t_year t) \<and> t_hour t < 24 \<and> t_min t < 60 \<and> t_sec t < 60 \<and>
     t_nsec t < 10 ^ 9 \<and> t_offset t mod 60 = 0 \<and> \<bar>t_offset t\<bar> < 86400"

fun digits_fixed :: "nat \<Rightarrow> nat \<Rightarrow> string" where
  "digits_fixed 0 n = []"
| "digits_fixed (Suc k) n = digits_fixed k (n div 10) @ [char_of (48 + n mod 10)]"

definition trim_zeros :: "string \<Rightarrow> string" where
  "trim_zeros ds = rev (dropWhile (\<lambda>c. c = CHR ''0'') (rev ds))"

definition format_frac :: "nat \<Rightarrow> string" where
  "format_frac ns = (if ns = 0 then [] else CHR ''.'' # trim_zeros (digits_fixed 9 ns))"

definition format_zone :: "int \<Rightarrow> string" where
  "format_zone off =
     (if off = 0 then ''Z''
      else (let m = nat \<bar>off\<bar> div 60 in
        (if off \<le> - 60 then CHR ''-'' else CHR ''+'') # digits_fixed 2 (m div 60) @ '':'' @ digits_fixed 2 (m mod 60)))"

definition format_time :: "time \<Rightarrow> string" where
  "format_time t =
     digits_fixed 4 (t_year t) @ ''-'' @ digits_fixed 2 (t_month t) @ ''-'' @ digits_fixed 2 (t_day t) @ ''T''
     @ digits_fixed 2 (t_hour t) @ '':'' @ digits_fixed 2 (t_min t) @ '':'' @ digits_fixed 2 (t_sec t)
     @ format_frac (t_nsec t) @ format_zone (t_offset t)"

text \<open>\<open>Time.MarshalJSON\<close>: an error for a year past 9999 and for a zone of 24 hours or more.\<close>

definition marshal_time :: "time \<Rightarrow> string option" where
  "marshal_time t =
     (if t_year t \<le> 9999 \<and> \<bar>t_offset t\<bar> < 86400
      then Some ([CHR 0x22] @ format_time t @ [CHR 0x22]) else None)"

text \<open>
  Reading a time with the layout \<open>2006-01-02T15:04:05Z07:00\<close>: fields of two digits (an hour may have
  one), an optional fraction after a point or a comma of which nine digits count, and a zone up to
  24 hours and 60 minutes.
\<close>

fun getnum :: "bool \<Rightarrow> string \<Rightarrow> (nat \<times> string) option" where
  "getnum fixed [] = None"
| "getnum fixed (a # r) =
     (if \<not> is_digit a then None
      else (case r of
         b # r2 \<Rightarrow> if is_digit b then Some ((bv a - 48) * 10 + (bv b - 48), r2)
                   else if fixed then None else Some (bv a - 48, r)
       | [] \<Rightarrow> if fixed then None else Some (bv a - 48, [])))"

definition getyear :: "string \<Rightarrow> (nat \<times> string) option" where
  "getyear s = (if length s < 4 then None else map_option (\<lambda>y. (y, drop 4 s)) (digits_val 0 (take 4 s)))"

definition skip_char :: "char \<Rightarrow> string \<Rightarrow> string option" where
  "skip_char c s = (case s of a # r \<Rightarrow> if a = c then Some r else None | [] \<Rightarrow> None)"

definition field_after :: "char \<Rightarrow> bool \<Rightarrow> string \<Rightarrow> (nat \<times> string) option" where
  "field_after c fixed s = Option.bind (skip_char c s) (getnum fixed)"

definition parse_frac :: "string \<Rightarrow> nat \<times> string" where
  "parse_frac s =
     (case s of
        p # d # r \<Rightarrow>
          (if (p = CHR ''.'' \<or> p = CHR '','') \<and> is_digit d
           then (let ds = take 9 (takeWhile is_digit (d # r)) in
                 (case digits_val 0 ds of None \<Rightarrow> 0 | Some n \<Rightarrow> n * 10 ^ (9 - length ds), skip_digits (d # r)))
           else (0, s))
      | _ \<Rightarrow> (0, s))"

definition parse_zone :: "string \<Rightarrow> int option" where
  "parse_zone s =
     (if s = ''Z'' then Some 0
      else (case s of
         g # r \<Rightarrow>
           (if g \<noteq> CHR ''+'' \<and> g \<noteq> CHR ''-'' then None
            else Option.bind (getnum True r) (\<lambda>(hr, r2).
              Option.bind (field_after CHR '':'' True r2) (\<lambda>(mm, r3).
                if hr \<le> 24 \<and> mm \<le> 60 \<and> r3 = []
                then Some ((if g = CHR ''-'' then - 1 else 1) * int ((hr * 60 + mm) * 60)) else None)))
       | [] \<Rightarrow> None))"

definition parse_time :: "string \<Rightarrow> time option" where
  "parse_time s =
     Option.bind (getyear s) (\<lambda>(y, s1).
     Option.bind (field_after CHR ''-'' True s1) (\<lambda>(mo, s2).
     Option.bind (field_after CHR ''-'' True s2) (\<lambda>(d, s3).
     Option.bind (field_after CHR ''T'' False s3) (\<lambda>(h, s4).
     Option.bind (field_after CHR '':'' True s4) (\<lambda>(mi, s5).
     Option.bind (field_after CHR '':'' True s5) (\<lambda>(sec, s6).
     case parse_frac s6 of (ns, s7) \<Rightarrow>
     Option.bind (parse_zone s7) (\<lambda>off.
       if 1 \<le> mo \<and> mo \<le> 12 \<and> 1 \<le> d \<and> d \<le> daysIn mo y \<and> h < 24 \<and> mi < 60 \<and> sec < 60
       then Some \<lparr>t_year = y, t_month = mo, t_day = d, t_hour = h, t_min = mi, t_sec = sec, t_nsec = ns,
                  t_offset = off\<rparr>
       else None)))))))"

text \<open>\<open>Time.UnmarshalJSON\<close>: \<open>null\<close> keeps the old value; the text between the quotes is not unescaped.\<close>

definition dec_time :: "time \<Rightarrow> string \<Rightarrow> time option" where
  "dec_time old raw =
     (if raw = json_null then Some old
      else if length raw < 2 \<or> hd raw \<noteq> CHR 0x22 \<or> last raw \<noteq> CHR 0x22 then None
      else parse_time (butlast (tl raw)))"

section \<open>Boolean fields\<close>

definition json_bool :: "bool \<Rightarrow> string" where
  "json_bool b = (if b then ''true'' else ''false'')"

definition dec_bool :: "bool \<Rightarrow> string \<Rightarrow> bool option" where
  "dec_bool old raw =
     (if raw = json_null then Some old else if raw = ''true'' then Some True
      else if raw = ''false'' then Some False else None)"

section \<open>Indented lists of objects\<close>

text \<open>\<open>json.MarshalIndent(list, "", "  ")\<close> of a list of objects whose values are not nested.\<close>

definition indent_member :: "string \<times> string \<Rightarrow> string" where
  "indent_member kv = json_quote (fst kv) @ '': '' @ snd kv"

definition indent_object :: "(string \<times> string) list \<Rightarrow> string" where
  "indent_object kvs =
     [CHR 0x7B, CHR 0x0A] @ ''    '' @ Join (map indent_member kvs) ([CHR '','', CHR 0x0A] @ ''    '')
     @ [CHR 0x0A] @ ''  '' @ [CHR 0x7D]"

definition indent_array :: "string list \<Rightarrow> string" where
  "indent_array vs =
     (if vs = [] then [CHR 0x5B, CHR 0x5D]
      else [CHR 0x5B, CHR 0x0A] @ ''  '' @ Join vs ([CHR '','', CHR 0x0A] @ ''  '') @ [CHR 0x0A, CHR 0x5D])"

section \<open>Reading a written time\<close>

lemma digits_fixed_length [simp]: "length (digits_fixed k n) = k"
  by (induction k arbitrary: n) auto

lemma digits_fixed_digits: "list_all is_digit (digits_fixed k n)"
  by (induction k arbitrary: n) (simp_all add: is_digit_dec)

lemma digits_fixed_val: "n < 10 ^ k \<Longrightarrow> digits_val 0 (digits_fixed k n) = Some n"
proof (induction k arbitrary: n)
  case (Suc k)
  then have "n div 10 < 10 ^ k" by (simp add: less_mult_imp_div_less mult.commute)
  with Suc(1) [of "n div 10"] show ?case by (simp add: digits_val_append is_digit_dec)
qed simp

lemma getyear_fixed: "n \<le> 9999 \<Longrightarrow> getyear (digits_fixed 4 n @ r) = Some (n, r)"
  using digits_fixed_val [of n 4] by (simp add: getyear_def)

lemma digits_fixed_2: "n < 100 \<Longrightarrow> digits_fixed 2 n = [char_of (48 + n div 10), char_of (48 + n mod 10)]"
  by (simp add: numeral_2_eq_2)

lemma getnum_fixed: "n < 100 \<Longrightarrow> getnum f (digits_fixed 2 n @ r) = Some (n, r)"
  by (simp add: digits_fixed_2 is_digit_dec)

lemma field_after_fixed: "n < 100 \<Longrightarrow> field_after c f (c # digits_fixed 2 n @ r) = Some (n, r)"
  by (simp add: field_after_def skip_char_def getnum_fixed)

lemma trim_zeros_append: "\<exists>k. ds = trim_zeros ds @ replicate k (CHR ''0'')"
proof -
  let ?z = "takeWhile (\<lambda>c. c = CHR ''0'') (rev ds)"
  have z: "?z = replicate (length ?z) (CHR ''0'')" by (induction ds rule: rev_induct) auto
  have "rev ds = ?z @ rev (trim_zeros ds)" by (simp add: trim_zeros_def)
  then have "ds = trim_zeros ds @ rev ?z" by (metis rev_append rev_rev_ident)
  then show ?thesis by (metis z rev_replicate)
qed

lemma digits_val_zeros: "digits_val a (replicate k (CHR ''0'')) = Some (a * 10 ^ k)"
  by (induction k arbitrary: a) (simp_all add: is_digit_def)

lemma digits_val_Some: "list_all is_digit ds \<Longrightarrow> \<exists>n. digits_val a ds = Some n"
  by (induction ds arbitrary: a) auto

lemma trim_zeros_val:
  assumes "n < 10 ^ k"
  shows "\<exists>v. digits_val 0 (trim_zeros (digits_fixed k n)) = Some v
    \<and> v * 10 ^ (k - length (trim_zeros (digits_fixed k n))) = n
    \<and> length (trim_zeros (digits_fixed k n)) \<le> k \<and> list_all is_digit (trim_zeros (digits_fixed k n))"
proof -
  let ?d = "digits_fixed k n" and ?t = "trim_zeros (digits_fixed k n)"
  obtain j where j: "?d = ?t @ replicate j (CHR ''0'')" using trim_zeros_append by blast
  have len: "k = length ?t + j" using arg_cong [OF j, of length] by simp
  have digits: "list_all is_digit ?t" using digits_fixed_digits [of k n] by (subst (asm) j) simp
  obtain v where v: "digits_val 0 ?t = Some v" using digits_val_Some [OF digits] by blast
  have "Some n = digits_val 0 (?t @ replicate j (CHR ''0''))" using digits_fixed_val [OF assms] j by simp
  also have "\<dots> = Some (v * 10 ^ j)" by (simp add: digits_val_append v digits_val_zeros)
  finally have "n = v * 10 ^ j" by simp
  moreover have "k - length ?t = j" using len by linarith
  ultimately show ?thesis using v digits len by auto
qed

lemma parse_frac_format:
  assumes "ns < 10 ^ 9" and r: "r \<noteq> []" "\<not> is_digit (hd r)" "hd r \<noteq> CHR ''.''" "hd r \<noteq> CHR '',''"
  shows "parse_frac (format_frac ns @ r) = (ns, r)"
proof (cases "ns = 0")
  case True
  then show ?thesis using r by (cases r; cases "tl r") (auto simp: format_frac_def parse_frac_def)
next
  case False
  let ?t = "trim_zeros (digits_fixed 9 ns)"
  obtain v where v: "digits_val 0 ?t = Some v" "v * 10 ^ (9 - length ?t) = ns" "length ?t \<le> 9" "list_all is_digit ?t"
    using trim_zeros_val [OF assms(1)] by blast
  then obtain d ds where t: "?t = d # ds" using False by (cases ?t) auto
  have "takeWhile is_digit (?t @ r) = ?t" "skip_digits (?t @ r) = r"
    using v(4) r by (cases r; simp add: list_all_iff skip_digits_def)+
  then have "takeWhile is_digit (d # ds @ r) = ?t" "skip_digits (d # ds @ r) = r" using t by simp_all
  moreover have "is_digit d" using v(4) t by simp
  ultimately show ?thesis
    using False v(1-3) unfolding format_frac_def parse_frac_def t by (simp add: Let_def t)
qed

lemma parse_zone_format:
  assumes "off mod 60 = 0" and "\<bar>off\<bar> < 86400"
  shows "parse_zone (format_zone off) = Some off"
proof (cases "off = 0")
  case False
  define m where "m = nat \<bar>off\<bar> div 60"
  have off: "off = (if off < 0 then - 1 else 1) * (int m * 60)"
  proof -
    have "60 dvd off" using assms(1) by (simp add: dvd_eq_mod_eq_0)
    then have "\<bar>off\<bar> = (\<bar>off\<bar> div 60) * 60" by simp
    moreover have "int m = \<bar>off\<bar> div 60" by (simp add: m_def zdiv_int)
    ultimately have "\<bar>off\<bar> = int m * 60" by simp
    then show ?thesis by (cases "off < 0") simp_all
  qed
  have "m < 1440" using assms(2) unfolding m_def by linarith
  then have m: "m div 60 < 24" "m mod 60 < 60" "0 < m" using off False by (auto intro: gr0I)
  have sign: "off \<le> - 60 \<longleftrightarrow> off < 0" using assms(1) by presburger
  have "getnum True (digits_fixed 2 (m div 60) @ '':'' @ digits_fixed 2 (m mod 60))
      = Some (m div 60, '':'' @ digits_fixed 2 (m mod 60))"
    using m by (intro getnum_fixed) auto
  moreover have "field_after CHR '':'' True ('':'' @ digits_fixed 2 (m mod 60)) = Some (m mod 60, [])"
    using field_after_fixed [of "m mod 60" "CHR '':''" True "[]"] m by simp
  moreover have "int ((m div 60 * 60 + m mod 60) * 60) = int m * 60" by simp
  moreover have "(if off < 0 then - 1 else 1) * (int m * 60) = off" using off by (rule sym)
  ultimately show ?thesis
    using False m(1,2) unfolding format_zone_def parse_zone_def Let_def m_def [symmetric] sign
    by (cases "off < 0") simp_all
qed (simp add: format_zone_def parse_zone_def)

lemma format_zone_head:
  "format_zone off \<noteq> []" "\<not> is_digit (hd (format_zone off))"
  "hd (format_zone off) \<noteq> CHR ''.''" "hd (format_zone off) \<noteq> CHR '',''"
  by (auto simp: format_zone_def Let_def is_digit_def)

lemma daysIn_le: "daysIn m y \<le> 31"
  by (simp add: daysIn_def)

theorem parse_format_time:
  assumes "time_ok t"
  shows "parse_time (format_time t) = Some t"
proof -
  let ?z = "format_zone (t_offset t)"
  let ?f = "format_frac (t_nsec t) @ ?z"
  have ok: "t_year t \<le> 9999" "t_month t < 100" "t_day t < 100" "t_hour t < 100" "t_min t < 100" "t_sec t < 100"
    using assms daysIn_le [of "t_month t" "t_year t"] by (auto simp: time_ok_def)
  have frac: "parse_frac ?f = (t_nsec t, ?z)"
    using assms format_zone_head [of "t_offset t"] by (intro parse_frac_format) (auto simp: time_ok_def)
  have zone: "parse_zone ?z = Some (t_offset t)"
    using assms by (intro parse_zone_format) (auto simp: time_ok_def)
  show ?thesis
    using assms by (simp add: parse_time_def format_time_def getyear_fixed field_after_fixed ok frac zone time_ok_def)
qed

lemma marshal_time_ok: "time_ok t \<Longrightarrow> \<exists>raw. marshal_time t = Some raw"
  by (simp add: marshal_time_def time_ok_def)

theorem dec_marshal_time:
  assumes "time_ok t"
  shows "\<exists>raw. marshal_time t = Some raw \<and> dec_time old raw = Some t"
  using assms parse_format_time [OF assms]
  by (simp add: marshal_time_def time_ok_def dec_time_def json_null_def butlast_append)

lemma dec_bool_bool: "dec_bool old (json_bool b) = Some b"
  by (simp add: dec_bool_def json_bool_def json_null_def)

section \<open>Written times and Booleans as values\<close>

lemma quote_body_plain:
  "list_all (\<lambda>c. bv c < 0x80 \<and> quote_ascii c = [c]) s \<Longrightarrow> quote_body s = s"
  by (induction s) (simp_all add: quote_body_pieces)

text \<open>The characters of a written time need no escape.\<close>

definition time_char :: "char \<Rightarrow> bool" where
  "time_char c \<longleftrightarrow> is_digit c \<or> c \<in> set ''-:.TZ+''"

lemma quote_ascii_plain:
  assumes "0x20 \<le> bv c" and "c \<notin> {CHR 0x22, CHR 0x5C, CHR ''<'', CHR ''>'', CHR ''&''}"
  shows "quote_ascii c = [c]"
proof -
  have "c \<notin> {CHR 0x08, CHR 0x0C, CHR 0x0A, CHR 0x0D, CHR 0x09}" using assms(1) by auto
  then show ?thesis using assms by (simp add: quote_ascii_def html_unsafe_def)
qed

lemma time_char_plain: "time_char c \<Longrightarrow> bv c < 0x80 \<and> quote_ascii c = [c]"
  by (auto simp: time_char_def is_digit_def intro!: quote_ascii_plain)

lemma digits_time_chars: "list_all is_digit ds \<Longrightarrow> list_all time_char ds"
  by (simp add: list_all_iff time_char_def)

lemma trim_zeros_digits: "list_all is_digit ds \<Longrightarrow> list_all is_digit (trim_zeros ds)"
  unfolding trim_zeros_def list_all_iff by (auto dest: set_dropWhileD)

lemma format_time_chars: "list_all time_char (format_time t)"
proof -
  have d: "list_all time_char (digits_fixed k n)" for k n
    by (intro digits_time_chars digits_fixed_digits)
  have "list_all time_char (format_frac n)" for n
    by (auto simp: format_frac_def time_char_def intro!: digits_time_chars trim_zeros_digits digits_fixed_digits)
  moreover have "list_all time_char (format_zone z)" for z
    using d by (auto simp: format_zone_def Let_def) (auto simp: time_char_def)
  moreover have "list_all time_char ''-''" "list_all time_char ''T''" "list_all time_char '':''"
    by (simp_all add: time_char_def)
  ultimately show ?thesis unfolding format_time_def by (simp only: list_all_append d)
qed

lemma marshal_time_quote: "marshal_time t = Some raw \<Longrightarrow> raw = json_quote (format_time t)"
proof -
  have "quote_body (format_time t) = format_time t"
    using format_time_chars [of t] by (intro quote_body_plain) (auto simp: list_all_iff time_char_plain)
  then show "marshal_time t = Some raw \<Longrightarrow> ?thesis"
    by (auto simp: marshal_time_def json_quote_def split: if_splits)
qed

text \<open>A value whose end the scanner finds whatever comes next.\<close>

definition self_delim :: "nat \<Rightarrow> string \<Rightarrow> bool" where
  "self_delim d x \<longleftrightarrow> x \<noteq> [] \<and> \<not> json_space (hd x) \<and>
     (\<forall>n t. length x \<le> n \<longrightarrow> scan_value n d (x @ t) = Some t)"

lemma self_delim_quote: "self_delim d (json_quote s)"
proof -
  have "scan_value n d (json_quote s @ t) = Some t" if "length (json_quote s) \<le> n" for n t
    using that by (cases n) (simp_all add: json_quote_def value_step_def scan_str_quote)
  then show ?thesis by (simp add: self_delim_def) (simp add: json_quote_def)
qed

lemma scan_bool: "0 < n \<Longrightarrow> scan_value n d (json_bool b @ t) = Some t"
  by (cases n) (simp_all add: json_bool_def value_step_def scan_literal_def)

lemma json_bool_head: "json_bool b \<noteq> []" "\<not> json_space (hd (json_bool b))"
  by (simp_all add: json_bool_def json_space_def)

lemma self_delim_bool: "self_delim d (json_bool b)"
  unfolding self_delim_def using json_bool_head [of b] scan_bool [of _ d b]
  by (metis bot_nat_0.not_eq_extremum le_zero_eq length_0_conv)

lemma settled_bool: "settled d (json_bool b)"
proof -
  have "compact False (json_bool b @ t) = json_bool b @ compact False t" for t
    by (simp add: json_bool_def compact_step_def html_unsafe_def line_sep_def json_space_def)
  with self_delim_bool [of d b] show ?thesis by (simp add: settled_def self_delim_def)
qed

section \<open>Reading an indented list\<close>

definition blank :: "string \<Rightarrow> bool" where
  "blank w \<longleftrightarrow> list_all json_space w"

lemma skip_blank: "blank w \<Longrightarrow> skip_ws (w @ t) = skip_ws t"
  by (induction w) (simp_all add: blank_def skip_ws_def)

lemma skip_self: "self_delim d x \<Longrightarrow> skip_ws (x @ t) = x @ t"
  by (cases x) (auto simp: self_delim_def skip_ws_Cons)

lemma raw_value_self:
  assumes "self_delim d v" and "length v \<le> n" and "blank z"
  shows "raw_value (scan_value n) d (v @ z @ t) = Some (v, skip_ws t)"
  using assms by (simp add: raw_value_def self_delim_def skip_blank)

lemma member_step_self:
  assumes "self_delim d v" and "length v \<le> n" and "blank z"
  shows "member_step (scan_value n) d (indent_member (k, v) @ z @ t) = Some ((quote_body k, v), skip_ws t)"
  using raw_value_self [OF assms, of t] skip_self [OF assms(1), of "z @ t"] skip_blank [of " '' ''"]
  by (simp add: member_step_def indent_member_def json_quote_def scan_str_quote skip_ws_Cons blank_def json_space_def)

lemma skip_indent_member: "skip_ws (indent_member kv @ t) = indent_member kv @ t"
  by (simp add: indent_member_def json_quote_def skip_ws_Cons)

lemma skip_Join_indent:
  assumes "kvs \<noteq> []"
  shows "skip_ws (Join (map indent_member kvs) s @ t) = Join (map indent_member kvs) s @ t"
  using assms by (cases kvs; cases "tl kvs") (simp_all add: skip_indent_member)

lemma scan_members_indent:
  assumes "kvs \<noteq> []" and "\<forall>kv \<in> set kvs. self_delim d (snd kv)" and "blank w" and "blank z"
    and "length (Join (map indent_member kvs) (CHR '','' # w)) < n"
  shows "scan_members n d (Join (map indent_member kvs) (CHR '','' # w) @ z @ CHR 0x7D # t)
           = Some (map (\<lambda>(k, v). (quote_body k, v)) kvs, t)"
  using assms
proof (induction kvs arbitrary: n rule: induct_list012)
  case (2 kv)
  obtain k v where kv: "kv = (k, v)" by (cases kv)
  obtain m where m: "n = Suc m" using 2 by (cases n) auto
  with 2 kv show ?case
    using member_step_self [of d v m z k "CHR 0x7D # t"]
    by (simp add: list_step_def indent_member_def skip_ws_Cons)
next
  case (3 kv kv' kvs)
  obtain k v where kv: "kv = (k, v)" by (cases kv)
  obtain m where m: "n = Suc m" using 3 by (cases n) auto
  let ?more = "Join (map indent_member (kv' # kvs)) (CHR '','' # w) @ z @ CHR 0x7D # t"
  have "member_step (scan_value m) d (indent_member kv @ [] @ CHR '','' # w @ ?more)
      = Some ((quote_body k, v), skip_ws (CHR '','' # w @ ?more))"
    using 3 kv m by (simp only: kv, intro member_step_self) (auto simp: indent_member_def blank_def)
  moreover have "skip_ws (w @ ?more) = ?more"
    using 3 skip_Join_indent [of "kv' # kvs"] by (simp add: skip_blank)
  moreover have "scan_members m d ?more = Some (map (\<lambda>(k, v). (quote_body k, v)) (kv' # kvs), t)"
    using 3 m by (intro "3.IH") auto
  ultimately show ?case using m kv by (simp add: list_step_def skip_ws_Cons)
qed simp

lemma scan_elems_indent:
  assumes "vs \<noteq> []" and "\<forall>v \<in> set vs. self_delim d v" and "blank w" and "blank z"
    and "length (Join vs (CHR '','' # w)) < n"
  shows "scan_elems n d (Join vs (CHR '','' # w) @ z @ CHR 0x5D # t) = Some (vs, t)"
  using assms
proof (induction vs arbitrary: n rule: induct_list012)
  case (2 v)
  obtain m where m: "n = Suc m" using 2 by (cases n) auto
  with 2 show ?case
    using raw_value_self [of d v m z "CHR 0x5D # t"] by (simp add: list_step_def skip_ws_Cons)
next
  case (3 v v' vs)
  obtain m where m: "n = Suc m" using 3 by (cases n) auto
  let ?more = "Join (v' # vs) (CHR '','' # w) @ z @ CHR 0x5D # t"
  have "raw_value (scan_value m) d (v @ [] @ CHR '','' # w @ ?more) = Some (v, skip_ws (CHR '','' # w @ ?more))"
    using 3 m by (intro raw_value_self) (auto simp: blank_def)
  moreover have "skip_ws ?more = ?more"
    using 3 skip_self [of d v'] by (cases vs) auto
  then have "skip_ws (w @ ?more) = ?more" using 3 by (simp add: skip_blank)
  moreover have "scan_elems m d ?more = Some (v' # vs, t)"
    using 3 m by (intro "3.IH") auto
  ultimately show ?case using m by (simp add: list_step_def skip_ws_Cons)
qed simp

lemma blank_indents [simp]: "blank (CHR 0x0A # ''    '')" "blank (CHR 0x0A # ''  '')" "blank [CHR 0x0A]" "blank []"
  by (simp_all add: blank_def json_space_def)

lemma skip_indent [simp]: "skip_ws (CHR 0x0A # t) = skip_ws t" "skip_ws (CHR '' '' # t) = skip_ws t"
  by (simp_all add: skip_ws_def json_space_def)

lemma object_step_indent:
  assumes "kvs \<noteq> []" and "\<forall>kv \<in> set kvs. self_delim d (snd kv)" and "length (indent_object kvs) \<le> Suc n"
  shows "object_step (scan_members n) (Suc d) (tl (indent_object kvs) @ t)
           = Some (map (\<lambda>(k, v). (quote_body k, v)) kvs, t)"
proof -
  let ?j = "Join (map indent_member kvs) (CHR '','' # CHR 0x0A # ''    '')"
  let ?m = "?j @ (CHR 0x0A # ''  '') @ CHR 0x7D # t"
  have "skip_ws ?m = ?m" using assms(1) by (rule skip_Join_indent)
  moreover obtain r where "?m = CHR 0x22 # r"
    using assms(1) by (cases kvs; cases "tl kvs") (auto simp: indent_member_def json_quote_def)
  moreover have "scan_members n d ?m = Some (map (\<lambda>(k, v). (quote_body k, v)) kvs, t)"
    using assms by (intro scan_members_indent) (auto simp: indent_object_def)
  ultimately show ?thesis by (simp add: object_step_def indent_object_def)
qed

lemma indent_object_Cons: "indent_object kvs = CHR 0x7B # tl (indent_object kvs)"
  by (simp add: indent_object_def)

lemma self_delim_indent_object:
  assumes "kvs \<noteq> []" and "\<forall>kv \<in> set kvs. self_delim d (snd kv)"
  shows "self_delim (Suc d) (indent_object kvs)"
proof -
  have "scan_value n (Suc d) (indent_object kvs @ t) = Some t" if n: "length (indent_object kvs) \<le> n" for n t
  proof -
    obtain m where m: "n = Suc m" using n by (cases n) (auto simp: indent_object_def)
    then show ?thesis
      using object_step_indent [OF assms, of m t] n by (subst indent_object_Cons) (simp add: value_step_def)
  qed
  then show ?thesis by (simp add: self_delim_def) (simp add: indent_object_def)
qed

lemma array_step_indent:
  assumes "\<forall>v \<in> set vs. self_delim d v" and "length (indent_array vs) \<le> Suc n"
  shows "array_step (scan_elems n) (Suc d) (tl (indent_array vs) @ t) = Some (vs, t)"
proof (cases vs)
  case Nil
  then show ?thesis by (simp add: array_step_def indent_array_def skip_ws_Cons)
next
  case (Cons v vs')
  let ?m = "Join vs (CHR '','' # CHR 0x0A # ''  '') @ [CHR 0x0A] @ CHR 0x5D # t"
  have v: "self_delim d v" using assms Cons by simp
  have "skip_ws ?m = ?m" using Cons skip_self [OF v] by (cases vs') auto
  moreover obtain c r where "?m = c # r" "v = c # tl v"
    using Cons v by (cases vs'; cases v) (auto simp: self_delim_def)
  moreover have "scan_elems n d ?m = Some (vs, t)"
    using assms Cons by (intro scan_elems_indent) (auto simp: indent_array_def)
  moreover have "c \<noteq> CHR 0x5D"
    using v \<open>v = c # tl v\<close> scan_close [of "length v" d] unfolding self_delim_def
    by (metis append_Nil2 order_refl option.distinct(1))
  ultimately show ?thesis using Cons by (simp add: array_step_def indent_array_def)
qed

lemma indent_array_Cons: "indent_array vs = CHR 0x5B # tl (indent_array vs)"
  by (simp add: indent_array_def)

lemma self_delim_indent_array:
  assumes "\<forall>v \<in> set vs. self_delim d v"
  shows "self_delim (Suc d) (indent_array vs)"
proof -
  have "scan_value n (Suc d) (indent_array vs @ t) = Some t" if n: "length (indent_array vs) \<le> n" for n t
  proof -
    obtain m where m: "n = Suc m" using n by (cases n) (auto simp: indent_array_def split: if_splits)
    then show ?thesis
      using array_step_indent [OF assms, of m t] n by (subst indent_array_Cons) (simp add: value_step_def)
  qed
  moreover have "indent_array vs \<noteq> []" "hd (indent_array vs) = CHR 0x5B" by (simp_all add: indent_array_def)
  ultimately show ?thesis by (simp add: self_delim_def)
qed

lemma self_delim_scan: "self_delim d x \<Longrightarrow> length x \<le> n \<Longrightarrow> scan_value n d (x @ t) = Some t"
  by (simp add: self_delim_def)

lemma self_delim_valid: "self_delim max_nesting x \<Longrightarrow> json_Valid x \<and> skip_ws x = x"
  using skip_self [of max_nesting x "[]"] self_delim_scan [of max_nesting x "Suc (length x)" "[]"]
  by (simp add: json_Valid_def del: scan_value.simps)

theorem json_members_indent:
  assumes "kvs \<noteq> []" and "\<forall>kv \<in> set kvs. self_delim inner_nesting (snd kv)"
  shows "json_members (indent_object kvs) = Some (map (\<lambda>(k, v). (to_valid k, v)) kvs)"
proof -
  let ?s = "indent_object kvs"
  have "json_Valid ?s" "skip_ws ?s = ?s"
    using self_delim_indent_object [OF assms] by (simp_all add: Suc_inner self_delim_valid)
  moreover have "object_step (scan_members (length ?s)) max_nesting (tl ?s)
      = Some (map (\<lambda>(k, v). (quote_body k, v)) kvs, [])"
    using object_step_indent [OF assms, of "length ?s" "[]"] by (simp add: Suc_inner)
  ultimately show ?thesis
    using indent_object_Cons [of kvs]
    by (simp add: json_members_def) (auto simp: unquote_quote split: list.splits)
qed

theorem json_elems_indent:
  assumes "\<forall>v \<in> set vs. self_delim inner_nesting v"
  shows "json_elems (indent_array vs) = Some vs"
proof -
  let ?s = "indent_array vs"
  have "json_Valid ?s" "skip_ws ?s = ?s"
    using self_delim_indent_array [OF assms] by (simp_all add: Suc_inner self_delim_valid)
  moreover have "array_step (scan_elems (length ?s)) max_nesting (tl ?s) = Some (vs, [])"
    using array_step_indent [OF assms, of "length ?s" "[]"] by (simp add: Suc_inner)
  ultimately show ?thesis
    using indent_array_Cons [of vs] by (simp add: json_elems_def) (auto split: list.splits)
qed

lemma self_delim_time: "marshal_time t = Some raw \<Longrightarrow> self_delim d raw"
  using marshal_time_quote [of t raw] by (simp add: self_delim_quote)

lemma settled_time: "marshal_time t = Some raw \<Longrightarrow> settled d raw"
  using marshal_time_quote [of t raw] by (simp add: settled_quote)

end
