(* ===== verification/File_System.thy ===== *)
theory File_System
  imports Agdas_Prelude Go_Time
begin

text \<open>
  What the program uses of \<open>os\<close> and \<open>path/filepath\<close>: a disk of files and directories, the calls
  that read and change it, and the lexical operations on paths.

  A disk maps paths to contents. Every call may fail; the record \<open>os\<close> says for each step of the
  run whether the call succeeds, how many bytes a failing write has written, what the clock
  shows and what the random source gives. A theorem for every such record covers every
  combination of failures, and a crash too: it is a run in which all calls from some step on fail.
\<close>

section \<open>Paths\<close>

text \<open>\<open>filepath.Clean\<close> and \<open>filepath.Join\<close> on Unix: the components of the path as a stack.\<close>

definition slash :: char where
  "slash = CHR ''/''"

definition rooted :: "string \<Rightarrow> bool" where
  "rooted p \<longleftrightarrow> p \<noteq> [] \<and> hd p = slash"

definition clean_step :: "bool \<Rightarrow> string \<Rightarrow> string list \<Rightarrow> string list" where
  "clean_step r c st =
     (if c = [] \<or> c = ''.'' then st
      else if c = ''..'' then
        (if st \<noteq> [] \<and> last st \<noteq> ''..'' then butlast st else if r then st else st @ [c])
      else st @ [c])"

definition path_stack :: "string \<Rightarrow> string list" where
  "path_stack p = fold (clean_step (rooted p)) (split_char slash p) []"

definition unstack :: "bool \<Rightarrow> string list \<Rightarrow> string" where
  "unstack r st =
     (let p = (if r then [slash] else []) @ Join st [slash] in if p = [] then ''.'' else p)"

definition path_Clean :: "string \<Rightarrow> string" where
  "path_Clean p = unstack (rooted p) (path_stack p)"

definition path_Join :: "string list \<Rightarrow> string" where
  "path_Join elems =
     (let es = dropWhile (\<lambda>e. e = []) elems in if es = [] then [] else path_Clean (Join es [slash]))"

definition path_Dir :: "string \<Rightarrow> string" where
  "path_Dir p = path_Clean (rev (dropWhile (\<lambda>c. c \<noteq> slash) (rev p)))"

section \<open>The disk\<close>

datatype io_error = NotExist | AlreadyExists | IoFailure

record os =
  os_ok :: "nat \<Rightarrow> bool"
  os_part :: "nat \<Rightarrow> nat"
  os_temp :: "nat \<Rightarrow> nat"
  os_now :: "nat \<Rightarrow> time"
  os_unix_ns :: "nat \<Rightarrow> int"   \<comment> \<open>the same clock as \<open>UnixNano\<close>\<close>
  os_local :: "int \<Rightarrow> time"     \<comment> \<open>\<open>time.UnixMilli\<close> in the zone of the machine\<close>
  os_rand :: "nat \<Rightarrow> nat \<Rightarrow> bytes option"

record disk =
  files :: "(string, bytes) gomap"
  dirs :: "string list"
  io_step :: nat

definition stepped :: "disk \<Rightarrow> disk" where
  "stepped d = d\<lparr>io_step := Suc (io_step d)\<rparr>"

definition set_file :: "string \<Rightarrow> bytes \<Rightarrow> disk \<Rightarrow> disk" where
  "set_file p x d = d\<lparr>files := mput p x (files d)\<rparr>"

definition del_file :: "string \<Rightarrow> disk \<Rightarrow> disk" where
  "del_file p d = d\<lparr>files := mdel p (files d)\<rparr>"

definition content :: "disk \<Rightarrow> string \<Rightarrow> bytes option" where
  "content d p = mlookup (files d) p"

definition io_guard :: "os \<Rightarrow> disk \<Rightarrow> (disk \<Rightarrow> disk \<times> (io_error + 'a)) \<Rightarrow> disk \<times> (io_error + 'a)" where
  "io_guard I d f = (if os_ok I (io_step d) then f (stepped d) else (stepped d, Inl IoFailure))"

definition ReadFile :: "os \<Rightarrow> string \<Rightarrow> disk \<Rightarrow> disk \<times> (io_error + bytes)" where
  "ReadFile I p d =
     io_guard I d (\<lambda>d1. (d1, case content d1 p of None \<Rightarrow> Inl NotExist | Some x \<Rightarrow> Inr x))"

text \<open>\<open>os.WriteFile\<close> opens with truncation and then writes; a failing write leaves a part.\<close>

definition write_open :: "os \<Rightarrow> string \<Rightarrow> bytes \<Rightarrow> disk \<Rightarrow> disk \<times> (io_error + unit)" where
  "write_open I p x d =
     (if os_ok I (io_step d) then (stepped (set_file p (mget [] (files d) p @ x) d), Inr ())
      else (stepped (set_file p (mget [] (files d) p @ take (os_part I (io_step d)) x) d), Inl IoFailure))"

definition WriteFile :: "os \<Rightarrow> string \<Rightarrow> bytes \<Rightarrow> disk \<Rightarrow> disk \<times> (io_error + unit)" where
  "WriteFile I p x d = io_guard I d (\<lambda>d1. write_open I p x (set_file p [] d1))"

text \<open>\<open>os.CreateTemp\<close>: up to 10000 attempts at a name that is not taken.\<close>

fun create_temp :: "os \<Rightarrow> nat \<Rightarrow> string \<Rightarrow> string \<Rightarrow> disk \<Rightarrow> disk \<times> (io_error + string)" where
  "create_temp I tries pre suf d =
     (let name = pre @ dec_nat (os_temp I (io_step d)) @ suf in
      if \<not> os_ok I (io_step d) then (stepped d, Inl IoFailure)
      else if content d name = None then (stepped (set_file name [] d), Inr name)
      else if tries \<le> 1 then (stepped d, Inl AlreadyExists)
      else create_temp I (tries - 1) pre suf (stepped d))"

declare create_temp.simps [simp del]

definition CreateTemp :: "os \<Rightarrow> string \<Rightarrow> string \<Rightarrow> string \<Rightarrow> disk \<Rightarrow> disk \<times> (io_error + string)" where
  "CreateTemp I dir pre suf d =
     create_temp I 10000 ((if dir \<noteq> [] \<and> last dir = slash then dir else dir @ [slash]) @ pre) suf d"

text \<open>\<open>File.Sync\<close> and \<open>File.Close\<close> change no content.\<close>

definition sync_file :: "os \<Rightarrow> disk \<Rightarrow> disk \<times> (io_error + unit)" where
  "sync_file I d = io_guard I d (\<lambda>d1. (d1, Inr ()))"

definition close_file :: "os \<Rightarrow> disk \<Rightarrow> disk \<times> (io_error + unit)" where
  "close_file I d = io_guard I d (\<lambda>d1. (d1, Inr ()))"

definition Rename :: "os \<Rightarrow> string \<Rightarrow> string \<Rightarrow> disk \<Rightarrow> disk \<times> (io_error + unit)" where
  "Rename I old new d =
     io_guard I d (\<lambda>d1. case content d1 old of
        None \<Rightarrow> (d1, Inl NotExist)
      | Some x \<Rightarrow> (set_file new x (del_file old d1), Inr ()))"

definition Remove :: "os \<Rightarrow> string \<Rightarrow> disk \<Rightarrow> disk \<times> (io_error + unit)" where
  "Remove I p d =
     io_guard I d (\<lambda>d1. if content d1 p = None then (d1, Inl NotExist) else (del_file p d1, Inr ()))"

definition MkdirAll :: "os \<Rightarrow> string \<Rightarrow> disk \<Rightarrow> disk \<times> (io_error + unit)" where
  "MkdirAll I p d = io_guard I d (\<lambda>d1. (d1\<lparr>dirs := List.insert p (dirs d1)\<rparr>, Inr ()))"

text \<open>\<open>os.Stat\<close> without error, and \<open>os.ReadDir\<close>: the entries of a directory in the order of their names.\<close>

definition stat_ok :: "os \<Rightarrow> string \<Rightarrow> disk \<Rightarrow> disk \<times> bool" where
  "stat_ok I p d = (stepped d, os_ok I (io_step d) \<and> (content d p \<noteq> None \<or> p \<in> set (dirs d)))"

definition child_name :: "string \<Rightarrow> string \<Rightarrow> string option" where
  "child_name dir p =
     (if prefix (dir @ [slash]) p
      then (let name = drop (Suc (length dir)) p in if name = [] \<or> slash \<in> set name then None else Some name)
      else None)"

definition ReadDir :: "os \<Rightarrow> string \<Rightarrow> disk \<Rightarrow> disk \<times> (io_error + (string \<times> bool) list)" where
  "ReadDir I dir d =
     io_guard I d (\<lambda>d1.
       (d1, if dir \<notin> set (dirs d1) then Inl NotExist
            else Inr (sort_key fst
                  (map (\<lambda>n. (n, False)) (List.map_filter (\<lambda>(p, _). child_name dir p) (files d1))
                   @ map (\<lambda>n. (n, True)) (List.map_filter (child_name dir) (dirs d1))))))"

text \<open>\<open>time.Now()\<close> and \<open>rand.Read\<close>.\<close>

definition time_now :: "os \<Rightarrow> disk \<Rightarrow> disk \<times> time" where
  "time_now I d = (stepped d, os_now I (io_step d))"

definition rand_Read :: "os \<Rightarrow> nat \<Rightarrow> disk \<Rightarrow> disk \<times> bytes option" where
  "rand_Read I n d = (stepped d, os_rand I (io_step d) n)"

section \<open>Replacing a file\<close>

text \<open>
  The write of \<open>verifications.go\<close> and \<open>history.go\<close>: a temporary file beside the target is written,
  synced and closed, and renamed over the target; the deferred \<open>os.Remove\<close> of the temporary name
  runs on every path out.
\<close>

datatype replace_error =
    TempCreate io_error
  | TempWrite
  | TempSync
  | TempClose
  | TempRename io_error

definition replace_body :: "os \<Rightarrow> string \<Rightarrow> string \<Rightarrow> bytes \<Rightarrow> disk \<Rightarrow> disk \<times> (replace_error + unit)" where
  "replace_body I tmp path x d =
     (case write_open I tmp x d of
        (d1, Inl _) \<Rightarrow> (fst (close_file I d1), Inl TempWrite)
      | (d1, Inr _) \<Rightarrow>
          (case sync_file I d1 of
             (d2, Inl _) \<Rightarrow> (fst (close_file I d2), Inl TempSync)
           | (d2, Inr _) \<Rightarrow>
               (case close_file I d2 of
                  (d3, Inl _) \<Rightarrow> (d3, Inl TempClose)
                | (d3, Inr _) \<Rightarrow>
                    (case Rename I tmp path d3 of
                       (d4, Inl e) \<Rightarrow> (d4, Inl (TempRename e))
                     | (d4, Inr _) \<Rightarrow> (d4, Inr ())))))"

definition replace_file ::
  "os \<Rightarrow> string \<Rightarrow> string \<Rightarrow> string \<Rightarrow> string \<Rightarrow> bytes \<Rightarrow> disk \<Rightarrow> disk \<times> (replace_error + unit)"
where
  "replace_file I dir pre suf path x d =
     (case CreateTemp I dir pre suf d of
        (d1, Inl e) \<Rightarrow> (d1, Inl (TempCreate e))
      | (d1, Inr tmp) \<Rightarrow>
          (case replace_body I tmp path x d1 of (d2, r) \<Rightarrow> (fst (Remove I tmp d2), r)))"

section \<open>What the calls change\<close>

lemma content_stepped [simp]: "content (stepped d) = content d"
  by (simp add: content_def stepped_def fun_eq_iff)

lemma content_set_file [simp]: "content (set_file p x d) = (content d)(p \<mapsto> x)"
  by (simp add: content_def set_file_def fun_eq_iff gomap_simps)

lemma content_del_file [simp]: "content (del_file p d) = (content d)(p := None)"
  by (simp add: content_def del_file_def fun_eq_iff gomap_simps)

lemma mget_content: "mget [] (files d) p = (case content d p of None \<Rightarrow> [] | Some x \<Rightarrow> x)"
  by (simp add: content_def mget_def)

lemma content_ReadFile [simp]: "content (fst (ReadFile I p d)) = content d"
  by (simp add: ReadFile_def io_guard_def)

lemma content_sync [simp]: "content (fst (sync_file I d)) = content d"
  by (simp add: sync_file_def io_guard_def)

lemma content_close [simp]: "content (fst (close_file I d)) = content d"
  by (simp add: close_file_def io_guard_def)

lemma content_time_now [simp]: "content (fst (time_now I d)) = content d"
  by (simp add: time_now_def)

lemma content_rand_Read [simp]: "content (fst (rand_Read I n d)) = content d"
  by (simp add: rand_Read_def)

lemma content_Remove:
  "content (fst (Remove I p d)) = content d \<or> content (fst (Remove I p d)) = (content d)(p := None)"
  by (simp add: Remove_def io_guard_def)

lemma content_write_open_other: "q \<noteq> p \<Longrightarrow> content (fst (write_open I p x d)) q = content d q"
  by (simp add: write_open_def)

lemma content_write_open_ok:
  "write_open I p x d = (d', Inr u) \<Longrightarrow> content d p = Some y \<Longrightarrow> content d' p = Some (y @ x)"
  by (auto simp: write_open_def mget_content split: if_splits)

lemma create_temp_ok:
  "create_temp I n pre suf d = (d', Inr t) \<Longrightarrow>
     content d t = None \<and> content d' = (content d)(t \<mapsto> []) \<and> (\<exists>k. t = pre @ dec_nat k @ suf)"
proof (induction I n pre suf d rule: create_temp.induct)
  case (1 I n pre suf d)
  from 1(2) show ?case
    by (subst (asm) create_temp.simps) (use 1(1) [OF refl] in \<open>auto simp: Let_def split: if_splits\<close>)
qed

lemma create_temp_fail: "create_temp I n pre suf d = (d', Inl e) \<Longrightarrow> content d' = content d"
proof (induction I n pre suf d rule: create_temp.induct)
  case (1 I n pre suf d)
  from 1(2) show ?case
    by (subst (asm) create_temp.simps) (use 1(1) [OF refl] in \<open>auto simp: Let_def split: if_splits\<close>)
qed

text \<open>The names \<open>CreateTemp\<close> may choose.\<close>

definition temp_prefix :: "string \<Rightarrow> string \<Rightarrow> string" where
  "temp_prefix dir pre = (if dir \<noteq> [] \<and> last dir = slash then dir else dir @ [slash]) @ pre"

definition temp_name :: "string \<Rightarrow> string \<Rightarrow> string \<Rightarrow> nat \<Rightarrow> string" where
  "temp_name dir pre suf k = temp_prefix dir pre @ dec_nat k @ suf"

lemma CreateTemp_cases:
  obtains (fail) d' e where "CreateTemp I dir pre suf d = (d', Inl e)" "content d' = content d"
  | (ok) d' t k where "CreateTemp I dir pre suf d = (d', Inr t)" "content d t = None"
      "content d' = (content d)(t \<mapsto> [])" "t = temp_name dir pre suf k"
  using create_temp_ok [of I 10000 "temp_prefix dir pre" suf d] create_temp_fail [of I 10000 "temp_prefix dir pre" suf d]
  unfolding CreateTemp_def temp_name_def temp_prefix_def
  by (metis surj_pair sum.exhaust)

lemma replace_body_spec:
  assumes "replace_body I tmp path x d = (d', r)" and "content d tmp = Some []" and "tmp \<noteq> path"
  shows "case r of
      Inr _ \<Rightarrow> content d' = (content d)(tmp := None, path := Some x)
    | Inl _ \<Rightarrow> (\<exists>y. content d' = (content d)(tmp := y))"
proof -
  obtain d1 w where w: "write_open I tmp x d = (d1, w)" by fastforce
  have d1: "\<exists>y. content d1 = (content d)(tmp := y)"
    using w by (auto simp: write_open_def split: if_splits)
  have ok: "w = Inr u \<Longrightarrow> content d1 = (content d)(tmp := Some x)" for u
    using w content_write_open_ok [of I tmp x d d1 u "[]"] assms(2) d1 by auto
  show ?thesis
    using assms w d1 ok
    by (auto simp: replace_body_def sync_file_def close_file_def Rename_def io_guard_def
        split: sum.splits if_splits option.splits)
qed

lemma replace_file_content:
  assumes "replace_file I dir pre suf path x d = (d', r)" and "\<And>k. path \<noteq> temp_name dir pre suf k"
  shows "content d' path = (case r of Inr _ \<Rightarrow> Some x | Inl _ \<Rightarrow> content d path)"
    and "q \<noteq> path \<Longrightarrow> content d' q = content d q \<or> (content d q = None \<and> (\<exists>k. q = temp_name dir pre suf k))"
proof -
  have "content d' path = (case r of Inr _ \<Rightarrow> Some x | Inl _ \<Rightarrow> content d path) \<and>
    (q \<noteq> path \<longrightarrow> content d' q = content d q \<or> (content d q = None \<and> (\<exists>k. q = temp_name dir pre suf k)))"
  proof (rule CreateTemp_cases [of I dir pre suf d])
    fix d1 t k
    assume t: "CreateTemp I dir pre suf d = (d1, Inr t)" "content d t = None"
      "content d1 = (content d)(t \<mapsto> [])" "t = temp_name dir pre suf k"
    obtain d2 r2 where b: "replace_body I t path x d1 = (d2, r2)" by fastforce
    have tp: "t \<noteq> path" using assms(2) t(4) by metis
    have r: "r2 = r" "d' = fst (Remove I t d2)" using assms(1) t(1) b by (simp_all add: replace_file_def)
    show ?thesis
      using replace_body_spec [OF b] t tp r content_Remove [of I t d2] by (cases r) (auto split: if_splits)
  qed (use assms(1) in \<open>auto simp: replace_file_def\<close>)
  then show "content d' path = (case r of Inr _ \<Rightarrow> Some x | Inl _ \<Rightarrow> content d path)"
    and "q \<noteq> path \<Longrightarrow> content d' q = content d q \<or> (content d q = None \<and> (\<exists>k. q = temp_name dir pre suf k))"
    by blast+
qed

text \<open>When every call succeeds and the first temporary name is free, the replacement succeeds.\<close>

lemma replace_file_succeeds:
  assumes "\<And>n. os_ok I n" and "content d (temp_name dir pre suf (os_temp I (io_step d))) = None"
  shows "snd (replace_file I dir pre suf path x d) = Inr ()"
  using assms
  by (simp add: replace_file_def CreateTemp_def create_temp.simps Let_def temp_name_def temp_prefix_def
      replace_body_def write_open_def sync_file_def close_file_def Rename_def io_guard_def)

section \<open>Paths of files in a directory\<close>

text \<open>A name that is one component of a path.\<close>

definition plain_name :: "string \<Rightarrow> bool" where
  "plain_name n \<longleftrightarrow> n \<noteq> [] \<and> n \<noteq> ''.'' \<and> n \<noteq> ''..'' \<and> slash \<notin> set n"

lemma hd_not_slash: "slash \<notin> set x \<Longrightarrow> x \<noteq> [] \<Longrightarrow> hd x \<noteq> slash"
  by (cases x) auto

lemma clean_step_plain: "plain_name n \<Longrightarrow> clean_step r n st = st @ [n]"
  by (simp add: clean_step_def plain_name_def)

lemma rooted_append: "p \<noteq> [] \<Longrightarrow> rooted (p @ q) = rooted p"
  by (simp add: rooted_def)

lemma split_char_append_all: "split_char c (s @ c # t) = split_char c s @ split_char c t"
  by (induction s) (auto split: list.splits simp: Cons_eq_append_conv)

lemma path_stack_append:
  assumes "p \<noteq> []" and "plain_name n"
  shows "path_stack (p @ slash # n) = path_stack p @ [n]"
proof -
  have "split_char slash n = [n]" using assms(2) by (simp add: plain_name_def split_char_none)
  then show ?thesis
    using assms by (simp add: path_stack_def rooted_append split_char_append_all clean_step_plain)
qed

lemma Join_snoc: "Join (xs @ [x]) s = (if xs = [] then x else Join xs s @ s @ x)"
  by (induction xs s rule: Join.induct) auto

lemma path_Clean_append:
  assumes "p \<noteq> []" and "plain_name n"
  shows "path_Clean (p @ slash # n) = (if rooted p then [slash] else []) @ Join (path_stack p @ [n]) [slash]"
  using assms by (simp add: path_Clean_def unstack_def Let_def path_stack_append rooted_append Join_snoc plain_name_def)

lemma path_Clean_plain: "plain_name n \<Longrightarrow> path_Clean n = n"
  using hd_not_slash [of n] clean_step_plain [of n False "[]"]
  by (auto simp: path_Clean_def unstack_def path_stack_def split_char_none plain_name_def rooted_def Let_def)

text \<open>A joined path ends in the name.\<close>

lemma path_Join_name:
  assumes "plain_name n"
  shows "\<exists>pre. path_Join [x, n] = pre @ n"
proof (cases "x = []")
  case True
  moreover have "n \<noteq> []" using assms by (simp add: plain_name_def)
  ultimately show ?thesis using assms by (simp add: path_Join_def Let_def path_Clean_plain)
next
  case False
  then show ?thesis using assms path_Clean_append [OF False assms]
    by (simp add: path_Join_def Let_def Join_snoc)
qed

text \<open>A clean directory path: joining a name puts it behind a slash.\<close>

definition clean_dir :: "string \<Rightarrow> bool" where
  "clean_dir p \<longleftrightarrow> p \<noteq> [] \<and> path_stack p \<noteq> [] \<and> path_Clean p = p"

lemma Join_not_Nil: "\<forall>c \<in> set st. c \<noteq> [] \<Longrightarrow> st \<noteq> [] \<Longrightarrow> Join st s \<noteq> []"
  by (induction st s rule: Join.induct) auto

text \<open>Stacks of clean paths: no empty component, no dot, and parent components only in front.\<close>

definition norm_stack :: "bool \<Rightarrow> string list \<Rightarrow> bool" where
  "norm_stack r st \<longleftrightarrow> (\<forall>c \<in> set st. c \<noteq> [] \<and> c \<noteq> ''.'' \<and> slash \<notin> set c) \<and>
     (\<exists>k rest. st = replicate k ''..'' @ rest \<and> ''..'' \<notin> set rest \<and> (r \<longrightarrow> k = 0))"

lemma norm_stack_Nil: "norm_stack r []"
  by (simp add: norm_stack_def)

lemma norm_stack_push:
  assumes "norm_stack r st" and "c \<noteq> []" "c \<noteq> ''.''" "c \<noteq> ''..''" "slash \<notin> set c"
  shows "norm_stack r (st @ [c])"
proof -
  obtain k rest where "st = replicate k ''..'' @ rest" "''..'' \<notin> set rest" "r \<longrightarrow> k = 0"
    using assms(1) by (auto simp: norm_stack_def)
  then have "st @ [c] = replicate k ''..'' @ (rest @ [c]) \<and> ''..'' \<notin> set (rest @ [c]) \<and> (r \<longrightarrow> k = 0)"
    using assms by simp
  then show ?thesis using assms unfolding norm_stack_def by (intro conjI) (simp, blast)
qed

lemma norm_stack_up:
  assumes "norm_stack r st"
  shows "norm_stack r (clean_step r ''..'' st)"
proof -
  obtain k rest where st: "st = replicate k ''..'' @ rest" "''..'' \<notin> set rest" "r \<longrightarrow> k = 0"
    using assms by (auto simp: norm_stack_def)
  have chars: "\<forall>c \<in> set st. c \<noteq> [] \<and> c \<noteq> ''.'' \<and> slash \<notin> set c" using assms by (simp add: norm_stack_def)
  show ?thesis
  proof (cases rest rule: rev_cases)
    case Nil
    have "replicate k ''..'' @ [''..''] = replicate (Suc k) ''..'' @ []" by (simp add: replicate_append_same)
    moreover have "k \<noteq> 0 \<Longrightarrow> last (replicate k ''..'') = ''..''" by simp
    ultimately show ?thesis
      using st chars Nil unfolding norm_stack_def clean_step_def
      by (cases "k = 0") (auto simp: slash_def intro: exI [of _ "Suc k"])
  next
    case (snoc ys y)
    then have "clean_step r ''..'' st = replicate k ''..'' @ ys"
      using st by (auto simp: clean_step_def butlast_append)
    then show ?thesis using st chars snoc unfolding norm_stack_def by auto
  qed
qed

lemma norm_stack_step:
  "norm_stack r st \<Longrightarrow> slash \<notin> set c \<Longrightarrow> norm_stack r (clean_step r c st)"
  using norm_stack_up [of r st] norm_stack_push [of r st c] by (cases "c = ''..''") (simp_all add: clean_step_def)

lemma split_char_parts: "c \<in> set (split_char s p) \<Longrightarrow> s \<notin> set c"
  by (induction p arbitrary: c) (auto split: if_splits list.splits)

lemma norm_stack_fold:
  "norm_stack r st \<Longrightarrow> \<forall>c \<in> set cs. slash \<notin> set c \<Longrightarrow> norm_stack r (fold (clean_step r) cs st)"
  by (induction cs arbitrary: st) (simp_all add: norm_stack_step)

lemma norm_path_stack: "norm_stack (rooted p) (path_stack p)"
  unfolding path_stack_def using split_char_parts by (intro norm_stack_fold norm_stack_Nil) blast

text \<open>Splitting a clean path gives its stack back.\<close>

lemma fold_clean_plain:
  "\<forall>c \<in> set cs. c \<noteq> [] \<and> c \<noteq> ''.'' \<and> c \<noteq> ''..'' \<Longrightarrow> fold (clean_step r) cs st = st @ cs"
  by (induction cs arbitrary: st) (simp_all add: clean_step_def)

lemma fold_clean_ups: "fold (clean_step False) (replicate k ''..'') (replicate j ''..'') = replicate (j + k) ''..''"
proof (induction k arbitrary: j)
  case (Suc k)
  have "clean_step False ''..'' (replicate j ''..'') = replicate (Suc j) ''..''"
    by (auto simp: clean_step_def replicate_append_same)
  then show ?case using Suc [of "Suc j"] by simp
qed simp

lemma fold_clean_norm:
  assumes "norm_stack r st"
  shows "fold (clean_step r) st [] = st"
proof -
  obtain k rest where st: "st = replicate k ''..'' @ rest" "''..'' \<notin> set rest" "r \<longrightarrow> k = 0"
    using assms by (auto simp: norm_stack_def)
  have rest: "\<forall>c \<in> set rest. c \<noteq> [] \<and> c \<noteq> ''.'' \<and> c \<noteq> ''..''"
    using st assms by (auto simp: norm_stack_def)
  show ?thesis
    using fold_clean_ups [of k 0] fold_clean_plain [OF rest] st by (cases r) auto
qed

lemma split_Join: "\<forall>c \<in> set st. slash \<notin> set c \<Longrightarrow> st \<noteq> [] \<Longrightarrow> split_char slash (Join st [slash]) = st"
  by (induction st "[slash]" rule: Join.induct) (simp_all add: split_char_none split_char_append)

lemma path_stack_unstack:
  assumes "norm_stack r st" and "st \<noteq> []"
  shows "rooted (unstack r st) = r" and "path_stack (unstack r st) = st" and "unstack r st \<noteq> []"
proof -
  have c: "\<forall>c \<in> set st. c \<noteq> [] \<and> slash \<notin> set c" using assms(1) by (simp add: norm_stack_def)
  then have j: "Join st [slash] \<noteq> []" using assms(2) by (intro Join_not_Nil) auto
  obtain x xs where x: "st = x # xs" using assms(2) by (cases st) auto
  have "hd (Join st [slash]) \<noteq> slash"
    using c x hd_not_slash [of x] by (cases xs) auto
  then show r: "rooted (unstack r st) = r" and "unstack r st \<noteq> []"
    using j by (auto simp: rooted_def unstack_def Let_def)
  have "fold (clean_step r) (split_char slash (unstack r st)) [] = fold (clean_step r) st []"
    using j c assms(2) split_Join [of st] by (simp add: unstack_def Let_def clean_step_def)
  then show "path_stack (unstack r st) = st"
    using r fold_clean_norm [OF assms(1)] by (simp add: path_stack_def)
qed

theorem clean_dir_Join:
  assumes "plain_name n"
  shows "clean_dir (path_Join [x, n])"
proof -
  have "\<exists>p. path_Join [x, n] = path_Clean p \<and> path_stack p \<noteq> []"
  proof (cases "x = []")
    case True
    moreover have "n \<noteq> []" "path_stack n = [n]"
      using assms clean_step_plain [OF assms] by (auto simp: plain_name_def path_stack_def split_char_none)
    ultimately show ?thesis by (auto simp: path_Join_def Let_def)
  next
    case False
    then show ?thesis
      using path_stack_append [OF False assms] by (auto simp: path_Join_def Let_def intro!: exI [of _ "x @ slash # n"])
  qed
  then obtain p where p: "path_Join [x, n] = path_Clean p" "path_stack p \<noteq> []" by blast
  show ?thesis
    using path_stack_unstack [OF norm_path_stack p(2)] p
    by (simp add: clean_dir_def path_Clean_def)
qed

lemma path_Join_clean:
  assumes "clean_dir p" and "plain_name n"
  shows "path_Join [p, n] = p @ slash # n"
proof -
  have "p \<noteq> []" and st: "path_stack p \<noteq> []" and p: "unstack (rooted p) (path_stack p) = p"
    using assms(1) by (simp_all add: clean_dir_def path_Clean_def)
  have "Join (path_stack p) [slash] \<noteq> []"
    using norm_path_stack [of p] st by (intro Join_not_Nil) (auto simp: norm_stack_def)
  then have "(if rooted p then [slash] else []) @ Join (path_stack p) [slash] = p"
    using p by (simp add: unstack_def Let_def)
  then show ?thesis
    using assms \<open>p \<noteq> []\<close> st path_Clean_append [OF \<open>p \<noteq> []\<close> assms(2)]
    by (simp add: path_Join_def Let_def Join_snoc split: if_splits)
qed

section \<open>A concrete system\<close>

text \<open>For worked examples: every call succeeds, the clock stands still; and one where step 2 fails.\<close>

definition demo_time :: time where
  "demo_time = \<lparr>t_year = 2026, t_month = 2, t_day = 28, t_hour = 13, t_min = 5, t_sec = 9, t_nsec = 120,
     t_offset = 10800\<rparr>"

definition demo_os :: os where
  "demo_os = \<lparr>os_ok = (\<lambda>n. True), os_part = (\<lambda>n. 0), os_temp = (\<lambda>n. n), os_now = (\<lambda>n. demo_time),
     os_unix_ns = (\<lambda>n. int n), os_local = (\<lambda>ms. demo_time), os_rand = (\<lambda>t n. Some (replicate n (CHR ''r'')))\<rparr>"

definition empty_disk :: disk where
  "empty_disk = \<lparr>files = [], dirs = [], io_step = 0\<rparr>"

lemma demo_time_ok: "time_ok demo_time"
  by (simp add: time_ok_def demo_time_def daysIn_def)

lemma demo_os_simps [simp]: "os_ok demo_os n" "time_ok (os_now demo_os n)"
  by (simp_all add: demo_os_def demo_time_ok)

lemma content_empty_disk [simp]: "content empty_disk p = None"
  by (simp add: content_def empty_disk_def gomap_simps)

end
