(* ===== verification/Record_Store.thy ===== *)
theory Record_Store
  imports File_System "HOL-Library.Multiset" "HOL-Library.Sublist"
begin

text \<open>
  What the three stores of the \<open>storage\<close> package share: their errors, lists of JSON objects read
  element by element, and the contract of a store that keeps its content whatever fails.
\<close>

datatype store_error =
    SeMkdir io_error
  | SeRead io_error
  | SeReadDir io_error
  | SeParse
  | SeMarshal
  | SeReplace replace_error
  | SeWrite io_error
  | SeRemove io_error
  | SeInvalidPeerID string
  | SeNoSavedPeer int
  | SeCrypto string
  | SeTooShort
  | SeDecrypt
  | SeNonce
  | SeExisting store_error

text \<open>\<open>json.Unmarshal\<close> of an array of structs: every element has to decode.\<close>

fun decode_fields ::
  "(string \<times> string \<Rightarrow> 'r \<Rightarrow> 'r option) \<Rightarrow> (string \<times> string) list \<Rightarrow> 'r \<Rightarrow> 'r option"
where
  "decode_fields f [] r = Some r"
| "decode_fields f (kv # kvs) r = Option.bind (f kv r) (decode_fields f kvs)"

definition decode_rows :: "(string \<times> string \<Rightarrow> 'r \<Rightarrow> 'r option) \<Rightarrow> 'r \<Rightarrow> bytes \<Rightarrow> 'r list option" where
  "decode_rows f zero data =
     Option.bind (json_elems data)
       (\<lambda>vs. those (map (\<lambda>raw. Option.bind (json_members raw) (\<lambda>kvs. decode_fields f kvs zero)) vs))"

lemma those_map_Some: "(\<And>x. x \<in> set xs \<Longrightarrow> f x = Some (g x)) \<Longrightarrow> those (map f xs) = Some (map g xs)"
  by (induction xs) auto

lemma those_map_inverse:
  assumes "those (map f xs) = Some ys" and "\<And>x y. x \<in> set xs \<Longrightarrow> f x = Some y \<Longrightarrow> g y = Some x"
  shows "those (map g ys) = Some xs"
  using assms
proof (induction xs arbitrary: ys)
  case (Cons x xs)
  then obtain y zs where y: "f x = Some y" "those (map f xs) = Some zs" "ys = y # zs"
    by (auto split: option.splits)
  then have "g y = Some x" "those (map g zs) = Some xs" using Cons by auto
  with y show ?case by simp
qed simp

lemma those_set: "those xs = Some ys \<Longrightarrow> y \<in> set ys \<Longrightarrow> Some y \<in> set xs"
  by (induction xs arbitrary: ys) (auto split: option.splits)

lemma those_length: "those xs = Some ys \<Longrightarrow> length ys = length xs"
  by (induction xs arbitrary: ys) (auto split: option.splits)

lemma not_isl_unit: "\<not> isl r \<Longrightarrow> r = Inr ()"
  by (cases r) auto

text \<open>Strings that JSON keeps: well-formed UTF-8.\<close>

definition utf8_ok :: "string \<Rightarrow> bool" where
  "utf8_ok s \<longleftrightarrow> to_valid s = s"

lemma utf8_ok_ascii: "list_all (\<lambda>c. bv c < 0x80) s \<Longrightarrow> utf8_ok s"
  by (simp add: utf8_ok_def to_valid_ascii)

section \<open>The contract of a durable store\<close>

text \<open>An attempt at an update, keeping the list of those that succeeded.\<close>

definition try_update ::
  "('u \<Rightarrow> 'd \<Rightarrow> 'd \<times> ('e + unit)) \<Rightarrow> 'u \<Rightarrow> 'd \<times> 'u list \<Rightarrow> 'd \<times> 'u list"
where
  "try_update update u dl =
     (case update u (fst dl) of (d', r) \<Rightarrow> (d', snd dl @ (if isl r then [] else [u])))"

lemma try_updates_subseq: "\<exists>w. snd (fold (try_update update) us (d, l)) = l @ w \<and> subseq w us"
proof (induction us arbitrary: d l)
  case (Cons u us)
  obtain d' r where u: "update u d = (d', r)" by (cases "update u d")
  let ?l = "if isl r then [] else [u]"
  obtain w where "snd (fold (try_update update) us (d', l @ ?l)) = (l @ ?l) @ w" "subseq w us" using Cons.IH by blast
  then have "snd (fold (try_update update) (u # us) (d, l)) = l @ (?l @ w) \<and> subseq (?l @ w) (u # us)"
    using u by (simp add: try_update_def list_emb_Cons)
  then show ?case by blast
qed simp

lemma subseq_mset: "subseq xs ys \<Longrightarrow> mset xs \<subseteq># mset ys"
  by (induction rule: list_emb.induct) (auto simp: subset_mset.le_iff_add intro: subset_mset.add_left_mono)

text \<open>
  An update either takes effect on the stored content or leaves it as it was. \<open>usable\<close> says in
  which states the store promises this.
\<close>

locale durable_store =
  fixes update :: "'u \<Rightarrow> 'd \<Rightarrow> 'd \<times> ('e + unit)"
    and stored :: "'d \<Rightarrow> 'a option"
    and apply_update :: "'u \<Rightarrow> 'a \<Rightarrow> 'a"
    and good :: "'u \<Rightarrow> bool"
    and ok :: "'a \<Rightarrow> bool"
    and usable :: "'d \<Rightarrow> bool"
  assumes update_ok:
      "usable d \<Longrightarrow> stored d = Some a \<Longrightarrow> ok a \<Longrightarrow> good u \<Longrightarrow> update u d = (d', Inr ()) \<Longrightarrow>
        \<exists>a'. stored d' = Some a' \<and> a' = apply_update u a \<and> ok a'"
    and update_fail: "usable d \<Longrightarrow> stored d = Some a \<Longrightarrow> update u d = (d', Inl e) \<Longrightarrow> stored d' = stored d"
begin

text \<open>After any sequence of attempts the content is what the successful ones make of it, in order.\<close>

lemma attempts_stored:
  assumes "\<And>d. usable d" and "stored d = Some a" and "ok a" and "\<forall>u \<in> set us. good u"
  shows "\<exists>done. snd (fold (try_update update) us (d, l)) = l @ done \<and> set done \<subseteq> set us \<and>
    stored (fst (fold (try_update update) us (d, l))) = Some (fold apply_update done a)"
  using assms(2-4)
proof (induction us arbitrary: d a l)
  case (Cons u us)
  obtain d' r where u: "update u d = (d', r)" by fastforce
  show ?case
  proof (cases r)
    case (Inl e)
    then have "stored d' = Some a" using update_fail [OF assms(1) Cons.prems(1)] u Cons.prems(1) by auto
    from Cons.IH [OF this, of l] obtain w where
      "snd (fold (try_update update) us (d', l)) = l @ w" "set w \<subseteq> set us"
      "stored (fst (fold (try_update update) us (d', l))) = Some (fold apply_update w a)"
      using Cons.prems by auto
    moreover have "fold (try_update update) (u # us) (d, l) = fold (try_update update) us (d', l)"
      using u Inl by (simp add: try_update_def)
    ultimately show ?thesis by (intro exI [of _ w]) auto
  next
    case (Inr x)
    then have "update u d = (d', Inr ())" using u by simp
    with update_ok [OF assms(1) Cons.prems(1,2)] Cons.prems
    have "stored d' = Some (apply_update u a)" "ok (apply_update u a)" by auto
    from Cons.IH [OF this, of "l @ [u]"] obtain w where
      "snd (fold (try_update update) us (d', l @ [u])) = (l @ [u]) @ w" "set w \<subseteq> set us"
      "stored (fst (fold (try_update update) us (d', l @ [u]))) = Some (fold apply_update w (apply_update u a))"
      using Cons.prems by auto
    moreover have "fold (try_update update) (u # us) (d, l) = fold (try_update update) us (d', l @ [u])"
      using u Inr by (simp add: try_update_def)
    ultimately show ?thesis by (intro exI [of _ "u # w"]) auto
  qed
qed simp

end

end
