(* ===== verification/Verification_Store.thy ===== *)
theory Verification_Store
  imports Record_Store
begin

text \<open>
  \<open>storage/verifications.go\<close>: the peers the user has marked as verified, one JSON file that is
  read, changed and replaced as a whole. The mutex makes every operation one step.
\<close>

section \<open>The store\<close>

record Verification =
  vPeerID :: string
  vVerified :: bool
  vUpdatedAt :: time

record VerificationStore =
  vsFilePath :: string

definition verification_store :: "string \<Rightarrow> VerificationStore" where
  "verification_store dataDir = \<lparr>vsFilePath = path_Join [dataDir, ''verified_peers.json'']\<rparr>"

definition NewVerificationStore :: "os \<Rightarrow> string \<Rightarrow> disk \<Rightarrow> disk \<times> (store_error + VerificationStore)" where
  "NewVerificationStore I dataDir d =
     (case MkdirAll I dataDir d of
        (d1, Inl e) \<Rightarrow> (d1, Inl (SeMkdir e))
      | (d1, Inr _) \<Rightarrow> (d1, Inr (verification_store dataDir)))"

definition verification_zero :: Verification where
  "verification_zero = \<lparr>vPeerID = [], vVerified = False, vUpdatedAt = time_zero\<rparr>"

definition set_verification :: "string \<times> string \<Rightarrow> Verification \<Rightarrow> Verification option" where
  "set_verification kv r =
     (if key_is ''peerId'' (fst kv) then map_option (\<lambda>x. r\<lparr>vPeerID := x\<rparr>) (dec_string (vPeerID r) (snd kv))
      else if key_is ''verified'' (fst kv) then map_option (\<lambda>x. r\<lparr>vVerified := x\<rparr>) (dec_bool (vVerified r) (snd kv))
      else if key_is ''updatedAt'' (fst kv) then map_option (\<lambda>x. r\<lparr>vUpdatedAt := x\<rparr>) (dec_time (vUpdatedAt r) (snd kv))
      else Some r)"

definition unmarshal_verifications :: "bytes \<Rightarrow> Verification list option" where
  "unmarshal_verifications = decode_rows set_verification verification_zero"

definition verification_row :: "Verification \<Rightarrow> string option" where
  "verification_row r =
     map_option (\<lambda>t. indent_object
         [(''peerId'', json_quote (vPeerID r)), (''verified'', json_bool (vVerified r)), (''updatedAt'', t)])
       (marshal_time (vUpdatedAt r))"

definition marshal_verifications :: "Verification list \<Rightarrow> bytes option" where
  "marshal_verifications rs = map_option indent_array (those (map verification_row rs))"

definition vs_load :: "os \<Rightarrow> VerificationStore \<Rightarrow> disk \<Rightarrow> disk \<times> (store_error + Verification list)" where
  "vs_load I v d =
     (case ReadFile I (vsFilePath v) d of
        (d1, Inl NotExist) \<Rightarrow> (d1, Inr [])
      | (d1, Inl e) \<Rightarrow> (d1, Inl (SeRead e))
      | (d1, Inr data) \<Rightarrow>
          (d1, case unmarshal_verifications data of None \<Rightarrow> Inl SeParse | Some rs \<Rightarrow> Inr rs))"

definition vs_save :: "os \<Rightarrow> VerificationStore \<Rightarrow> Verification list \<Rightarrow> disk \<Rightarrow> disk \<times> (store_error + unit)" where
  "vs_save I v rs d =
     (case marshal_verifications rs of
        None \<Rightarrow> (d, Inl SeMarshal)
      | Some data \<Rightarrow>
          (case replace_file I (path_Dir (vsFilePath v)) ''.verified_peers-'' ''.tmp'' (vsFilePath v) data d of
             (d1, Inl e) \<Rightarrow> (d1, Inl (SeReplace e))
           | (d1, Inr _) \<Rightarrow> (d1, Inr ())))"

text \<open>The map from identifiers to records that \<open>SetVerified\<close> builds, and its records in order.\<close>

definition by_id :: "Verification list \<Rightarrow> (string, Verification) gomap" where
  "by_id rs = fold (\<lambda>r. mput (vPeerID r) r) rs []"

definition by_id_list :: "(string, Verification) gomap \<Rightarrow> Verification list" where
  "by_id_list m = sort_key vPeerID (map snd m)"

definition SetVerified :: "os \<Rightarrow> VerificationStore \<Rightarrow> string \<Rightarrow> bool \<Rightarrow> disk \<Rightarrow> disk \<times> (store_error + unit)" where
  "SetVerified I v peerID verified d =
     (case vs_load I v d of
        (d1, r) \<Rightarrow>
          (let byID = by_id (case r of Inl _ \<Rightarrow> [] | Inr rs \<Rightarrow> rs) in
           if verified then
             (case time_now I d1 of
                (d2, t) \<Rightarrow>
                  vs_save I v
                    (by_id_list (mput peerID \<lparr>vPeerID = peerID, vVerified = True, vUpdatedAt = t\<rparr> byID)) d2)
           else vs_save I v (by_id_list (mdel peerID byID)) d1))"

definition first_verified :: "string \<Rightarrow> Verification list \<Rightarrow> bool" where
  "first_verified peerID rs =
     (case find (\<lambda>r. vPeerID r = peerID) rs of None \<Rightarrow> False | Some r \<Rightarrow> vVerified r)"

definition IsVerified :: "os \<Rightarrow> VerificationStore \<Rightarrow> string \<Rightarrow> disk \<Rightarrow> disk \<times> bool" where
  "IsVerified I v peerID d =
     (case vs_load I v d of
        (d1, Inl _) \<Rightarrow> (d1, False)
      | (d1, Inr rs) \<Rightarrow> (d1, first_verified peerID rs))"

definition VerifiedPeerIDs :: "os \<Rightarrow> VerificationStore \<Rightarrow> disk \<Rightarrow> disk \<times> (store_error + string list)" where
  "VerifiedPeerIDs I v d =
     (case vs_load I v d of
        (d1, Inl e) \<Rightarrow> (d1, Inl e)
      | (d1, Inr rs) \<Rightarrow> (d1, Inr (sort (map vPeerID (filter vVerified rs)))))"

section \<open>Reading back what was written\<close>

definition verification_ok :: "Verification \<Rightarrow> bool" where
  "verification_ok r \<longleftrightarrow> utf8_ok (vPeerID r) \<and> time_ok (vUpdatedAt r)"

lemma verification_keys:
  "to_valid ''peerId'' = ''peerId''" "to_valid ''verified'' = ''verified''" "to_valid ''updatedAt'' = ''updatedAt''"
  by (simp_all add: to_valid_ascii)

lemma verification_key_is:
  "key_is ''peerId'' ''peerId''" "\<not> key_is ''peerId'' ''verified''" "key_is ''verified'' ''verified''"
  "\<not> key_is ''peerId'' ''updatedAt''" "\<not> key_is ''verified'' ''updatedAt''" "key_is ''updatedAt'' ''updatedAt''"
  by (simp_all add: key_is_def char_of_def bit_0)

lemma decode_verification_row:
  assumes "verification_ok r" and "verification_row r = Some raw"
  shows "Option.bind (json_members raw) (\<lambda>kvs. decode_fields set_verification kvs verification_zero) = Some r"
proof -
  obtain t where t: "marshal_time (vUpdatedAt r) = Some t" "\<And>old. dec_time old t = Some (vUpdatedAt r)"
    using dec_marshal_time [of "vUpdatedAt r"] assms(1) by (metis option.inject verification_ok_def)
  let ?kvs = "[(''peerId'', json_quote (vPeerID r)), (''verified'', json_bool (vVerified r)), (''updatedAt'', t)]"
  have "raw = indent_object ?kvs" using assms(2) t(1) by (simp add: verification_row_def)
  moreover have "json_members (indent_object ?kvs) = Some ?kvs"
    using t(1) by (subst json_members_indent)
      (auto simp: self_delim_quote self_delim_bool self_delim_time verification_keys)
  moreover have "decode_fields set_verification ?kvs verification_zero = Some r"
    using assms(1) t(2)
    by (simp add: set_verification_def verification_key_is dec_string_quote dec_bool_bool
        verification_ok_def utf8_ok_def verification_zero_def)
  ultimately show ?thesis by simp
qed

lemma self_delim_row: "verification_row r = Some raw \<Longrightarrow> self_delim inner_nesting raw"
  unfolding verification_row_def inner_nesting_def max_nesting_def
  by (auto intro!: self_delim_indent_object [where d = 9998, simplified] simp: self_delim_quote self_delim_bool self_delim_time)

lemma verification_row_Some: "verification_ok r \<Longrightarrow> \<exists>raw. verification_row r = Some raw"
  using marshal_time_ok [of "vUpdatedAt r"] by (auto simp: verification_row_def verification_ok_def)

theorem verifications_roundtrip:
  assumes "\<forall>r \<in> set rs. verification_ok r"
  shows "\<exists>data. marshal_verifications rs = Some data \<and> unmarshal_verifications data = Some rs"
proof -
  have "those (map verification_row rs) = Some (map (the \<circ> verification_row) rs)"
    using assms verification_row_Some by (intro those_map_Some) fastforce
  then obtain vs where vs: "those (map verification_row rs) = Some vs" by blast
  have "\<forall>v \<in> set vs. self_delim inner_nesting v"
    using those_set [OF vs] by (auto dest!: self_delim_row [OF sym])
  then have "json_elems (indent_array vs) = Some vs" by (rule json_elems_indent)
  moreover have "those (map (\<lambda>raw. Option.bind (json_members raw)
      (\<lambda>kvs. decode_fields set_verification kvs verification_zero)) vs) = Some rs"
    using assms by (intro those_map_inverse [OF vs] decode_verification_row) auto
  ultimately show ?thesis
    using vs by (simp add: marshal_verifications_def unmarshal_verifications_def decode_rows_def)
qed

section \<open>The set of verified peers\<close>

definition vs_records :: "VerificationStore \<Rightarrow> disk \<Rightarrow> Verification list option" where
  "vs_records v d = (case content d (vsFilePath v) of None \<Rightarrow> Some [] | Some data \<Rightarrow> unmarshal_verifications data)"

definition records_ok :: "Verification list \<Rightarrow> bool" where
  "records_ok rs \<longleftrightarrow> (\<forall>r \<in> set rs. verification_ok r) \<and> distinct (map vPeerID rs)"

definition verified_set :: "Verification list \<Rightarrow> string set" where
  "verified_set rs = vPeerID ` {r \<in> set rs. vVerified r}"

text \<open>What a well-formed file says: the set of verified identifiers.\<close>

definition vs_marks :: "VerificationStore \<Rightarrow> disk \<Rightarrow> string set option" where
  "vs_marks v d =
     (case vs_records v d of None \<Rightarrow> None | Some rs \<Rightarrow> if records_ok rs then Some (verified_set rs) else None)"

lemma vs_load_usable:
  "os_ok I (io_step d) \<Longrightarrow>
     vs_load I v d = (stepped d, case vs_records v d of None \<Rightarrow> Inl SeParse | Some rs \<Rightarrow> Inr rs)"
  by (auto simp: vs_load_def ReadFile_def io_guard_def vs_records_def split: option.splits)

lemma vs_load_content: "content (fst (vs_load I v d)) = content d"
  by (auto simp: vs_load_def ReadFile_def io_guard_def split: option.splits)

lemma by_id_fold:
  "distinct (map vPeerID rs) \<Longrightarrow>
     mlookup (fold (\<lambda>r. mput (vPeerID r) r) rs m) k = Some r \<longleftrightarrow>
       (r \<in> set rs \<and> vPeerID r = k) \<or> (mlookup m k = Some r \<and> k \<notin> vPeerID ` set rs)"
  by (induction rs arbitrary: m) (auto simp: gomap_simps)

lemma by_id_iff: "distinct (map vPeerID rs) \<Longrightarrow> mlookup (by_id rs) k = Some r \<longleftrightarrow> r \<in> set rs \<and> vPeerID r = k"
  by (simp add: by_id_def by_id_fold gomap_simps)

lemma by_id_ok: "gomap_ok (by_id rs)"
proof -
  have "gomap_ok m \<Longrightarrow> gomap_ok (fold (\<lambda>r. mput (vPeerID r) r) rs m)" for m
    by (induction rs arbitrary: m) (simp_all add: gomap_wf)
  then show ?thesis by (simp add: by_id_def gomap_wf)
qed

lemma by_id_list_records:
  assumes "gomap_ok m" and "\<And>k r. mlookup m k = Some r \<Longrightarrow> vPeerID r = k"
  shows "r \<in> set (by_id_list m) \<longleftrightarrow> mlookup m (vPeerID r) = Some r" and "distinct (map vPeerID (by_id_list m))"
proof -
  have "vPeerID (snd e) = fst e" if "e \<in> set m" for e
    using assms that by (cases e) (auto simp: mlookup_iff_in_set)
  then have ids: "map vPeerID (map snd m) = map fst m" by simp
  have "r \<in> set (by_id_list m) \<longleftrightarrow> (\<exists>k. mlookup m k = Some r)"
    using assms(1) by (force simp: by_id_list_def mlookup_iff_in_set)
  then show "r \<in> set (by_id_list m) \<longleftrightarrow> mlookup m (vPeerID r) = Some r" using assms(2) by blast
  have "distinct (map vPeerID (map snd m))" unfolding ids using assms(1) by (simp add: gomap_ok_def)
  then show "distinct (map vPeerID (by_id_list m))"
    by (simp only: by_id_list_def distinct_map distinct_sort set_sort)
qed

text \<open>The list \<open>SetVerified\<close> writes, as a function of the list it read.\<close>

definition marked :: "string \<Rightarrow> bool \<Rightarrow> time \<Rightarrow> Verification list \<Rightarrow> Verification list" where
  "marked p b t rs =
     by_id_list (if b then mput p \<lparr>vPeerID = p, vVerified = True, vUpdatedAt = t\<rparr> (by_id rs) else mdel p (by_id rs))"

lemma marked_set:
  assumes "distinct (map vPeerID rs)"
  shows "set (marked p b t rs) =
      (if b then {\<lparr>vPeerID = p, vVerified = True, vUpdatedAt = t\<rparr>} else {}) \<union> {r \<in> set rs. vPeerID r \<noteq> p}"
    and "distinct (map vPeerID (marked p b t rs))"
proof -
  let ?m = "if b then mput p \<lparr>vPeerID = p, vVerified = True, vUpdatedAt = t\<rparr> (by_id rs) else mdel p (by_id rs)"
  have "gomap_ok ?m" by (simp add: by_id_ok gomap_wf)
  moreover have k: "mlookup ?m k = Some r \<Longrightarrow> vPeerID r = k" for k r
    using assms by (auto simp: gomap_simps by_id_iff split: if_splits)
  ultimately have mem: "\<And>r. r \<in> set (marked p b t rs) \<longleftrightarrow> mlookup ?m (vPeerID r) = Some r"
    and dist: "distinct (map vPeerID (marked p b t rs))"
    using by_id_list_records [of ?m] by (simp_all add: marked_def)
  show "set (marked p b t rs) =
      (if b then {\<lparr>vPeerID = p, vVerified = True, vUpdatedAt = t\<rparr>} else {}) \<union> {r \<in> set rs. vPeerID r \<noteq> p}"
    by (rule set_eqI, unfold mem) (cases b; use assms in \<open>auto simp: gomap_simps by_id_iff\<close>)
  show "distinct (map vPeerID (marked p b t rs))" by (rule dist)
qed

lemma marked_ok:
  assumes "records_ok rs" and "utf8_ok p" and "time_ok t"
  shows "records_ok (marked p b t rs)"
    and "verified_set (marked p b t rs) = (if b then insert p (verified_set rs) else verified_set rs - {p})"
proof -
  have d: "distinct (map vPeerID rs)" using assms(1) by (simp add: records_ok_def)
  show "records_ok (marked p b t rs)"
    using assms marked_set [OF d, of p b t] by (cases b) (auto simp: records_ok_def verification_ok_def)
  show "verified_set (marked p b t rs) = (if b then insert p (verified_set rs) else verified_set rs - {p})"
  proof -
    let ?r = "\<lparr>vPeerID = p, vVerified = True, vUpdatedAt = t\<rparr>"
    have "{r \<in> set (marked p b t rs). vVerified r} =
        (if b then {?r} else {}) \<union> {r \<in> set rs. vVerified r \<and> vPeerID r \<noteq> p}"
      using marked_set(1) [OF d, of p b t] by (cases b) auto
    moreover have "vPeerID ` {r \<in> set rs. vVerified r \<and> vPeerID r \<noteq> p} = verified_set rs - {p}"
      by (auto simp: verified_set_def)
    ultimately show ?thesis by (cases b) (simp_all add: verified_set_def [of "marked p _ t rs"])
  qed
qed

lemma SetVerified_marked:
  "\<exists>d1 t rs. SetVerified I v p b d = vs_save I v (marked p b t rs) d1 \<and> content d1 = content d \<and>
     (t \<in> range (os_now I)) \<and> (rs = [] \<or> vs_records v d = Some rs) \<and>
     (os_ok I (io_step d) \<longrightarrow> rs = (case vs_records v d of None \<Rightarrow> [] | Some rs' \<Rightarrow> rs'))"
proof -
  obtain d1 r where l: "vs_load I v d = (d1, r)" by fastforce
  define rs where "rs = (case r of Inl _ \<Rightarrow> [] | Inr rs' \<Rightarrow> rs')"
  have c: "content d1 = content d" using vs_load_content [of I v d] l by simp
  have "rs = [] \<or> vs_records v d = Some rs"
    using l unfolding rs_def
    by (auto simp: vs_load_def ReadFile_def io_guard_def vs_records_def split: option.splits if_splits)
  moreover have "os_ok I (io_step d) \<longrightarrow> rs = (case vs_records v d of None \<Rightarrow> [] | Some rs' \<Rightarrow> rs')"
    using l unfolding rs_def by (auto simp: vs_load_usable split: option.splits)
  moreover have "SetVerified I v p b d =
      vs_save I v (marked p b (os_now I (io_step d1)) rs) (if b then stepped d1 else d1)"
    by (simp add: SetVerified_def l rs_def marked_def time_now_def)
  ultimately show ?thesis
    using c by (metis content_stepped rangeI)
qed

section \<open>Replacing the file\<close>

lemma verification_path_not_temp:
  "vsFilePath (verification_store dir) \<noteq> temp_name dir' ''.verified_peers-'' ''.tmp'' k"
proof
  assume eq: "vsFilePath (verification_store dir) = temp_name dir' ''.verified_peers-'' ''.tmp'' k"
  obtain pre where "vsFilePath (verification_store dir) = pre @ ''verified_peers.json''"
    using path_Join_name [of "''verified_peers.json''" dir]
    by (auto simp: verification_store_def plain_name_def slash_def)
  with eq have "last (pre @ ''verified_peers.json'') = last (temp_name dir' ''.verified_peers-'' ''.tmp'' k)" by simp
  then show False by (simp add: temp_name_def)
qed

lemma vs_save_spec:
  assumes "vs_save I (verification_store dir) rs d = (d', r)"
  shows "content d' (vsFilePath (verification_store dir)) =
      (case r of Inl _ \<Rightarrow> content d (vsFilePath (verification_store dir)) | Inr _ \<Rightarrow> marshal_verifications rs)"
    and "q \<noteq> vsFilePath (verification_store dir) \<Longrightarrow> content d q = Some y \<Longrightarrow> content d' q = Some y"
    and "r = Inr () \<Longrightarrow> marshal_verifications rs \<noteq> None"
proof -
  let ?v = "verification_store dir"
  have "content d' (vsFilePath ?v) = (case r of Inl _ \<Rightarrow> content d (vsFilePath ?v) | Inr _ \<Rightarrow> marshal_verifications rs)
    \<and> (q \<noteq> vsFilePath ?v \<longrightarrow> content d q = Some y \<longrightarrow> content d' q = Some y)
    \<and> (r = Inr () \<longrightarrow> marshal_verifications rs \<noteq> None)"
  proof (cases "marshal_verifications rs")
    case (Some data)
    obtain d2 r2 where rep: "replace_file I (path_Dir (vsFilePath ?v)) ''.verified_peers-'' ''.tmp'' (vsFilePath ?v) data d = (d2, r2)"
      by fastforce
    then have "d' = d2" "isl r = isl r2" using assms Some by (auto simp: vs_save_def split: sum.splits)
    then show ?thesis
      using Some replace_file_content(1) [OF rep verification_path_not_temp]
        replace_file_content(2) [OF rep verification_path_not_temp, of q] by (cases r; cases r2) auto
  qed (use assms in \<open>auto simp: vs_save_def\<close>)
  then show "content d' (vsFilePath ?v) =
      (case r of Inl _ \<Rightarrow> content d (vsFilePath ?v) | Inr _ \<Rightarrow> marshal_verifications rs)"
    and "q \<noteq> vsFilePath ?v \<Longrightarrow> content d q = Some y \<Longrightarrow> content d' q = Some y"
    and "r = Inr () \<Longrightarrow> marshal_verifications rs \<noteq> None"
    by blast+
qed

lemma vs_save_marks:
  assumes "vs_save I (verification_store dir) rs d = (d', Inr ())" and "records_ok rs"
  shows "vs_marks (verification_store dir) d' = Some (verified_set rs)"
proof -
  obtain data where "marshal_verifications rs = Some data" "unmarshal_verifications data = Some rs"
    using verifications_roundtrip assms(2) by (auto simp: records_ok_def)
  then show ?thesis
    using vs_save_spec(1) [OF assms(1)] assms(2) by (simp add: vs_marks_def vs_records_def)
qed

lemma vs_marks_cong: "content d' (vsFilePath v) = content d (vsFilePath v) \<Longrightarrow> vs_marks v d' = vs_marks v d"
  by (simp add: vs_marks_def vs_records_def)

lemma SetVerified_fail:
  assumes "SetVerified I (verification_store dir) p b d = (d', Inl e)"
  shows "content d' (vsFilePath (verification_store dir)) = content d (vsFilePath (verification_store dir))"
proof -
  obtain d1 t rs where "vs_save I (verification_store dir) (marked p b t rs) d1 = (d', Inl e)" "content d1 = content d"
    using SetVerified_marked [of I "verification_store dir" p b d] assms by metis
  then show ?thesis using vs_save_spec(1) by fastforce
qed

lemma SetVerified_ok:
  assumes "SetVerified I (verification_store dir) p b d = (d', Inr ())" and "os_ok I (io_step d)"
    and "vs_records (verification_store dir) d = Some rs" and "records_ok rs"
    and "utf8_ok p" and "\<forall>n. time_ok (os_now I n)"
  shows "vs_marks (verification_store dir) d'
    = Some (if b then insert p (verified_set rs) else verified_set rs - {p})"
proof -
  obtain d1 t where t: "vs_save I (verification_store dir) (marked p b t rs) d1 = (d', Inr ())" "t \<in> range (os_now I)"
    using SetVerified_marked [of I "verification_store dir" p b d] assms(1-3) by auto
  then have "time_ok t" using assms(6) by auto
  then show ?thesis using vs_save_marks [OF t(1)] marked_ok [OF assms(4,5)] by simp
qed

interpretation vm: durable_store
  "\<lambda>(p, b). SetVerified I (verification_store dir) p b" "vs_marks (verification_store dir)"
  "\<lambda>(p, b) A. if b then insert p A else A - {p}"
  "\<lambda>(p, b). utf8_ok p \<and> (\<forall>n. time_ok (os_now I n))" "\<lambda>A. True" "\<lambda>d. os_ok I (io_step d)"
  for I dir
proof
  fix d A u d'
  assume "os_ok I (io_step d)" and A: "vs_marks (verification_store dir) d = Some A"
    and "(case u of (p, b) \<Rightarrow> utf8_ok p \<and> (\<forall>n. time_ok (os_now I n)))"
    and "(case u of (p, b) \<Rightarrow> SetVerified I (verification_store dir) p b) d = (d', Inr ())"
  then show "\<exists>A'. vs_marks (verification_store dir) d' = Some A' \<and>
      A' = (case u of (p, b) \<Rightarrow> \<lambda>A. if b then insert p A else A - {p}) A \<and> True"
    by (auto simp: vs_marks_def [of _ d] split: option.splits if_splits dest!: SetVerified_ok)
qed (auto dest!: SetVerified_fail vs_marks_cong)

lemma first_verified_set:
  assumes "records_ok rs"
  shows "first_verified p rs \<longleftrightarrow> p \<in> verified_set rs"
proof -
  have inj: "inj_on vPeerID (set rs)" using assms by (simp add: records_ok_def distinct_map)
  show ?thesis
  proof (cases "find (\<lambda>r. vPeerID r = p) rs")
    case (Some r)
    then have r: "r \<in> set rs" "vPeerID r = p" by (auto simp: find_Some_iff)
    then have "p \<in> verified_set rs \<longleftrightarrow> vVerified r"
      using inj by (auto simp: verified_set_def inj_on_def image_iff)
    with Some show ?thesis by (simp add: first_verified_def)
  next
    case None
    then have "\<forall>r \<in> set rs. vPeerID r \<noteq> p" by (auto simp: find_None_iff)
    with None show ?thesis by (auto simp: first_verified_def verified_set_def)
  qed
qed

lemma sorted_verified:
  assumes "records_ok rs"
  shows "sort (map vPeerID (filter vVerified rs)) = sorted_list_of_set (verified_set rs)"
proof -
  have "distinct (map vPeerID (filter vVerified rs))"
    using assms by (simp add: records_ok_def distinct_map_filter)
  then have "sorted_list_of_set (set (map vPeerID (filter vVerified rs))) = sort (map vPeerID (filter vVerified rs))"
    by (simp only: sorted_list_of_set_sort_remdups distinct_remdups_id)
  then show ?thesis by (simp add: verified_set_def)
qed

text \<open>\<open>SetVerified\<close> drops the error of \<open>load\<close>: what it writes then holds at most the new marker.\<close>

lemma vs_load_unread:
  assumes "\<not> os_ok I (io_step d) \<or> vs_records v d = None"
  shows "\<exists>d1 e. vs_load I v d = (d1, Inl e)"
  using assms by (auto simp: vs_load_def ReadFile_def io_guard_def vs_records_def split: option.splits)

lemma SetVerified_unread:
  assumes "\<not> os_ok I (io_step d) \<or> vs_records (verification_store dir) d = None"
    and "SetVerified I (verification_store dir) p b d = (d', Inr ())" and "utf8_ok p" and "\<forall>n. time_ok (os_now I n)"
  shows "vs_marks (verification_store dir) d' = Some (if b then {p} else {})"
proof -
  let ?v = "verification_store dir"
  obtain d0 e where l: "vs_load I ?v d = (d0, Inl e)" using vs_load_unread [OF assms(1)] by blast
  then obtain d1 where s: "vs_save I ?v (marked p b (os_now I (io_step d0)) []) d1 = (d', Inr ())"
    using assms(2) by (cases b) (auto simp: SetVerified_def marked_def time_now_def)
  have "records_ok []" "verified_set [] = {}" by (simp_all add: records_ok_def verified_set_def)
  then show ?thesis using vs_save_marks [OF s] marked_ok [of "[]" p "os_now I (io_step d0)" b] assms(3,4) by simp
qed

text \<open>
  C12. The verification store implements a set of peer identifiers. When the file can be read and is
  well-formed (it parses, with distinct identifiers and strings and times that JSON keeps), \<open>IsVerified\<close>
  tests membership and \<open>VerifiedPeerIDs\<close> lists the set in order, and \<open>SetVerified\<close> adds or removes
  the identifier when it reports success and changes nothing when it reports an error. When the read
  fails or the file does not parse, \<open>IsVerified\<close> says no, \<open>VerifiedPeerIDs\<close> reports an error, and
  \<open>SetVerified\<close>, which drops the error, either reports an error of its own and leaves the file alone, or
  succeeds and has lost every marker but the one it sets.
\<close>

theorem verified_set_refined:
  fixes dir :: string
  assumes "utf8_ok p" and "\<forall>n. time_ok (os_now I n)"
  defines "v \<equiv> verification_store dir"
  shows "(\<forall>A. os_ok I (io_step d) \<longrightarrow> vs_marks v d = Some A \<longrightarrow>
      snd (IsVerified I v q d) = (q \<in> A) \<and> snd (VerifiedPeerIDs I v d) = Inr (sorted_list_of_set A) \<and>
      vs_marks v (fst (SetVerified I v p b d)) =
        Some (if isl (snd (SetVerified I v p b d)) then A else if b then insert p A else A - {p})) \<and>
    (\<not> os_ok I (io_step d) \<or> vs_records v d = None \<longrightarrow>
      \<not> snd (IsVerified I v q d) \<and> isl (snd (VerifiedPeerIDs I v d)) \<and>
      (if isl (snd (SetVerified I v p b d)) then content (fst (SetVerified I v p b d)) (vsFilePath v) = content d (vsFilePath v)
       else vs_marks v (fst (SetVerified I v p b d)) = Some (if b then {p} else {})))"
proof (intro conjI allI impI)
  fix A
  assume io: "os_ok I (io_step d)" and A: "vs_marks v d = Some A"
  then obtain rs where rs: "vs_records v d = Some rs" "records_ok rs" "A = verified_set rs"
    by (auto simp: vs_marks_def split: option.splits if_splits)
  have l: "vs_load I v d = (stepped d, Inr rs)" using io rs(1) by (simp add: vs_load_usable)
  show "snd (IsVerified I v q d) = (q \<in> A)"
    using l rs by (simp add: IsVerified_def first_verified_set)
  show "snd (VerifiedPeerIDs I v d) = Inr (sorted_list_of_set A)"
    using l rs by (simp add: VerifiedPeerIDs_def sorted_verified)
  obtain d' r where s: "SetVerified I v p b d = (d', r)" by fastforce
  then show "vs_marks v (fst (SetVerified I v p b d)) =
      Some (if isl (snd (SetVerified I v p b d)) then A else if b then insert p A else A - {p})"
    using vm.update_ok [of I d dir A "(p, b)" d'] vm.update_fail [of I d dir A "(p, b)" d'] io A assms(1,2)
    by (cases r) (auto simp: v_def)
next
  assume un: "\<not> os_ok I (io_step d) \<or> vs_records v d = None"
  then obtain d1 e where "vs_load I v d = (d1, Inl e)" using vs_load_unread by blast
  then show "\<not> snd (IsVerified I v q d)" "isl (snd (VerifiedPeerIDs I v d))"
    by (simp_all add: IsVerified_def VerifiedPeerIDs_def)
  obtain d' r where s: "SetVerified I v p b d = (d', r)" by fastforce
  then show "if isl (snd (SetVerified I v p b d)) then content (fst (SetVerified I v p b d)) (vsFilePath v) = content d (vsFilePath v)
      else vs_marks v (fst (SetVerified I v p b d)) = Some (if b then {p} else {})"
    using SetVerified_unread [OF un [unfolded v_def] _ assms(1,2)] SetVerified_fail by (cases r) (auto simp: v_def)
qed

lemma SetVerified_succeeds:
  assumes "\<And>n. os_ok I n" and "vs_records (verification_store dir) d = Some rs" and "records_ok rs"
    and "utf8_ok p" and "\<forall>n. time_ok (os_now I n)" and "\<And>q. content d q = None \<or> q = vsFilePath (verification_store dir)"
  shows "snd (SetVerified I (verification_store dir) p b d) = Inr ()"
proof -
  let ?v = "verification_store dir"
  obtain d1 t where t: "SetVerified I ?v p b d = vs_save I ?v (marked p b t rs) d1" "content d1 = content d"
      "t \<in> range (os_now I)"
    using SetVerified_marked [of I ?v p b d] assms(1,2) by auto
  have "records_ok (marked p b t rs)" using t(3) assms(3-5) by (intro marked_ok) auto
  then obtain data where "marshal_verifications (marked p b t rs) = Some data"
    using verifications_roundtrip by (auto simp: records_ok_def)
  moreover have "snd (replace_file I (path_Dir (vsFilePath ?v)) ''.verified_peers-'' ''.tmp'' (vsFilePath ?v) data d1) = Inr ()"
    using assms(1,6) t(2) verification_path_not_temp by (intro replace_file_succeeds) (auto, metis)
  ultimately show ?thesis using t(1) by (auto simp: vs_save_def split: prod.splits)
qed

theorem verified_set_refined_witness:
  "snd (SetVerified demo_os (verification_store ''data'') ''A'' True empty_disk) = Inr () \<and>
   vs_marks (verification_store ''data'') (fst (SetVerified demo_os (verification_store ''data'') ''A'' True empty_disk)) = Some {''A''} \<and>
   isl (snd (VerifiedPeerIDs (demo_os\<lparr>os_ok := (\<lambda>n. False)\<rparr>) (verification_store ''data'') empty_disk))"
proof -
  have e: "vs_records (verification_store ''data'') empty_disk = Some []" by (simp add: vs_records_def)
  then have m: "vs_marks (verification_store ''data'') empty_disk = Some {}"
    by (simp add: vs_marks_def records_ok_def verified_set_def)
  have u: "utf8_ok ''A''" by (simp add: utf8_ok_ascii)
  have s: "snd (SetVerified demo_os (verification_store ''data'') ''A'' True empty_disk) = Inr ()"
    using e u by (intro SetVerified_succeeds) (auto simp: records_ok_def)
  note ref = verified_set_refined [OF u, where q = "''A''" and b = True and d = empty_disk and dir = "''data''"]
  have "os_ok demo_os n" "time_ok (os_now demo_os n)" "time_ok (os_now (demo_os\<lparr>os_ok := (\<lambda>n. False)\<rparr>) n)" for n by simp_all
  then show ?thesis using ref [of demo_os] ref [of "demo_os\<lparr>os_ok := (\<lambda>n. False)\<rparr>"] m s by simp
qed

text \<open>
  C18. Whatever fails or crashes while a marker is set, the file of markers holds either the bytes it
  held before (and then an error is reported) or a complete new list, and no other existing file is
  touched.
\<close>

theorem verification_file_atomic:
  "\<exists>rs. content (fst (SetVerified I (verification_store dir) p b d)) (vsFilePath (verification_store dir)) =
      (if isl (snd (SetVerified I (verification_store dir) p b d))
       then content d (vsFilePath (verification_store dir)) else marshal_verifications rs) \<and>
    (isl (snd (SetVerified I (verification_store dir) p b d)) \<or> (\<exists>data. marshal_verifications rs = Some data)) \<and>
    (content d q = None \<or> q = vsFilePath (verification_store dir) \<or>
       content (fst (SetVerified I (verification_store dir) p b d)) q = content d q)"
proof -
  let ?v = "verification_store dir"
  obtain d1 t rs where t: "SetVerified I ?v p b d = vs_save I ?v (marked p b t rs) d1" "content d1 = content d"
    using SetVerified_marked [of I ?v p b d] by blast
  obtain d' r where r: "vs_save I ?v (marked p b t rs) d1 = (d', r)" by fastforce
  have "content d q = None \<or> q = vsFilePath ?v \<or> content d' q = content d q"
    using vs_save_spec(2) [OF r, of q] t(2) by (cases "content d q") auto
  then show ?thesis
    using vs_save_spec(1,3) [OF r] t r by (intro exI [of _ "marked p b t rs"]) (cases r; auto)
qed

text \<open>
  The loss in its worst form: when the file cannot be parsed, or only the read fails, a successful
  \<open>SetVerified\<close> leaves the new marker alone.
\<close>

theorem unreadable_markers_lost:
  assumes "\<not> os_ok I (io_step d) \<or> vs_records (verification_store dir) d = None"
    and "SetVerified I (verification_store dir) p True d = (d', Inr ())" and "utf8_ok p" and "\<forall>n. time_ok (os_now I n)"
  shows "vs_marks (verification_store dir) d' = Some {p}"
  using SetVerified_unread [OF assms] by simp

end
