(* ===== verification/Peer_Store.thy ===== *)
theory Peer_Store
  imports Record_Store
begin

text \<open>
  \<open>storage/peers.go\<close>: the list of trusted peers, a JSON file that is read, changed and written
  back with \<open>os.WriteFile\<close>.
\<close>

section \<open>The store\<close>

record TrustedPeer =
  tpPeerID :: string
  tpNickname :: string
  tpSavedAt :: time

record PeerStore =
  psFilePath :: string

definition peer_store :: "string \<Rightarrow> PeerStore" where
  "peer_store dataDir = \<lparr>psFilePath = path_Join [dataDir, ''trusted_peers.json'']\<rparr>"

definition NewPeerStore :: "os \<Rightarrow> string \<Rightarrow> disk \<Rightarrow> disk \<times> (store_error + PeerStore)" where
  "NewPeerStore I dataDir d =
     (case MkdirAll I dataDir d of
        (d1, Inl e) \<Rightarrow> (d1, Inl (SeMkdir e))
      | (d1, Inr _) \<Rightarrow> (d1, Inr (peer_store dataDir)))"

definition peer_zero :: TrustedPeer where
  "peer_zero = \<lparr>tpPeerID = [], tpNickname = [], tpSavedAt = time_zero\<rparr>"

definition set_peer :: "string \<times> string \<Rightarrow> TrustedPeer \<Rightarrow> TrustedPeer option" where
  "set_peer kv r =
     (if key_is ''peerId'' (fst kv) then map_option (\<lambda>x. r\<lparr>tpPeerID := x\<rparr>) (dec_string (tpPeerID r) (snd kv))
      else if key_is ''nickname'' (fst kv) then map_option (\<lambda>x. r\<lparr>tpNickname := x\<rparr>) (dec_string (tpNickname r) (snd kv))
      else if key_is ''savedAt'' (fst kv) then map_option (\<lambda>x. r\<lparr>tpSavedAt := x\<rparr>) (dec_time (tpSavedAt r) (snd kv))
      else Some r)"

definition unmarshal_peers :: "bytes \<Rightarrow> TrustedPeer list option" where
  "unmarshal_peers = decode_rows set_peer peer_zero"

definition peer_row :: "TrustedPeer \<Rightarrow> string option" where
  "peer_row r =
     map_option (\<lambda>t. indent_object
         [(''peerId'', json_quote (tpPeerID r)), (''nickname'', json_quote (tpNickname r)), (''savedAt'', t)])
       (marshal_time (tpSavedAt r))"

definition marshal_peers :: "TrustedPeer list \<Rightarrow> bytes option" where
  "marshal_peers rs = map_option indent_array (those (map peer_row rs))"

definition ps_load :: "os \<Rightarrow> PeerStore \<Rightarrow> disk \<Rightarrow> disk \<times> (store_error + TrustedPeer list)" where
  "ps_load I p d =
     (case ReadFile I (psFilePath p) d of
        (d1, Inl NotExist) \<Rightarrow> (d1, Inr [])
      | (d1, Inl e) \<Rightarrow> (d1, Inl (SeRead e))
      | (d1, Inr data) \<Rightarrow> (d1, case unmarshal_peers data of None \<Rightarrow> Inl SeParse | Some rs \<Rightarrow> Inr rs))"

definition ps_save :: "os \<Rightarrow> PeerStore \<Rightarrow> TrustedPeer list \<Rightarrow> disk \<Rightarrow> disk \<times> (store_error + unit)" where
  "ps_save I p rs d =
     (case marshal_peers rs of
        None \<Rightarrow> (d, Inl SeMarshal)
      | Some data \<Rightarrow>
          (case WriteFile I (psFilePath p) data d of
             (d1, Inl e) \<Rightarrow> (d1, Inl (SeWrite e))
           | (d1, Inr _) \<Rightarrow> (d1, Inr ())))"

text \<open>The loop of \<open>SavePeer\<close>: the first entry with the identifier is changed, or a new one appended.\<close>

fun put_peer :: "string \<Rightarrow> string \<Rightarrow> time \<Rightarrow> TrustedPeer list \<Rightarrow> TrustedPeer list" where
  "put_peer peerID nickname t [] = [\<lparr>tpPeerID = peerID, tpNickname = nickname, tpSavedAt = t\<rparr>]"
| "put_peer peerID nickname t (r # rs) =
     (if tpPeerID r = peerID then r\<lparr>tpNickname := nickname, tpSavedAt := t\<rparr> # rs
      else r # put_peer peerID nickname t rs)"

definition SavePeer :: "os \<Rightarrow> PeerStore \<Rightarrow> string \<Rightarrow> string \<Rightarrow> disk \<Rightarrow> disk \<times> (store_error + unit)" where
  "SavePeer I p peerID nickname d =
     (case ps_load I p d of
        (d1, r) \<Rightarrow>
          (case time_now I d1 of
             (d2, t) \<Rightarrow> ps_save I p (put_peer peerID nickname t (case r of Inl _ \<Rightarrow> [] | Inr rs \<Rightarrow> rs)) d2))"

definition RemovePeerByNum :: "os \<Rightarrow> PeerStore \<Rightarrow> int \<Rightarrow> disk \<Rightarrow> disk \<times> (store_error + TrustedPeer)" where
  "RemovePeerByNum I p num d =
     (case ps_load I p d of
        (d1, Inl e) \<Rightarrow> (d1, Inl e)
      | (d1, Inr peers) \<Rightarrow>
          (if num < 1 \<or> num > int (length peers) then (d1, Inl (SeNoSavedPeer num))
           else (let i = nat (num - 1) in
             (case ps_save I p (take i peers @ drop (Suc i) peers) d1 of
                (d2, Inl e) \<Rightarrow> (d2, Inl e)
              | (d2, Inr _) \<Rightarrow> (d2, Inr (peers ! i))))))"

definition RemovePeerByID :: "os \<Rightarrow> PeerStore \<Rightarrow> string \<Rightarrow> disk \<Rightarrow> disk \<times> (store_error + unit)" where
  "RemovePeerByID I p peerID d =
     (case ps_load I p d of
        (d1, Inl e) \<Rightarrow> (d1, Inl e)
      | (d1, Inr peers) \<Rightarrow> ps_save I p (filter (\<lambda>r. tpPeerID r \<noteq> peerID) peers) d1)"

definition LoadPeers :: "os \<Rightarrow> PeerStore \<Rightarrow> disk \<Rightarrow> disk \<times> (store_error + TrustedPeer list)" where
  "LoadPeers I p d = ps_load I p d"

definition IsSaved :: "os \<Rightarrow> PeerStore \<Rightarrow> string \<Rightarrow> disk \<Rightarrow> disk \<times> bool" where
  "IsSaved I p peerID d =
     (case ps_load I p d of
        (d1, Inl _) \<Rightarrow> (d1, False)
      | (d1, Inr peers) \<Rightarrow> (d1, list_ex (\<lambda>r. tpPeerID r = peerID) peers))"

section \<open>Reading back what was written\<close>

definition peer_ok :: "TrustedPeer \<Rightarrow> bool" where
  "peer_ok r \<longleftrightarrow> utf8_ok (tpPeerID r) \<and> utf8_ok (tpNickname r) \<and> time_ok (tpSavedAt r)"

lemma peer_keys:
  "to_valid ''peerId'' = ''peerId''" "to_valid ''nickname'' = ''nickname''" "to_valid ''savedAt'' = ''savedAt''"
  by (simp_all add: to_valid_ascii)

lemma peer_key_is:
  "key_is ''peerId'' ''peerId''" "\<not> key_is ''peerId'' ''nickname''" "key_is ''nickname'' ''nickname''"
  "\<not> key_is ''peerId'' ''savedAt''" "\<not> key_is ''nickname'' ''savedAt''" "key_is ''savedAt'' ''savedAt''"
  by (simp_all add: key_is_def char_of_def bit_0)

lemma decode_peer_row:
  assumes "peer_ok r" and "peer_row r = Some raw"
  shows "Option.bind (json_members raw) (\<lambda>kvs. decode_fields set_peer kvs peer_zero) = Some r"
proof -
  obtain t where t: "marshal_time (tpSavedAt r) = Some t" "\<And>old. dec_time old t = Some (tpSavedAt r)"
    using dec_marshal_time [of "tpSavedAt r"] assms(1) by (metis option.inject peer_ok_def)
  let ?kvs = "[(''peerId'', json_quote (tpPeerID r)), (''nickname'', json_quote (tpNickname r)), (''savedAt'', t)]"
  have "raw = indent_object ?kvs" using assms(2) t(1) by (simp add: peer_row_def)
  moreover have "json_members (indent_object ?kvs) = Some ?kvs"
    using t(1) by (subst json_members_indent) (auto simp: self_delim_quote self_delim_time peer_keys)
  moreover have "decode_fields set_peer ?kvs peer_zero = Some r"
    using assms(1) t(2)
    by (simp add: set_peer_def peer_key_is dec_string_quote peer_ok_def utf8_ok_def peer_zero_def)
  ultimately show ?thesis by simp
qed

lemma self_delim_peer_row: "peer_row r = Some raw \<Longrightarrow> self_delim inner_nesting raw"
  unfolding peer_row_def inner_nesting_def max_nesting_def
  by (auto intro!: self_delim_indent_object [where d = 9998, simplified] simp: self_delim_quote self_delim_time)

lemma peer_row_Some: "peer_ok r \<Longrightarrow> \<exists>raw. peer_row r = Some raw"
  using marshal_time_ok [of "tpSavedAt r"] by (auto simp: peer_row_def peer_ok_def)

theorem peers_roundtrip:
  assumes "\<forall>r \<in> set rs. peer_ok r"
  shows "\<exists>data. marshal_peers rs = Some data \<and> unmarshal_peers data = Some rs"
proof -
  have "those (map peer_row rs) = Some (map (the \<circ> peer_row) rs)"
    using assms peer_row_Some by (intro those_map_Some) fastforce
  then obtain vs where vs: "those (map peer_row rs) = Some vs" by blast
  have "\<forall>v \<in> set vs. self_delim inner_nesting v"
    using those_set [OF vs] by (auto dest!: self_delim_peer_row [OF sym])
  then have "json_elems (indent_array vs) = Some vs" by (rule json_elems_indent)
  moreover have "those (map (\<lambda>raw. Option.bind (json_members raw)
      (\<lambda>kvs. decode_fields set_peer kvs peer_zero)) vs) = Some rs"
    using assms by (intro those_map_inverse [OF vs] decode_peer_row) auto
  ultimately show ?thesis
    using vs by (simp add: marshal_peers_def unmarshal_peers_def decode_rows_def)
qed

section \<open>The address book\<close>

definition ps_records :: "PeerStore \<Rightarrow> disk \<Rightarrow> TrustedPeer list option" where
  "ps_records p d = (case content d (psFilePath p) of None \<Rightarrow> Some [] | Some data \<Rightarrow> unmarshal_peers data)"

definition book_ok :: "TrustedPeer list \<Rightarrow> bool" where
  "book_ok rs \<longleftrightarrow> (\<forall>r \<in> set rs. peer_ok r) \<and> distinct (map tpPeerID rs)"

text \<open>The nickname of each saved identifier.\<close>

definition nicknames :: "TrustedPeer list \<Rightarrow> string \<Rightarrow> string option" where
  "nicknames rs = map_of (map (\<lambda>r. (tpPeerID r, tpNickname r)) rs)"

definition ps_book :: "PeerStore \<Rightarrow> disk \<Rightarrow> (string \<Rightarrow> string option) option" where
  "ps_book p d =
     (case ps_records p d of None \<Rightarrow> None | Some rs \<Rightarrow> if book_ok rs then Some (nicknames rs) else None)"

lemma ps_load_usable:
  "os_ok I (io_step d) \<Longrightarrow>
     ps_load I p d = (stepped d, case ps_records p d of None \<Rightarrow> Inl SeParse | Some rs \<Rightarrow> Inr rs)"
  by (auto simp: ps_load_def ReadFile_def io_guard_def ps_records_def split: option.splits)

lemma ps_load_content: "content (fst (ps_load I p d)) = content d"
  by (auto simp: ps_load_def ReadFile_def io_guard_def split: option.splits)

lemma WriteFile_ok: "WriteFile I p x d = (d', Inr u) \<Longrightarrow> content d' = (content d)(p \<mapsto> x)"
  by (auto simp: WriteFile_def io_guard_def write_open_def mget_content split: if_splits)

lemma WriteFile_succeeds: "(\<And>k. os_ok I k) \<Longrightarrow> snd (WriteFile I p x d) = Inr ()"
  by (simp add: WriteFile_def io_guard_def write_open_def)

lemma ps_save_ok:
  assumes "ps_save I p rs d = (d', Inr ())" and "book_ok rs"
  shows "ps_records p d' = Some rs" and "ps_book p d' = Some (nicknames rs)"
proof -
  obtain data where "marshal_peers rs = Some data" "unmarshal_peers data = Some rs"
    using peers_roundtrip assms(2) by (auto simp: book_ok_def)
  then show "ps_records p d' = Some rs"
    using assms(1) by (auto simp: ps_save_def ps_records_def split: prod.splits sum.splits dest!: WriteFile_ok)
  then show "ps_book p d' = Some (nicknames rs)" using assms(2) by (simp add: ps_book_def)
qed

lemma nicknames_None: "nicknames rs q = None \<longleftrightarrow> q \<notin> tpPeerID ` set rs"
  by (simp add: nicknames_def map_of_eq_None_iff image_image)

lemma put_peer_ids:
  "tpPeerID ` set (put_peer p n t rs) = insert p (tpPeerID ` set rs)"
  by (induction rs) auto

lemma put_peer_ok:
  assumes "book_ok rs" and "utf8_ok p" and "utf8_ok n" and "time_ok t"
  shows "book_ok (put_peer p n t rs)"
  using assms
proof (induction rs)
  case (Cons r rs)
  then have "book_ok (put_peer p n t rs)" "tpPeerID r \<notin> tpPeerID ` set rs"
    by (auto simp: book_ok_def)
  then show ?case
    using Cons.prems put_peer_ids [of p n t rs] by (auto simp: book_ok_def peer_ok_def)
qed (simp add: book_ok_def peer_ok_def)

lemma put_peer_nicknames: "nicknames (put_peer p n t rs) = (nicknames rs)(p \<mapsto> n)"
  by (induction rs) (auto simp: nicknames_def fun_eq_iff)

lemma filter_nicknames: "nicknames (filter (\<lambda>r. tpPeerID r \<noteq> p) rs) = (nicknames rs)(p := None)"
  by (induction rs) (auto simp: nicknames_def fun_eq_iff)

lemma filter_book_ok: "book_ok rs \<Longrightarrow> book_ok (filter Q rs)"
  by (auto simp: book_ok_def distinct_map_filter)

text \<open>Removing by position is removing the identifier that stands there.\<close>

lemma remove_at_filter:
  assumes "distinct (map tpPeerID rs)" and "i < length rs"
  shows "take i rs @ drop (Suc i) rs = filter (\<lambda>r. tpPeerID r \<noteq> tpPeerID (rs ! i)) rs"
  using assms
proof (induction rs arbitrary: i)
  case (Cons r rs)
  show ?case
  proof (cases i)
    case 0
    have "tpPeerID x \<noteq> tpPeerID r" if "x \<in> set rs" for x
      using that Cons.prems(1) by (metis distinct.simps(2) image_eqI list.set_map list.simps(9))
    then have "filter (\<lambda>x. tpPeerID x \<noteq> tpPeerID r) rs = rs" by (simp add: filter_id_conv)
    with 0 show ?thesis by simp
  next
    case (Suc j)
    then have "tpPeerID r \<noteq> tpPeerID (rs ! j)" using Cons.prems by auto
    with Suc Cons show ?thesis by simp
  qed
qed simp

lemma SavePeer_ok:
  assumes "SavePeer I s p n d = (d', Inr ())" and "os_ok I (io_step d)" and "ps_records s d = Some rs"
    and "book_ok rs" and "utf8_ok p" and "utf8_ok n" and "\<forall>k. time_ok (os_now I k)"
  shows "ps_book s d' = Some ((nicknames rs)(p \<mapsto> n))"
proof -
  obtain d1 where "ps_save I s (put_peer p n (os_now I (Suc (io_step d))) rs) d1 = (d', Inr ())"
    using assms(1-3) by (auto simp: SavePeer_def ps_load_usable time_now_def stepped_def)
  from ps_save_ok(2) [OF this] show ?thesis
    using put_peer_ok [OF assms(4-6)] assms(7) by (simp add: put_peer_nicknames)
qed

lemma RemovePeerByID_ok:
  assumes "RemovePeerByID I s p d = (d', Inr ())" and "os_ok I (io_step d)" and "ps_records s d = Some rs" and "book_ok rs"
  shows "ps_book s d' = Some ((nicknames rs)(p := None))"
proof -
  obtain d1 where "ps_save I s (filter (\<lambda>r. tpPeerID r \<noteq> p) rs) d1 = (d', Inr ())"
    using assms(1-3) by (auto simp: RemovePeerByID_def ps_load_usable)
  from ps_save_ok(2) [OF this] show ?thesis
    using filter_book_ok [OF assms(4)] by (simp add: filter_nicknames)
qed

lemma RemovePeerByNum_ok:
  assumes "RemovePeerByNum I s num d = (d', Inr r)" and "os_ok I (io_step d)" and "ps_records s d = Some rs" and "book_ok rs"
  shows "1 \<le> num \<and> num \<le> int (length rs) \<and> r = rs ! nat (num - 1) \<and>
    ps_book s d' = Some ((nicknames rs)(tpPeerID r := None))"
proof -
  have num: "1 \<le> num" "num \<le> int (length rs)"
    using assms(1-3) by (auto simp: RemovePeerByNum_def ps_load_usable split: if_splits)
  let ?i = "nat (num - 1)"
  have i: "?i < length rs" using num by linarith
  obtain d1 where sv: "ps_save I s (take ?i rs @ drop (Suc ?i) rs) d1 = (d', Inr ())" and r: "r = rs ! ?i"
    using assms(1-3) num
    by (auto simp: RemovePeerByNum_def ps_load_usable Let_def split: prod.splits sum.splits if_splits)
  have "take ?i rs @ drop (Suc ?i) rs = filter (\<lambda>x. tpPeerID x \<noteq> tpPeerID r) rs"
    using remove_at_filter [OF _ i] assms(4) r by (simp add: book_ok_def)
  then have "ps_book s d' = Some ((nicknames rs)(tpPeerID r := None))"
    using ps_save_ok(2) [OF sv] filter_book_ok [OF assms(4)] by (simp add: filter_nicknames)
  with num r show ?thesis by blast
qed

lemma IsSaved_book:
  assumes "os_ok I (io_step d)" and "ps_records s d = Some rs"
  shows "snd (IsSaved I s q d) \<longleftrightarrow> nicknames rs q \<noteq> None"
  using assms by (auto simp: IsSaved_def ps_load_usable list_ex_iff nicknames_None)

lemma SavePeer_succeeds:
  assumes "\<And>k. os_ok I k" and "ps_records s d = Some rs" and "book_ok rs" and "utf8_ok p" and "utf8_ok n"
    and "\<forall>k. time_ok (os_now I k)"
  shows "snd (SavePeer I s p n d) = Inr ()"
proof -
  have "book_ok (put_peer p n (os_now I (Suc (io_step d))) rs)" using put_peer_ok [OF assms(3-5)] assms(6) by simp
  then obtain data where "marshal_peers (put_peer p n (os_now I (Suc (io_step d))) rs) = Some data"
    using peers_roundtrip by (auto simp: book_ok_def)
  then show ?thesis
    using assms(1,2) WriteFile_succeeds [OF assms(1)]
    by (auto simp: SavePeer_def ps_load_usable time_now_def ps_save_def stepped_def split: prod.splits sum.splits)
       (metis snd_conv sum.distinct(1))
qed

text \<open>
  What a failed save leaves: the file as it was, or, as \<open>os.WriteFile\<close> truncates before it writes, a
  beginning of an encoded list.
\<close>

definition kept_or_torn :: "PeerStore \<Rightarrow> disk \<Rightarrow> disk \<Rightarrow> bool" where
  "kept_or_torn s d d' \<longleftrightarrow>
     content d' (psFilePath s) = content d (psFilePath s) \<or>
     (\<exists>rs data k. marshal_peers rs = Some data \<and> content d' (psFilePath s) = Some (take k data))"

lemma ps_save_fail: "ps_save I s rs d = (d', Inl e) \<Longrightarrow> kept_or_torn s d d'"
proof (cases "marshal_peers rs")
  case (Some data)
  moreover assume "ps_save I s rs d = (d', Inl e)"
  ultimately have "content d' (psFilePath s) = content d (psFilePath s) \<or> (\<exists>k. content d' (psFilePath s) = Some (take k data))"
    by (auto simp: ps_save_def WriteFile_def io_guard_def write_open_def mget_content
        split: prod.splits sum.splits if_splits)
  then show "kept_or_torn s d d'" using Some unfolding kept_or_torn_def by blast
qed (simp add: ps_save_def kept_or_torn_def)

lemma ps_load_kept: "ps_load I s d = (d1, r) \<Longrightarrow> content d1 = content d"
  using ps_load_content [of I s d] by simp

lemma kept_content: "content d1 = content d \<Longrightarrow> kept_or_torn s d1 d' = kept_or_torn s d d'"
  by (simp add: kept_or_torn_def)

lemma saves_fail:
  "SavePeer I s p n d = (d', Inl e) \<Longrightarrow> kept_or_torn s d d'"
  "RemovePeerByID I s p d = (d', Inl e) \<Longrightarrow> kept_or_torn s d d'"
  "RemovePeerByNum I s num d = (d', Inl e) \<Longrightarrow> kept_or_torn s d d'"
proof -
  obtain d1 r where l: "ps_load I s d = (d1, r)" by fastforce
  note c = ps_load_kept [OF l]
  note k = kept_content [OF c] and kt = kept_content [of "stepped d1" d s]
  show "SavePeer I s p n d = (d', Inl e) \<Longrightarrow> kept_or_torn s d d'"
    using l k kt c by (auto simp: SavePeer_def time_now_def dest!: ps_save_fail)
  have "content d' = content d \<Longrightarrow> kept_or_torn s d d'" for d' by (simp add: kept_or_torn_def)
  then show "RemovePeerByID I s p d = (d', Inl e) \<Longrightarrow> kept_or_torn s d d'"
    "RemovePeerByNum I s num d = (d', Inl e) \<Longrightarrow> kept_or_torn s d d'"
    using l k c
    by (auto simp: RemovePeerByID_def RemovePeerByNum_def Let_def split: sum.splits if_splits prod.splits dest!: ps_save_fail)
qed

lemma ps_load_unread:
  assumes "\<not> os_ok I (io_step d) \<or> ps_records s d = None"
  shows "\<exists>d1 e. ps_load I s d = (d1, Inl e) \<and> content d1 = content d"
proof -
  obtain d1 r where l: "ps_load I s d = (d1, r)" by fastforce
  then have "isl r" using assms by (auto simp: ps_load_def ReadFile_def io_guard_def ps_records_def split: option.splits if_splits)
  then show ?thesis using l ps_load_kept [OF l] by (cases r) auto
qed

lemma SavePeer_unread:
  assumes "\<not> os_ok I (io_step d) \<or> ps_records s d = None" and "SavePeer I s p n d = (d', Inr ())"
    and "utf8_ok p" and "utf8_ok n" and "\<forall>k. time_ok (os_now I k)"
  shows "ps_book s d' = Some [p \<mapsto> n]"
proof -
  obtain d0 e where l: "ps_load I s d = (d0, Inl e)" using ps_load_unread [OF assms(1)] by blast
  then have "ps_save I s (put_peer p n (os_now I (io_step d0)) []) (stepped d0) = (d', Inr ())"
    using assms(2) by (simp add: SavePeer_def time_now_def)
  moreover have "book_ok []" "nicknames [] = Map.empty" by (simp_all add: book_ok_def nicknames_def fun_eq_iff)
  ultimately show ?thesis
    using ps_save_ok(2) put_peer_ok [of "[]" p n "os_now I (io_step d0)"] put_peer_nicknames [of p n _ "[]"] assms(3-5) by metis
qed

section \<open>Properties\<close>

text \<open>
  C20. The peer store implements an address book from identifiers to nicknames. When the file can be
  read and is well-formed (it parses, with distinct identifiers and strings and times that JSON keeps),
  \<open>IsSaved\<close> tests for an entry, and what reports success has this effect: \<open>SavePeer\<close> sets an entry,
  \<open>RemovePeerByID\<close> deletes one and \<open>RemovePeerByNum\<close> deletes the one at a position between 1 and the length, whose
  record it returns. When the read fails or the file does not parse, \<open>IsSaved\<close> says no, the removals
  report an error and leave the file alone, and a successful \<open>SavePeer\<close>, which drops the error, has lost every
  entry but its own. Whatever reports an error has left the file as it was or, after the truncation by
  \<open>os.WriteFile\<close>, with a beginning of an encoded list.
\<close>

theorem peer_book_refined:
  assumes "utf8_ok p" and "utf8_ok n" and "\<forall>k. time_ok (os_now I k)"
  shows "(\<forall>rs. os_ok I (io_step d) \<longrightarrow> ps_records s d = Some rs \<longrightarrow> book_ok rs \<longrightarrow>
      (snd (IsSaved I s q d) \<longleftrightarrow> nicknames rs q \<noteq> None) \<and>
      (case SavePeer I s p n d of (d', r) \<Rightarrow> isl r \<or> ps_book s d' = Some ((nicknames rs)(p \<mapsto> n))) \<and>
      (case RemovePeerByID I s p d of (d', r) \<Rightarrow> isl r \<or> ps_book s d' = Some ((nicknames rs)(p := None))) \<and>
      (case RemovePeerByNum I s num d of
         (d', Inl _) \<Rightarrow> True
       | (d', Inr r) \<Rightarrow> 1 \<le> num \<and> num \<le> int (length rs) \<and> r = rs ! nat (num - 1) \<and>
           ps_book s d' = Some ((nicknames rs)(tpPeerID r := None)))) \<and>
    (\<not> os_ok I (io_step d) \<or> ps_records s d = None \<longrightarrow>
      \<not> snd (IsSaved I s q d) \<and>
      (case SavePeer I s p n d of (d', r) \<Rightarrow> isl r \<or> ps_book s d' = Some [p \<mapsto> n]) \<and>
      (case RemovePeerByID I s p d of (d', r) \<Rightarrow> isl r \<and> content d' = content d) \<and>
      (case RemovePeerByNum I s num d of (d', r) \<Rightarrow> isl r \<and> content d' = content d)) \<and>
    (case SavePeer I s p n d of (d', r) \<Rightarrow> isl r \<longrightarrow> kept_or_torn s d d') \<and>
    (case RemovePeerByID I s p d of (d', r) \<Rightarrow> isl r \<longrightarrow> kept_or_torn s d d') \<and>
    (case RemovePeerByNum I s num d of (d', r) \<Rightarrow> isl r \<longrightarrow> kept_or_torn s d d')"
proof (intro conjI allI impI)
  fix rs
  assume a: "os_ok I (io_step d)" "ps_records s d = Some rs" "book_ok rs"
  show "snd (IsSaved I s q d) \<longleftrightarrow> nicknames rs q \<noteq> None" by (rule IsSaved_book [OF a(1,2)])
  show "case SavePeer I s p n d of (d', r) \<Rightarrow> isl r \<or> ps_book s d' = Some ((nicknames rs)(p \<mapsto> n))"
    using SavePeer_ok [OF _ a assms] by (cases "SavePeer I s p n d"; cases "snd (SavePeer I s p n d)") auto
  show "case RemovePeerByID I s p d of (d', r) \<Rightarrow> isl r \<or> ps_book s d' = Some ((nicknames rs)(p := None))"
    using RemovePeerByID_ok [OF _ a]
    by (cases "RemovePeerByID I s p d"; cases "snd (RemovePeerByID I s p d)") auto
  show "case RemovePeerByNum I s num d of
       (d', Inl _) \<Rightarrow> True
     | (d', Inr r) \<Rightarrow> 1 \<le> num \<and> num \<le> int (length rs) \<and> r = rs ! nat (num - 1) \<and>
         ps_book s d' = Some ((nicknames rs)(tpPeerID r := None))"
    using RemovePeerByNum_ok [OF _ a]
    by (cases "RemovePeerByNum I s num d"; cases "snd (RemovePeerByNum I s num d)") auto
next
  assume un: "\<not> os_ok I (io_step d) \<or> ps_records s d = None"
  then obtain d1 e where l: "ps_load I s d = (d1, Inl e)" "content d1 = content d" using ps_load_unread by blast
  then show "\<not> snd (IsSaved I s q d)" "case RemovePeerByID I s p d of (d', r) \<Rightarrow> isl r \<and> content d' = content d"
    "case RemovePeerByNum I s num d of (d', r) \<Rightarrow> isl r \<and> content d' = content d"
    by (simp_all add: IsSaved_def RemovePeerByID_def RemovePeerByNum_def)
  show "case SavePeer I s p n d of (d', r) \<Rightarrow> isl r \<or> ps_book s d' = Some [p \<mapsto> n]"
    using SavePeer_unread [OF un _ assms] by (cases "SavePeer I s p n d"; cases "snd (SavePeer I s p n d)") auto
next
  show "case SavePeer I s p n d of (d', r) \<Rightarrow> isl r \<longrightarrow> kept_or_torn s d d'"
    "case RemovePeerByID I s p d of (d', r) \<Rightarrow> isl r \<longrightarrow> kept_or_torn s d d'"
    "case RemovePeerByNum I s num d of (d', r) \<Rightarrow> isl r \<longrightarrow> kept_or_torn s d d'"
    using saves_fail by (auto split: prod.split simp: isl_def)
qed

theorem peer_book_refined_witness:
  "ps_book (peer_store ''data'') (fst (SavePeer demo_os (peer_store ''data'') ''QmA'' ''Ada'' empty_disk))
     = Some [''QmA'' \<mapsto> ''Ada''] \<and>
   snd (SavePeer demo_os (peer_store ''data'') ''QmA'' ''Ada'' empty_disk) = Inr () \<and>
   isl (snd (RemovePeerByID (demo_os\<lparr>os_ok := (\<lambda>n. False)\<rparr>) (peer_store ''data'') ''QmA'' empty_disk))"
proof -
  have e: "ps_records (peer_store ''data'') empty_disk = Some []" "book_ok []"
    by (simp_all add: ps_records_def book_ok_def)
  have u: "utf8_ok ''QmA''" "utf8_ok ''Ada''" by (simp_all add: utf8_ok_ascii)
  have s: "snd (SavePeer demo_os (peer_store ''data'') ''QmA'' ''Ada'' empty_disk) = Inr ()"
    using e u by (intro SavePeer_succeeds) auto
  note ref = peer_book_refined [OF u, where q = "[]" and num = 1 and d = empty_disk and s = "peer_store ''data''"]
  have "time_ok (os_now demo_os n)" "time_ok (os_now (demo_os\<lparr>os_ok := (\<lambda>n. False)\<rparr>) n)" "os_ok demo_os n" for n by simp_all
  then show ?thesis using ref [of demo_os] ref [of "demo_os\<lparr>os_ok := (\<lambda>n. False)\<rparr>"] e s
    by (auto simp: nicknames_def split: prod.splits)
qed

text \<open>
  The removals refuse without touching the file: \<open>RemovePeerByNum\<close> for a number outside 1 to the
  length, and both removals when the file cannot be read or parsed.
\<close>

theorem removals_refuse:
  assumes "os_ok I (io_step d) \<longrightarrow> ps_records s d = None \<or>
      (\<exists>rs. ps_records s d = Some rs \<and> (num < 1 \<or> int (length rs) < num))"
  shows "isl (snd (RemovePeerByNum I s num d)) \<and> content (fst (RemovePeerByNum I s num d)) = content d \<and>
    (ps_records s d \<noteq> None \<and> os_ok I (io_step d) \<or>
     isl (snd (RemovePeerByID I s p d)) \<and> content (fst (RemovePeerByID I s p d)) = content d)"
proof (cases "os_ok I (io_step d)")
  case False
  then have "ps_load I s d = (stepped d, Inl (SeRead IoFailure))"
    by (simp add: ps_load_def ReadFile_def io_guard_def)
  then show ?thesis by (simp add: RemovePeerByNum_def RemovePeerByID_def)
next
  case True
  then show ?thesis
    using assms by (cases "ps_records s d") (auto simp: RemovePeerByNum_def RemovePeerByID_def ps_load_usable)
qed

theorem removals_refuse_witness:
  "isl (snd (RemovePeerByNum demo_os (peer_store ''data'') 1 empty_disk))"
proof -
  have "ps_records (peer_store ''data'') empty_disk = Some []" by (simp add: ps_records_def)
  then show ?thesis using removals_refuse [of demo_os empty_disk "peer_store ''data''" 1 "[]"] by simp
qed

text \<open>
  \<open>os.WriteFile\<close> truncates before it writes: when the write after the open fails, the saved peers
  are gone, unlike with the replacement the other stores use. The file is then not even valid JSON.
\<close>

theorem failed_save_loses_peers:
  assumes "os_ok I (io_step d)" and "ps_records s d = Some rs" and "book_ok rs" and "utf8_ok p" and "utf8_ok n"
    and "\<forall>k. time_ok (os_now I k)" and "os_ok I (io_step d + 2)" and "\<not> os_ok I (io_step d + 3)"
    and "os_part I (io_step d + 3) = 0"
  shows "snd (SavePeer I s p n d) = Inl (SeWrite IoFailure) \<and>
    ps_records s (fst (SavePeer I s p n d)) = None"
proof -
  have "book_ok (put_peer p n (os_now I (Suc (io_step d))) rs)" using put_peer_ok [OF assms(3-5)] assms(6) by simp
  then obtain data where data: "marshal_peers (put_peer p n (os_now I (Suc (io_step d))) rs) = Some data"
    using peers_roundtrip by (auto simp: book_ok_def)
  have "unmarshal_peers [] = None"
    by (simp add: unmarshal_peers_def decode_rows_def json_elems_def json_Valid_def value_step_def)
  then show ?thesis
    using assms(1,2,7-9) data
    by (simp add: SavePeer_def ps_load_usable time_now_def ps_save_def WriteFile_def io_guard_def write_open_def
        stepped_def set_file_def ps_records_def content_def gomap_simps numeral_2_eq_2 numeral_3_eq_3)
qed

end
