(* ===== verification/History_Store.thy ===== *)
theory History_Store
  imports Record_Store Handshake
begin

text \<open>
  \<open>storage/history.go\<close>: one encrypted file per conversation. A file is a nonce followed by the
  sealed JSON list of messages, under a key derived from the identity key and the peer identifier;
  it is replaced as a whole when a message is added.

  The AEAD and HKDF are the library parameters of the handshake model.
\<close>

section \<open>Messages\<close>

record StoredMsg =
  smID :: string
  smFrom :: string
  smFromName :: string
  smContent :: string
  smTimestamp :: time
  smIsOwn :: bool

definition msg_zero :: StoredMsg where
  "msg_zero = \<lparr>smID = [], smFrom = [], smFromName = [], smContent = [], smTimestamp = time_zero, smIsOwn = False\<rparr>"

definition set_msg :: "string \<times> string \<Rightarrow> StoredMsg \<Rightarrow> StoredMsg option" where
  "set_msg kv m =
     (if key_is ''id'' (fst kv) then map_option (\<lambda>x. m\<lparr>smID := x\<rparr>) (dec_string (smID m) (snd kv))
      else if key_is ''from'' (fst kv) then map_option (\<lambda>x. m\<lparr>smFrom := x\<rparr>) (dec_string (smFrom m) (snd kv))
      else if key_is ''fromName'' (fst kv) then map_option (\<lambda>x. m\<lparr>smFromName := x\<rparr>) (dec_string (smFromName m) (snd kv))
      else if key_is ''content'' (fst kv) then map_option (\<lambda>x. m\<lparr>smContent := x\<rparr>) (dec_string (smContent m) (snd kv))
      else if key_is ''timestamp'' (fst kv) then map_option (\<lambda>x. m\<lparr>smTimestamp := x\<rparr>) (dec_time (smTimestamp m) (snd kv))
      else if key_is ''isOwn'' (fst kv) then map_option (\<lambda>x. m\<lparr>smIsOwn := x\<rparr>) (dec_bool (smIsOwn m) (snd kv))
      else Some m)"

definition unmarshal_msgs :: "bytes \<Rightarrow> StoredMsg list option" where
  "unmarshal_msgs = decode_rows set_msg msg_zero"

definition msg_fields :: "StoredMsg \<Rightarrow> string \<Rightarrow> (string \<times> string) list" where
  "msg_fields m t =
     [(''id'', json_quote (smID m)), (''from'', json_quote (smFrom m)), (''fromName'', json_quote (smFromName m)),
      (''content'', json_quote (smContent m)), (''timestamp'', t), (''isOwn'', json_bool (smIsOwn m))]"

definition msg_row :: "StoredMsg \<Rightarrow> string option" where
  "msg_row m = map_option (\<lambda>t. json_object (msg_fields m t)) (marshal_time (smTimestamp m))"

definition marshal_msgs :: "StoredMsg list \<Rightarrow> bytes option" where
  "marshal_msgs ms = map_option json_array (those (map msg_row ms))"

section \<open>The store\<close>

record HistoryStore =
  hsDataDir :: string
  hsPrivKey :: bytes

definition history_store :: "string \<Rightarrow> bytes \<Rightarrow> HistoryStore" where
  "history_store dataDir privKey = \<lparr>hsDataDir = path_Join [dataDir, ''history''], hsPrivKey = privKey\<rparr>"

definition NewHistoryStore :: "os \<Rightarrow> string \<Rightarrow> bytes \<Rightarrow> disk \<Rightarrow> disk \<times> (store_error + HistoryStore)" where
  "NewHistoryStore I dataDir privKeyBytes d =
     (case MkdirAll I (path_Join [dataDir, ''history'']) d of
        (d1, Inl e) \<Rightarrow> (d1, Inl (SeMkdir e))
      | (d1, Inr _) \<Rightarrow> (d1, Inr (history_store dataDir privKeyBytes)))"

definition hs_deriveKey :: "kex_lib \<Rightarrow> HistoryStore \<Rightarrow> string \<Rightarrow> store_error + bytes" where
  "hs_deriveKey K h peerID =
     (case HKDF K (hsPrivKey h) peerID ''p2pchat-history-v1'' keySize of
        Inl e \<Rightarrow> Inl (SeCrypto (''hkdf: '' @ e))
      | Inr key \<Rightarrow> Inr key)"

definition hs_filePath :: "HistoryStore \<Rightarrow> string \<Rightarrow> string" where
  "hs_filePath h peerID = path_Join [hsDataDir h, peerID @ ''.enc'']"

definition validatePeerID :: "string \<Rightarrow> bool" where
  "validatePeerID peerID \<longleftrightarrow>
     \<not> (peerID = [] \<or> peerID = ''.'' \<or> peerID = ''..'' \<or>
        slash \<in> set peerID \<or> CHR 0x5C \<in> set peerID \<or> sublist ''..'' peerID)"

definition hs_aead :: "kex_lib \<Rightarrow> HistoryStore \<Rightarrow> string \<Rightarrow> store_error + bytes" where
  "hs_aead K h peerID =
     (case hs_deriveKey K h peerID of
        Inl e \<Rightarrow> Inl e
      | Inr key \<Rightarrow>
          (case NewAEAD K key of Inl e \<Rightarrow> Inl (SeCrypto (''create aead: '' @ e)) | Inr a \<Rightarrow> Inr a))"

text \<open>The part of \<open>readFile\<close> after the file has been read.\<close>

definition decode_history :: "kex_lib \<Rightarrow> aead_lib \<Rightarrow> HistoryStore \<Rightarrow> string \<Rightarrow> bytes \<Rightarrow> store_error + StoredMsg list" where
  "decode_history K A h peerID data =
     (case hs_aead K h peerID of
        Inl e \<Rightarrow> Inl e
      | Inr a \<Rightarrow>
          (if length data < nonceSize then Inl SeTooShort
           else (case Open A a (take nonceSize data) (drop nonceSize data) of
              None \<Rightarrow> Inl SeDecrypt
            | Some plain \<Rightarrow> (case unmarshal_msgs plain of None \<Rightarrow> Inl SeParse | Some ms \<Rightarrow> Inr ms))))"

definition hs_readFile ::
  "kex_lib \<Rightarrow> aead_lib \<Rightarrow> os \<Rightarrow> HistoryStore \<Rightarrow> string \<Rightarrow> disk \<Rightarrow> disk \<times> (store_error + StoredMsg list)"
where
  "hs_readFile K A I h peerID d =
     (if \<not> validatePeerID peerID then (d, Inl (SeInvalidPeerID peerID))
      else (case ReadFile I (hs_filePath h peerID) d of
         (d1, Inl NotExist) \<Rightarrow> (d1, Inr [])
       | (d1, Inl e) \<Rightarrow> (d1, Inl (SeRead e))
       | (d1, Inr data) \<Rightarrow> (d1, decode_history K A h peerID data)))"

definition hs_writeFile ::
  "kex_lib \<Rightarrow> aead_lib \<Rightarrow> os \<Rightarrow> HistoryStore \<Rightarrow> string \<Rightarrow> StoredMsg list \<Rightarrow> disk \<Rightarrow> disk \<times> (store_error + unit)"
where
  "hs_writeFile K A I h peerID msgs d =
     (if \<not> validatePeerID peerID then (d, Inl (SeInvalidPeerID peerID))
      else (case marshal_msgs msgs of
         None \<Rightarrow> (d, Inl SeMarshal)
       | Some plain \<Rightarrow>
           (case hs_aead K h peerID of
              Inl e \<Rightarrow> (d, Inl e)
            | Inr a \<Rightarrow>
                (case rand_Read I nonceSize d of
                   (d1, None) \<Rightarrow> (d1, Inl SeNonce)
                 | (d1, Some nonce) \<Rightarrow>
                     (case replace_file I (hsDataDir h) (peerID @ ''.tmp-'') [] (hs_filePath h peerID)
                            (nonce @ Seal A a nonce plain) d1 of
                        (d2, Inl e) \<Rightarrow> (d2, Inl (SeReplace e))
                      | (d2, Inr _) \<Rightarrow> (d2, Inr ()))))))"

definition SaveMessage ::
  "kex_lib \<Rightarrow> aead_lib \<Rightarrow> os \<Rightarrow> HistoryStore \<Rightarrow> string \<Rightarrow> StoredMsg \<Rightarrow> disk \<Rightarrow> disk \<times> (store_error + unit)"
where
  "SaveMessage K A I h peerID msg d =
     (if \<not> validatePeerID peerID then (d, Inl (SeInvalidPeerID peerID))
      else (case hs_readFile K A I h peerID d of
         (d1, Inl e) \<Rightarrow> (d1, Inl (SeExisting e))
       | (d1, Inr msgs) \<Rightarrow> hs_writeFile K A I h peerID (msgs @ [msg]) d1))"

definition LoadHistory ::
  "kex_lib \<Rightarrow> aead_lib \<Rightarrow> os \<Rightarrow> HistoryStore \<Rightarrow> string \<Rightarrow> disk \<Rightarrow> disk \<times> (store_error + StoredMsg list)"
where
  "LoadHistory K A I h peerID d = hs_readFile K A I h peerID d"

definition load_entry ::
  "kex_lib \<Rightarrow> aead_lib \<Rightarrow> os \<Rightarrow> HistoryStore \<Rightarrow> string \<times> bool \<Rightarrow>
     disk \<times> (string, StoredMsg list) gomap \<Rightarrow> disk \<times> (string, StoredMsg list) gomap"
where
  "load_entry K A I h e dm =
     (if snd e \<or> \<not> HasSuffix (fst e) ''.enc'' then dm
      else (let peerID = TrimSuffix (fst e) ''.enc'' in
        (case hs_readFile K A I h peerID (fst dm) of
           (d1, Inl _) \<Rightarrow> (d1, snd dm)
         | (d1, Inr msgs) \<Rightarrow> (d1, if 0 < length msgs then mput peerID msgs (snd dm) else snd dm))))"

definition LoadAllHistories ::
  "kex_lib \<Rightarrow> aead_lib \<Rightarrow> os \<Rightarrow> HistoryStore \<Rightarrow> disk \<Rightarrow> disk \<times> (store_error + (string, StoredMsg list) gomap)"
where
  "LoadAllHistories K A I h d =
     (case ReadDir I (hsDataDir h) d of
        (d1, Inl NotExist) \<Rightarrow> (d1, Inr [])
      | (d1, Inl e) \<Rightarrow> (d1, Inl (SeReadDir e))
      | (d1, Inr entries) \<Rightarrow> (case fold (load_entry K A I h) entries (d1, []) of (d2, m) \<Rightarrow> (d2, Inr m)))"

definition ClearHistory :: "os \<Rightarrow> HistoryStore \<Rightarrow> string \<Rightarrow> disk \<Rightarrow> disk \<times> (store_error + unit)" where
  "ClearHistory I h peerID d =
     (if \<not> validatePeerID peerID then (d, Inl (SeInvalidPeerID peerID))
      else (case Remove I (hs_filePath h peerID) d of
         (d1, Inl NotExist) \<Rightarrow> (d1, Inr ())
       | (d1, Inl e) \<Rightarrow> (d1, Inl (SeRemove e))
       | (d1, Inr _) \<Rightarrow> (d1, Inr ())))"

section \<open>Reading back what was written\<close>

definition msg_ok :: "StoredMsg \<Rightarrow> bool" where
  "msg_ok m \<longleftrightarrow> utf8_ok (smID m) \<and> utf8_ok (smFrom m) \<and> utf8_ok (smFromName m) \<and> utf8_ok (smContent m) \<and>
     time_ok (smTimestamp m)"

definition msg_keys :: "string list" where
  "msg_keys = [''id'', ''from'', ''fromName'', ''content'', ''timestamp'', ''isOwn'']"

lemma msg_keys_valid: "k \<in> set msg_keys \<Longrightarrow> to_valid k = k"
  by (auto simp: msg_keys_def to_valid_ascii)

lemma msg_keys_distinct: "j \<in> set msg_keys \<Longrightarrow> k \<in> set msg_keys \<Longrightarrow> key_is j k \<longleftrightarrow> j = k"
  by (simp add: msg_keys_def key_is_def char_of_def bit_0, elim disjE) simp_all

lemma decode_msg_row:
  assumes "msg_ok m" and "msg_row m = Some raw"
  shows "Option.bind (json_members raw) (\<lambda>kvs. decode_fields set_msg kvs msg_zero) = Some m"
proof -
  obtain t where t: "marshal_time (smTimestamp m) = Some t" "\<And>old. dec_time old t = Some (smTimestamp m)"
    using dec_marshal_time [of "smTimestamp m"] assms(1) by (metis option.inject msg_ok_def)
  have "raw = json_object (msg_fields m t)" using assms(2) t(1) by (simp add: msg_row_def)
  moreover have "json_members (json_object (msg_fields m t)) = Some (msg_fields m t)"
    using t(1) by (subst json_members_object)
      (auto simp: msg_fields_def settled_quote settled_bool settled_time msg_keys_valid msg_keys_def)
  moreover have "decode_fields set_msg (msg_fields m t) msg_zero = Some m"
    using assms(1) t(2)
    by (simp add: msg_fields_def set_msg_def msg_keys_distinct msg_keys_def dec_string_quote dec_bool_bool
        msg_ok_def utf8_ok_def msg_zero_def)
  ultimately show ?thesis by simp
qed

lemma settled_msg_row: "msg_row m = Some raw \<Longrightarrow> settled inner_nesting raw"
  unfolding msg_row_def inner_nesting_def max_nesting_def
  by (auto intro!: settled_object [where d = 9998, simplified]
      simp: msg_fields_def settled_quote settled_bool settled_time)

lemma msg_row_Some: "msg_ok m \<Longrightarrow> \<exists>raw. msg_row m = Some raw"
  using marshal_time_ok [of "smTimestamp m"] by (auto simp: msg_row_def msg_ok_def)

theorem msgs_roundtrip:
  assumes "\<forall>m \<in> set ms. msg_ok m"
  shows "\<exists>data. marshal_msgs ms = Some data \<and> unmarshal_msgs data = Some ms"
proof -
  have "those (map msg_row ms) = Some (map (the \<circ> msg_row) ms)"
    using assms msg_row_Some by (intro those_map_Some) fastforce
  then obtain vs where vs: "those (map msg_row ms) = Some vs" by blast
  have "\<forall>v \<in> set vs. settled inner_nesting v"
    using those_set [OF vs] by (auto dest!: settled_msg_row [OF sym])
  then have "json_elems (json_array vs) = Some vs" by (rule json_elems_array)
  moreover have "those (map (\<lambda>raw. Option.bind (json_members raw)
      (\<lambda>kvs. decode_fields set_msg kvs msg_zero)) vs) = Some ms"
    using assms by (intro those_map_inverse [OF vs] decode_msg_row) auto
  ultimately show ?thesis
    using vs by (simp add: marshal_msgs_def unmarshal_msgs_def decode_rows_def)
qed

section \<open>Files of the store\<close>

abbreviation hstore :: "string \<Rightarrow> bytes \<Rightarrow> HistoryStore" where
  "hstore dir key \<equiv> history_store dir key"

lemma history_dir_clean: "clean_dir (hsDataDir (hstore dir key))"
  by (simp add: history_store_def clean_dir_Join plain_name_def slash_def)

lemma history_dir_last: "hsDataDir (hstore dir key) \<noteq> []" "last (hsDataDir (hstore dir key)) \<noteq> slash"
proof -
  obtain pre where "hsDataDir (hstore dir key) = pre @ ''history''"
    using path_Join_name [of "''history''" dir] by (auto simp: history_store_def plain_name_def slash_def)
  then show "hsDataDir (hstore dir key) \<noteq> []" "last (hsDataDir (hstore dir key)) \<noteq> slash"
    by (simp_all add: slash_def)
qed

lemma history_name_plain: "validatePeerID p \<Longrightarrow> plain_name (p @ ''.enc'')"
  by (auto simp: validatePeerID_def plain_name_def slash_def)

lemma history_path:
  "validatePeerID p \<Longrightarrow> hs_filePath (hstore dir key) p = hsDataDir (hstore dir key) @ slash # p @ ''.enc''"
  by (simp add: hs_filePath_def path_Join_clean history_dir_clean history_name_plain)

lemma history_temp:
  "temp_name (hsDataDir (hstore dir key)) (p @ ''.tmp-'') [] k = hsDataDir (hstore dir key) @ slash # p @ ''.tmp-'' @ dec_nat k"
  using history_dir_last [of dir key] by (simp add: temp_name_def temp_prefix_def)

lemma history_not_temp:
  assumes "validatePeerID q"
  shows "hs_filePath (hstore dir key) q \<noteq> temp_name (hsDataDir (hstore dir key)) (p @ ''.tmp-'') [] k"
proof
  assume "hs_filePath (hstore dir key) q = temp_name (hsDataDir (hstore dir key)) (p @ ''.tmp-'') [] k"
  then have "q @ ''.enc'' = p @ ''.tmp-'' @ dec_nat k" by (simp add: history_path [OF assms] history_temp)
  then have "last (dec_nat k) = CHR ''c''" by (metis append_assoc dec_nat_nonempty last_appendR last.simps list.distinct(1))
  moreover have "is_digit (last (dec_nat k))" using dec_nat_digits [of k] by (simp add: list_all_iff)
  ultimately show False by (simp add: is_digit_def)
qed

lemma history_path_inj:
  "validatePeerID p \<Longrightarrow> validatePeerID q \<Longrightarrow>
     hs_filePath (hstore dir key) p = hs_filePath (hstore dir key) q \<longleftrightarrow> p = q"
  by (simp add: history_path)

section \<open>What a file says\<close>

definition hs_stored :: "kex_lib \<Rightarrow> aead_lib \<Rightarrow> HistoryStore \<Rightarrow> string \<Rightarrow> disk \<Rightarrow> StoredMsg list option" where
  "hs_stored K A h p d =
     (case content d (hs_filePath h p) of
        None \<Rightarrow> Some []
      | Some data \<Rightarrow> (case decode_history K A h p data of Inl _ \<Rightarrow> None | Inr ms \<Rightarrow> Some ms))"

definition rand_ok :: "os \<Rightarrow> bool" where
  "rand_ok I \<longleftrightarrow> (\<forall>t n x. os_rand I t n = Some x \<longrightarrow> length x = n)"

lemma hs_readFile_content: "content (fst (hs_readFile K A I h p d)) = content d"
  by (auto simp: hs_readFile_def ReadFile_def io_guard_def split: option.splits)

lemma hs_readFile_ok: "hs_readFile K A I h p d = (d1, Inr ms) \<Longrightarrow> hs_stored K A h p d = Some ms \<and> validatePeerID p"
  by (auto simp: hs_readFile_def ReadFile_def io_guard_def hs_stored_def split: option.splits if_splits)

lemma hs_readFile_stored:
  "os_ok I (io_step d) \<Longrightarrow> validatePeerID p \<Longrightarrow> hs_stored K A h p d = Some ms \<Longrightarrow>
     hs_readFile K A I h p d = (stepped d, Inr ms)"
  by (auto simp: hs_readFile_def ReadFile_def io_guard_def hs_stored_def split: option.splits sum.splits)

lemma hs_readFile_corrupt: "hs_stored K A h p d = None \<Longrightarrow> isl (snd (hs_readFile K A I h p d))"
  by (auto simp: hs_readFile_def ReadFile_def io_guard_def hs_stored_def split: option.splits sum.splits)

text \<open>Writing: either nothing changes at the target, or a file that decodes to the messages stands there.\<close>

lemma hs_writeFile_cases:
  assumes "hs_writeFile K A I (hstore dir key) p ms d = (d', r)"
  obtains (fail) e where "r = Inl e"
      "content d' (hs_filePath (hstore dir key) p) = content d (hs_filePath (hstore dir key) p)"
  | (ok) plain a nonce t where "r = Inr ()" "validatePeerID p" "marshal_msgs ms = Some plain"
      "hs_aead K (hstore dir key) p = Inr a" "os_rand I t nonceSize = Some nonce"
      "content d' (hs_filePath (hstore dir key) p) = Some (nonce @ Seal A a nonce plain)"
proof (cases "validatePeerID p \<and> marshal_msgs ms \<noteq> None \<and> \<not> isl (hs_aead K (hstore dir key) p)
    \<and> os_rand I (io_step d) nonceSize \<noteq> None")
  case False
  then have "\<exists>e. r = Inl e \<and> content d' = content d"
    using assms by (auto simp: hs_writeFile_def rand_Read_def split: option.splits sum.splits if_splits)
  then show thesis using fail by metis
next
  case True
  then obtain plain a nonce where o: "marshal_msgs ms = Some plain" "hs_aead K (hstore dir key) p = Inr a"
      "os_rand I (io_step d) nonceSize = Some nonce" "validatePeerID p"
    by (auto simp: not_less isl_def) (metis sum.exhaust)
  obtain d2 r2 where rep: "replace_file I (hsDataDir (hstore dir key)) (p @ ''.tmp-'') []
      (hs_filePath (hstore dir key) p) (nonce @ Seal A a nonce plain) (stepped d) = (d2, r2)" by fastforce
  have d2: "d' = d2" "isl r = isl r2"
    using assms o rep by (auto simp: hs_writeFile_def rand_Read_def split: sum.splits)
  note c = replace_file_content(1) [OF rep history_not_temp [OF o(4)]]
  show thesis
  proof (cases r2)
    case (Inl e)
    with d2 obtain e' where "r = Inl e'" by (cases r) auto
    with fail [of e'] show thesis using c Inl d2 by simp
  next
    case (Inr u)
    with d2 have "r = Inr ()" by (cases r) auto
    moreover have "content d' (hs_filePath (hstore dir key) p) = Some (nonce @ Seal A a nonce plain)"
      using c Inr d2 by simp
    ultimately show thesis using ok [OF _ o(4,1,2,3)] by blast
  qed
qed

lemma decode_written:
  assumes "aead_correct A" and "length nonce = nonceSize" and "hs_aead K h p = Inr a"
    and "marshal_msgs ms = Some plain" and "\<forall>m \<in> set ms. msg_ok m"
  shows "decode_history K A h p (nonce @ Seal A a nonce plain) = Inr ms"
  using assms msgs_roundtrip [OF assms(5)] by (auto simp: decode_history_def aead_correct_def)

lemma hs_writeFile_stored:
  assumes "hs_writeFile K A I (hstore dir key) p ms d = (d', Inr ())" and "aead_correct A" and "rand_ok I"
    and "\<forall>m \<in> set ms. msg_ok m"
  shows "hs_stored K A (hstore dir key) p d' = Some ms"
  using assms(1)
proof (cases rule: hs_writeFile_cases)
  case (ok plain a nonce t)
  then have "length nonce = nonceSize" using assms(3) by (auto simp: rand_ok_def)
  from decode_written [OF assms(2) this ok(4,3) assms(4)] show ?thesis using ok by (simp add: hs_stored_def)
qed simp

lemma SaveMessage_cases:
  assumes "SaveMessage K A I h p m d = (d', r)"
  obtains (refused) e where "r = Inl e" "content d' = content d"
  | (written) ms d1 where "hs_stored K A h p d = Some ms" "content d1 = content d" "validatePeerID p"
      "hs_writeFile K A I h p (ms @ [m]) d1 = (d', r)"
proof (cases "validatePeerID p \<and> \<not> isl (snd (hs_readFile K A I h p d))")
  case True
  then obtain ms where "hs_readFile K A I h p d = (fst (hs_readFile K A I h p d), Inr ms)"
    by (cases "hs_readFile K A I h p d"; cases "snd (hs_readFile K A I h p d)") auto
  with True assms written [of ms "fst (hs_readFile K A I h p d)"] show thesis
    using hs_readFile_content [of K A I h p d] hs_readFile_ok [of K A I h p d _ ms]
    by (auto simp: SaveMessage_def split: prod.splits)
next
  case False
  then have "\<exists>e. r = Inl e \<and> content d' = content d"
    using assms hs_readFile_content [of K A I h p d]
    by (auto simp: SaveMessage_def split: prod.splits sum.splits if_splits)
  with refused show thesis by blast
qed

lemma hs_stored_cong:
  "content d' (hs_filePath h p) = content d (hs_filePath h p) \<Longrightarrow> hs_stored K A h p d' = hs_stored K A h p d"
  by (simp add: hs_stored_def)

text \<open>The history of a peer is a durable list: a message is appended or nothing changes.\<close>

interpretation hd: durable_store
  "SaveMessage K A I (hstore dir key) p" "hs_stored K A (hstore dir key) p"
  "\<lambda>m ms. ms @ [m]" "\<lambda>m. msg_ok m \<and> aead_correct A \<and> rand_ok I" "\<lambda>ms. \<forall>m \<in> set ms. msg_ok m" "\<lambda>d. True"
  for K A I dir key p
proof
  fix d ms m d'
  assume st: "hs_stored K A (hstore dir key) p d = Some ms" and ok: "\<forall>m \<in> set ms. msg_ok m"
    and m: "msg_ok m \<and> aead_correct A \<and> rand_ok I" and sv: "SaveMessage K A I (hstore dir key) p m d = (d', Inr ())"
  from sv have "hs_stored K A (hstore dir key) p d' = Some (ms @ [m])"
  proof (cases rule: SaveMessage_cases)
    case (written ms' d1)
    then show ?thesis using st ok m by (intro hs_writeFile_stored) auto
  qed simp
  then show "\<exists>ms'. hs_stored K A (hstore dir key) p d' = Some ms' \<and> ms' = ms @ [m] \<and> (\<forall>m \<in> set ms'. msg_ok m)"
    using ok m by simp
next
  fix d ms m d' e
  assume "SaveMessage K A I (hstore dir key) p m d = (d', Inl e)"
  then show "hs_stored K A (hstore dir key) p d' = hs_stored K A (hstore dir key) p d"
  proof (cases rule: SaveMessage_cases)
    case (written ms' d1)
    from written(4) show ?thesis
      by (cases rule: hs_writeFile_cases) (use written in \<open>simp_all add: hs_stored_def\<close>)
  qed (auto intro: hs_stored_cong)
qed

lemma fold_append: "fold (\<lambda>m ms. ms @ [m]) kept ms = ms @ kept"
  by (induction kept arbitrary: ms) simp_all

lemma hs_writeFile_other:
  assumes "hs_writeFile K A I (hstore dir key) p ms d = (d', r)" and "validatePeerID q" and "q \<noteq> p"
  shows "content d' (hs_filePath (hstore dir key) q) = content d (hs_filePath (hstore dir key) q)"
proof (cases "d' = d \<or> d' = stepped d")
  case False
  then obtain a plain nonce where o: "validatePeerID p" "hs_aead K (hstore dir key) p = Inr a"
      "marshal_msgs ms = Some plain" "os_rand I (io_step d) nonceSize = Some nonce"
    using assms(1) by (auto simp: hs_writeFile_def rand_Read_def split: option.splits sum.splits if_splits)
  obtain d2 r2 where rep: "replace_file I (hsDataDir (hstore dir key)) (p @ ''.tmp-'') []
      (hs_filePath (hstore dir key) p) (nonce @ Seal A a nonce plain) (stepped d) = (d2, r2)" by fastforce
  have "d' = d2" using assms(1) o rep by (auto simp: hs_writeFile_def rand_Read_def split: sum.splits)
  then show ?thesis
    using replace_file_content(2) [OF rep history_not_temp [OF o(1)], of "hs_filePath (hstore dir key) q"]
      history_not_temp [OF assms(2)] history_path_inj [OF assms(2) o(1)] assms(3) by auto
qed auto

section \<open>Properties\<close>

text \<open>
  C11. Whatever calls fail, wherever a crash stops a write and in whatever order the goroutines that
  save the messages \<open>new\<close> get their turn (\<open>sched\<close>), a history holds in the end its old messages
  followed by exactly those whose save reported success, in the order of their turns: no stored
  message is lost or changed, and none is stored more often than it was to be saved.
\<close>

theorem saved_messages_survive:
  assumes "hs_stored K A (history_store dir key) p d = Some ms" and "\<forall>m \<in> set ms. msg_ok m"
    and "\<forall>m \<in> set new. msg_ok m" and "aead_correct A" and "rand_ok I" and "mset sched = mset new"
  shows "\<exists>kept. snd (fold (try_update (SaveMessage K A I (history_store dir key) p)) sched (d, [])) = kept \<and>
    subseq kept sched \<and> mset kept \<subseteq># mset new \<and>
    hs_stored K A (history_store dir key) p
      (fst (fold (try_update (SaveMessage K A I (history_store dir key) p)) sched (d, []))) = Some (ms @ kept)"
proof -
  have "\<forall>m \<in> set sched. msg_ok m" using assms(3,6) by (metis set_mset_mset)
  then show ?thesis
    using hd.attempts_stored [of K A dir key p d ms sched I "[]"] assms
      try_updates_subseq [of "SaveMessage K A I (history_store dir key) p" sched d "[]"] subseq_mset [of _ sched]
    by (auto simp: fold_append)
qed

definition demo_msg :: StoredMsg where
  "demo_msg = \<lparr>smID = ''1'', smFrom = ''A'', smFromName = ''ada'', smContent = ''hi'', smTimestamp = demo_time, smIsOwn = True\<rparr>"

lemma demo_msg_ok: "msg_ok demo_msg"
  by (simp add: msg_ok_def demo_msg_def demo_time_ok utf8_ok_ascii)

lemma demo_rand_ok: "rand_ok demo_os"
  by (simp add: rand_ok_def demo_os_def)

lemma SaveMessage_succeeds:
  assumes "\<And>n. os_ok I n" and "validatePeerID p" and "msg_ok m" and "hs_aead K (hstore dir key) p = Inr a"
    and "\<And>t n. os_rand I t n \<noteq> None" and "\<And>q. content d q = None"
  shows "snd (SaveMessage K A I (hstore dir key) p m d) = Inr ()"
proof -
  have "hs_stored K A (hstore dir key) p d = Some []" using assms(6) by (simp add: hs_stored_def)
  then have r: "hs_readFile K A I (hstore dir key) p d = (stepped d, Inr [])"
    using assms(1,2) by (intro hs_readFile_stored) auto
  obtain plain where pl: "marshal_msgs [m] = Some plain" using msgs_roundtrip [of "[m]"] assms(3) by auto
  obtain nonce where n: "os_rand I (io_step (stepped d)) nonceSize = Some nonce" using assms(5) by (meson not_None_eq)
  have "snd (replace_file I (hsDataDir (hstore dir key)) (p @ ''.tmp-'') [] (hs_filePath (hstore dir key) p)
      (nonce @ Seal A a nonce plain) (stepped (stepped d))) = Inr ()"
    using assms(1,6) by (intro replace_file_succeeds) auto
  then show ?thesis
    using assms(2,4) r pl n by (auto simp: SaveMessage_def hs_writeFile_def rand_Read_def split: prod.splits)
qed

theorem saved_messages_survive_witness:
  "hs_stored toy_kex plain_aead (history_store ''data'' ''k'') ''QmB''
     (fst (SaveMessage toy_kex plain_aead demo_os (history_store ''data'' ''k'') ''QmB'' demo_msg empty_disk))
   = Some [demo_msg]"
proof -
  let ?h = "history_store ''data'' ''k''"
  have s0: "hs_stored toy_kex plain_aead ?h ''QmB'' empty_disk = Some []" by (simp add: hs_stored_def)
  have "hs_aead toy_kex ?h ''QmB'' = Inr (replicate keySize (CHR ''k''))"
    by (simp add: hs_aead_def hs_deriveKey_def toy_kex_def)
  then have "snd (SaveMessage toy_kex plain_aead demo_os ?h ''QmB'' demo_msg empty_disk) = Inr ()"
    by (intro SaveMessage_succeeds)
      (auto simp: demo_msg_ok validatePeerID_def slash_def demo_os_def [THEN arg_cong [of _ _ os_rand]] sublist_Cons_right)
  then show ?thesis
    using saved_messages_survive [OF s0, of "[demo_msg]" demo_os "[demo_msg]"] plain_aead_correct demo_msg_ok demo_rand_ok
    by (auto simp: try_update_def split: prod.splits)
qed

text \<open>
  C16. A history file that cannot be decrypted or parsed is never overwritten: saving a message reports
  an error and leaves every file as it is.
\<close>

theorem corrupt_history_preserved:
  assumes "hs_stored K A (history_store dir key) p d = None"
  shows "isl (snd (SaveMessage K A I (history_store dir key) p m d)) \<and>
    content (fst (SaveMessage K A I (history_store dir key) p m d)) = content d"
proof (cases "SaveMessage K A I (history_store dir key) p m d")
  case (Pair d' r)
  then show ?thesis by (cases rule: SaveMessage_cases) (use assms Pair in auto)
qed

theorem corrupt_history_preserved_witness:
  "isl (snd (SaveMessage toy_kex plain_aead demo_os (history_store ''data'' ''k'') ''QmB'' demo_msg
     (set_file (hs_filePath (history_store ''data'' ''k'') ''QmB'') ''junk'' empty_disk)))"
proof -
  let ?h = "history_store ''data'' ''k''"
  have "hs_stored toy_kex plain_aead ?h ''QmB'' (set_file (hs_filePath ?h ''QmB'') ''junk'' empty_disk) = None"
    by (simp add: hs_stored_def decode_history_def hs_aead_def hs_deriveKey_def toy_kex_def nonceSize_def)
  then show ?thesis using corrupt_history_preserved by blast
qed

text \<open>
  C17. A peer identifier cannot leave the history directory or reach another conversation: an accepted
  identifier names a file directly in the directory, different identifiers name different files, and
  saving or clearing one history leaves every other as it is; a refused identifier changes no file.
\<close>

theorem histories_isolated:
  "(if validatePeerID p
    then hs_filePath (history_store dir key) p = hsDataDir (history_store dir key) @ ''/'' @ p @ ''.enc'' \<and> CHR ''/'' \<notin> set p
    else content (fst (SaveMessage K A I (history_store dir key) p m d)) = content d \<and>
         content (fst (ClearHistory I (history_store dir key) p d)) = content d) \<and>
   (q = p \<or> \<not> validatePeerID q \<or>
      content (fst (SaveMessage K A I (history_store dir key) p m d)) (hs_filePath (history_store dir key) q)
        = content d (hs_filePath (history_store dir key) q) \<and>
      content (fst (ClearHistory I (history_store dir key) p d)) (hs_filePath (history_store dir key) q)
        = content d (hs_filePath (history_store dir key) q))"
proof (intro conjI disjCI)
  let ?h = "history_store dir key"
  show "if validatePeerID p then hs_filePath ?h p = hsDataDir ?h @ ''/'' @ p @ ''.enc'' \<and> CHR ''/'' \<notin> set p
    else content (fst (SaveMessage K A I ?h p m d)) = content d \<and> content (fst (ClearHistory I ?h p d)) = content d"
    by (auto simp: history_path SaveMessage_def ClearHistory_def) (simp_all add: slash_def validatePeerID_def)
  assume "\<not> (\<not> validatePeerID q \<or>
      content (fst (SaveMessage K A I ?h p m d)) (hs_filePath ?h q) = content d (hs_filePath ?h q) \<and>
      content (fst (ClearHistory I ?h p d)) (hs_filePath ?h q) = content d (hs_filePath ?h q))"
  then have q: "validatePeerID q" by blast
  have "content (fst (SaveMessage K A I ?h p m d)) (hs_filePath ?h q) = content d (hs_filePath ?h q)" if "q \<noteq> p"
  proof (cases "SaveMessage K A I ?h p m d")
    case (Pair d' r)
    then show ?thesis
      by (cases rule: SaveMessage_cases) (use hs_writeFile_other q that Pair in auto)
  qed
  moreover have "content (fst (ClearHistory I ?h p d)) (hs_filePath ?h q) = content d (hs_filePath ?h q)" if "q \<noteq> p"
    using that q history_path_inj [of q p dir key]
    by (auto simp: ClearHistory_def Remove_def io_guard_def split: if_splits)
  ultimately show "q = p" using \<open>\<not> _\<close> by blast
qed

theorem histories_isolated_witness:
  "content (fst (SaveMessage toy_kex plain_aead demo_os (history_store ''data'' ''k'') ''QmB'' demo_msg
       (set_file (hs_filePath (history_store ''data'' ''k'') ''QmC'') ''x'' empty_disk)))
     (hs_filePath (history_store ''data'' ''k'') ''QmC'') = Some ''x''"
proof -
  have "validatePeerID ''QmC''" by (simp add: validatePeerID_def slash_def sublist_Cons_right)
  moreover have "''QmC'' \<noteq> ''QmB''" by simp
  ultimately have "content (fst (SaveMessage toy_kex plain_aead demo_os (history_store ''data'' ''k'') ''QmB'' demo_msg
       (set_file (hs_filePath (history_store ''data'' ''k'') ''QmC'') ''x'' empty_disk)))
     (hs_filePath (history_store ''data'' ''k'') ''QmC'') =
     content (set_file (hs_filePath (history_store ''data'' ''k'') ''QmC'') ''x'' empty_disk) (hs_filePath (history_store ''data'' ''k'') ''QmC'')"
    using histories_isolated [of "''QmB''" "''data''" "''k''" toy_kex plain_aead demo_os demo_msg
        "set_file (hs_filePath (history_store ''data'' ''k'') ''QmC'') ''x'' empty_disk" "''QmC''"] by blast
  then show ?thesis by simp
qed

section \<open>Loading every history\<close>

text \<open>The history \<open>LoadAllHistories\<close> returns for an identifier: a readable one that is not empty.\<close>

definition readable_history :: "kex_lib \<Rightarrow> aead_lib \<Rightarrow> HistoryStore \<Rightarrow> disk \<Rightarrow> string \<Rightarrow> StoredMsg list option" where
  "readable_history K A h d p =
     (if validatePeerID p then (case hs_stored K A h p d of Some ms \<Rightarrow> if ms = [] then None else Some ms | None \<Rightarrow> None)
      else None)"

lemma load_entry_enc:
  assumes "\<And>n. os_ok I n"
  shows "content (fst (load_entry K A I h (p @ ''.enc'', False) dm)) = content (fst dm)"
    and "mlookup (snd (load_entry K A I h (p @ ''.enc'', False) dm)) q =
      (case readable_history K A h (fst dm) p of
         Some ms \<Rightarrow> if q = p then Some ms else mlookup (snd dm) q | None \<Rightarrow> mlookup (snd dm) q)"
proof -
  have "HasSuffix (p @ ''.enc'') ''.enc''" "TrimSuffix (p @ ''.enc'') ''.enc'' = p"
    by (simp_all add: HasSuffix_def TrimSuffix_def suffix_def)
  then have e: "load_entry K A I h (p @ ''.enc'', False) dm =
      (case hs_readFile K A I h p (fst dm) of
         (d1, Inl _) \<Rightarrow> (d1, snd dm)
       | (d1, Inr msgs) \<Rightarrow> (d1, if 0 < length msgs then mput p msgs (snd dm) else snd dm))"
    by (simp add: load_entry_def Let_def del: length_greater_0_conv)
  show "content (fst (load_entry K A I h (p @ ''.enc'', False) dm)) = content (fst dm)"
    using hs_readFile_content [of K A I h p "fst dm"] by (auto simp: e split: prod.splits sum.splits)
  show "mlookup (snd (load_entry K A I h (p @ ''.enc'', False) dm)) q =
      (case readable_history K A h (fst dm) p of
         Some ms \<Rightarrow> if q = p then Some ms else mlookup (snd dm) q | None \<Rightarrow> mlookup (snd dm) q)"
  proof (cases "hs_readFile K A I h p (fst dm)")
    case (Pair d1 r)
    show ?thesis
    proof (cases r)
      case (Inr ms)
      then show ?thesis
        using Pair hs_readFile_ok [of K A I h p "fst dm" d1 ms] by (auto simp: e readable_history_def gomap_simps)
    next
      case (Inl x)
      then have "readable_history K A h (fst dm) p = None"
        using Pair hs_readFile_stored [of I "fst dm" p K A h] assms
        by (auto simp: readable_history_def split: option.splits)
      with Inl Pair show ?thesis by (simp add: e)
    qed
  qed
qed

lemma load_entry_skip:
  "snd e \<or> (\<forall>p. fst e \<noteq> p @ ''.enc'') \<Longrightarrow> load_entry K A I h e dm = dm"
  by (auto simp: load_entry_def HasSuffix_def suffix_def)

lemma readable_history_cong: "content d' = content d \<Longrightarrow> readable_history K A h d' p = readable_history K A h d p"
  by (simp add: readable_history_def hs_stored_def)

lemma load_entries:
  assumes "\<And>n. os_ok I n"
  shows "content (fst (fold (load_entry K A I h) es dm)) = content (fst dm) \<and>
    mlookup (snd (fold (load_entry K A I h) es dm)) q =
      (case readable_history K A h (fst dm) q of
         Some ms \<Rightarrow> if (q @ ''.enc'', False) \<in> set es then Some ms else mlookup (snd dm) q
       | None \<Rightarrow> mlookup (snd dm) q)"
proof (induction es arbitrary: dm)
  case (Cons e es)
  show ?case
  proof (cases "snd e \<or> (\<forall>p. fst e \<noteq> p @ ''.enc'')")
    case True
    then have "(q @ ''.enc'', False) \<noteq> e" by (cases e) auto
    with Cons [of dm] load_entry_skip [OF True, of K A I h dm] show ?thesis by (auto split: option.splits)
  next
    case False
    then obtain p where p: "e = (p @ ''.enc'', False)" by (cases e) auto
    let ?dm = "load_entry K A I h e dm"
    have c: "content (fst ?dm) = content (fst dm)" using load_entry_enc(1) [OF assms] p by simp
    show ?thesis
      using Cons [of ?dm] c readable_history_cong [OF c] load_entry_enc(2) [OF assms, of K A h p dm q] p
      by (auto split: option.splits)
  qed
qed (simp split: option.splits)

lemma ReadDir_files:
  assumes "os_ok I (io_step d)" and "dir \<in> set (dirs d)"
  shows "\<exists>es. ReadDir I dir d = (stepped d, Inr es) \<and>
    (\<forall>n. (n, False) \<in> set es \<longleftrightarrow> content d (dir @ slash # n) \<noteq> None \<and> n \<noteq> [] \<and> slash \<notin> set n)"
proof -
  have "(\<exists>p x. (p, x) \<in> set (files d) \<and> child_name dir p = Some n) \<longleftrightarrow>
      content d (dir @ slash # n) \<noteq> None \<and> n \<noteq> [] \<and> slash \<notin> set n" for n
  proof -
    have c: "child_name dir p = Some n \<longleftrightarrow> p = dir @ slash # n \<and> n \<noteq> [] \<and> slash \<notin> set n" for p
      by (auto simp: child_name_def prefix_def Let_def split: if_splits)
    have f: "content d p \<noteq> None \<longleftrightarrow> (\<exists>x. (p, x) \<in> set (files d))" for p
      using map_of_eq_None_iff [of "files d" p] by (force simp: content_def mlookup_def)
    show ?thesis unfolding c f by simp
  qed
  moreover have "(n, False) \<in> set (sort_key fst (map (\<lambda>n. (n, False)) (List.map_filter (\<lambda>(p, _). child_name dir p) (files d))
        @ map (\<lambda>n. (n, True)) (List.map_filter (child_name dir) (dirs d))))
      \<longleftrightarrow> (\<exists>p x. (p, x) \<in> set (files d) \<and> child_name dir p = Some n)" for n
    by (force simp: map_filter_def image_iff)
  moreover have "files (stepped d) = files d" "dirs (stepped d) = dirs d" by (simp_all add: stepped_def)
  ultimately show ?thesis using assms by (simp add: ReadDir_def io_guard_def)
qed

text \<open>
  C19. \<open>LoadAllHistories\<close> is complete and exact when no call fails: the map it returns gives every
  peer whose history is readable and not empty exactly that history, whatever other files (corrupt
  histories, left-over temporary files, files of invalid names) stand in the directory.
\<close>

theorem load_all_histories_exact:
  assumes "\<forall>n. os_ok I n" and "hsDataDir (history_store dir key) \<in> set (dirs d)"
  shows "\<exists>m. snd (LoadAllHistories K A I (history_store dir key) d) = Inr m \<and>
    (\<forall>p. mlookup m p = readable_history K A (history_store dir key) d p)"
proof -
  let ?h = "history_store dir key"
  obtain es where es: "ReadDir I (hsDataDir ?h) d = (stepped d, Inr es)"
      "\<And>n. (n, False) \<in> set es \<longleftrightarrow> content d (hsDataDir ?h @ slash # n) \<noteq> None \<and> n \<noteq> [] \<and> slash \<notin> set n"
    using ReadDir_files assms by blast
  have "mlookup (snd (fold (load_entry K A I ?h) es (stepped d, []))) p = readable_history K A ?h d p" for p
  proof -
    have "readable_history K A ?h d p = None" if "(p @ ''.enc'', False) \<notin> set es"
      using that es(2) [of "p @ ''.enc''"] history_name_plain [of p]
      by (auto simp: readable_history_def hs_stored_def history_path plain_name_def split: option.splits)
    then show ?thesis
      using load_entries [of I K A ?h es "(stepped d, [])" p] assms(1) readable_history_cong [of "stepped d" d]
      by (auto simp: gomap_simps split: option.splits)
  qed
  then show ?thesis using es(1) by (auto simp: LoadAllHistories_def split: prod.splits)
qed

theorem load_all_histories_exact_witness:
  "\<exists>m. snd (LoadAllHistories toy_kex plain_aead demo_os (history_store ''data'' ''k'')
     (empty_disk\<lparr>dirs := [hsDataDir (history_store ''data'' ''k'')]\<rparr>)) = Inr m \<and> mlookup m ''QmB'' = None"
  using load_all_histories_exact [of demo_os "''data''" "''k''" "empty_disk\<lparr>dirs := [hsDataDir (history_store ''data'' ''k'')]\<rparr>"
      toy_kex plain_aead]
  by (auto simp: readable_history_def hs_stored_def content_def empty_disk_def gomap_simps)

end
