(* ===== verification/Safety_Number.thy ===== *)
theory Safety_Number
  imports Stream_Manager
begin

text \<open>
  \<open>safetyNumber\<close> of \<open>verification.go\<close>: the fingerprint of the two identity keys that the users of
  a conversation compare. The libp2p peer store and its keys are parameters.
\<close>

record keystore =
  PubKey :: "pid \<Rightarrow> pubkey option"
  keyType :: "pubkey \<Rightarrow> u32"
  keyRaw :: "pubkey \<Rightarrow> bytes result"

record keyEntry =
  ke_id :: string
  ke_type :: u32
  ke_raw :: bytes

definition safetyNumberGroups :: nat where
  "safetyNumberGroups = 12"

definition safetyNumberDomain :: string where
  "safetyNumberDomain = ''agdas-safety-number-v1''"

text \<open>The bytes hashed for the seed: the domain, then for each entry type, length and key.\<close>

definition entry_bytes :: "keyEntry \<Rightarrow> bytes" where
  "entry_bytes e = be_put 4 (ke_type e) @ be_put 4 (word_of_nat (length (ke_raw e)) :: u32) @ ke_raw e"

definition seed_input :: "keyEntry list \<Rightarrow> bytes" where
  "seed_input es = safetyNumberDomain @ concat (map entry_bytes es)"

definition safety_group :: "bytes \<Rightarrow> nat \<Rightarrow> string" where
  "safety_group seed i =
     dec_pad5 (unat ((be_get (take 4 (Sum256 (seed @ [char_of (i mod 256)]))) :: u32) mod 100000))"

definition safety_text :: "keyEntry list \<Rightarrow> string" where
  "safety_text es = Join (map (safety_group (Sum256 (seed_input es))) [0..<safetyNumberGroups]) '' ''"

definition safetyNumber :: "env \<Rightarrow> keystore option \<Rightarrow> pid \<Rightarrow> pid \<Rightarrow> string + string" where
  "safetyNumber E store local remote =
     (case store of
        None \<Rightarrow> Inl ''peerstore is not available''
      | Some ks \<Rightarrow>
          (if local = remote then Inl ''cannot verify a peer against itself''
           else (case PubKey ks local of
              None \<Rightarrow> Inl ''local public key is not available''
            | Some localKey \<Rightarrow>
                (case PubKey ks remote of
                   None \<Rightarrow> Inl ''remote public key is not available''
                 | Some remoteKey \<Rightarrow>
                     (case keyRaw ks localKey of
                        Inl e \<Rightarrow> Inl (''local public key bytes: '' @ e)
                      | Inr localRaw \<Rightarrow>
                          (case keyRaw ks remoteKey of
                             Inl e \<Rightarrow> Inl (''remote public key bytes: '' @ e)
                           | Inr remoteRaw \<Rightarrow>
                               Inr (safety_text (sort_key ke_id
                                 [\<lparr>ke_id = peer_String E local, ke_type = keyType ks localKey, ke_raw = localRaw\<rparr>,
                                  \<lparr>ke_id = peer_String E remote, ke_type = keyType ks remoteKey, ke_raw = remoteRaw\<rparr>]))))))))"

section \<open>Format\<close>

lemma dec_pad5_digits:
  assumes "n < 100000"
  shows "length (dec_pad5 n) = 5" and "list_all is_digit (dec_pad5 n)"
proof -
  have "length (dec_nat n) \<le> 5" using dec_nat_length [of n 5] assms by simp
  then show "length (dec_pad5 n) = 5" by (simp add: dec_pad5_def Let_def)
  show "list_all is_digit (dec_pad5 n)"
    using dec_nat_digits [of n] by (auto simp: dec_pad5_def Let_def list_all_iff is_digit_def)
qed

lemma safety_group_digits: "length (safety_group seed i) = 5" "list_all is_digit (safety_group seed i)"
proof -
  have "unat ((w :: u32) mod 100000) < 100000" for w
    using word_less_nat_alt [of "w mod 100000" 100000] word_mod_less_divisor [of 100000 w] by simp
  then show "length (safety_group seed i) = 5" "list_all is_digit (safety_group seed i)"
    by (simp_all add: safety_group_def dec_pad5_digits)
qed

text \<open>
  C39. A safety number has the form the users compare: twelve groups of five decimal digits with
  single spaces between them.
\<close>

theorem safety_number_format:
  "case safetyNumber E store a b of
     Inl _ \<Rightarrow> True
   | Inr s \<Rightarrow> \<exists>groups. s = Join groups '' '' \<and> length groups = 12 \<and>
       list_all (\<lambda>g. length g = 5 \<and> list_all is_digit g) groups"
proof -
  have "\<exists>groups. safety_text es = Join groups '' '' \<and> length groups = 12 \<and>
      list_all (\<lambda>g. length g = 5 \<and> list_all is_digit g) groups" for es
    by (intro exI [of _ "map (safety_group (Sum256 (seed_input es))) [0..<safetyNumberGroups]"])
      (auto simp: safety_text_def safetyNumberGroups_def list_all_iff safety_group_digits
        intro: safety_group_digits(2) [unfolded list_all_iff, rule_format])
  then show ?thesis by (auto simp: safetyNumber_def split: option.splits sum.splits if_splits)
qed

section \<open>Symmetry\<close>

lemma sort_pair:
  "ke_id x \<noteq> ke_id y \<Longrightarrow> sort_key ke_id [x, y] = sort_key ke_id [y, x]"
  by (auto simp: sort_key_simps)

text \<open>
  C22. Both sides of a conversation see the same safety number: exchanging local and remote peer gives
  the same number, and an error on one side exactly when there is one on the other.
\<close>

theorem safety_number_symmetric:
  assumes "inj (peer_String E)"
  shows "isl (safetyNumber E store a b) = isl (safetyNumber E store b a) \<and>
    (isl (safetyNumber E store a b) \<or> safetyNumber E store a b = safetyNumber E store b a)"
proof (cases "a = b")
  case False
  then have "peer_String E a \<noteq> peer_String E b" using assms by (auto dest: injD)
  then have "sort_key ke_id [\<lparr>ke_id = peer_String E a, ke_type = t, ke_raw = r\<rparr>, \<lparr>ke_id = peer_String E b, ke_type = t', ke_raw = r'\<rparr>]
    = sort_key ke_id [\<lparr>ke_id = peer_String E b, ke_type = t', ke_raw = r'\<rparr>, \<lparr>ke_id = peer_String E a, ke_type = t, ke_raw = r\<rparr>]"
    for t r t' r' by (intro sort_pair) simp
  then show ?thesis
    using False by (auto simp: safetyNumber_def simp del: sort_key_simps split: option.splits sum.splits)
qed simp

section \<open>Binding\<close>

lemma entry_bytes_inj:
  assumes "entry_bytes e @ u = entry_bytes f @ v" and "length (ke_raw e) < 2 ^ 32" and "length (ke_raw f) < 2 ^ 32"
  shows "ke_type e = ke_type f \<and> ke_raw e = ke_raw f \<and> u = v"
proof -
  have t: "be_put 4 (ke_type e) = be_put 4 (ke_type f)"
    and l: "be_put 4 (word_of_nat (length (ke_raw e)) :: u32) = be_put 4 (word_of_nat (length (ke_raw f)) :: u32)"
    and r: "ke_raw e @ u = ke_raw f @ v"
    using assms(1) by (simp_all add: entry_bytes_def)
  have "(word_of_nat (length (ke_raw e)) :: u32) = word_of_nat (length (ke_raw f))" using l by (rule be_put_4_inj)
  then have "unat (word_of_nat (length (ke_raw e)) :: u32) = unat (word_of_nat (length (ke_raw f)) :: u32)" by simp
  then have "length (ke_raw e) = length (ke_raw f)"
    using assms(2,3) by (simp add: unsigned_of_nat take_bit_nat_eq_self)
  with r t show ?thesis by (auto dest: be_put_4_inj)
qed

text \<open>
  C23. The safety number is bound to both keys: the hashed text determines the types and the bytes of
  both keys, so two different pairs of keys never feed the hash the same bytes.
\<close>

theorem safety_seed_injective:
  assumes "seed_input es = seed_input fs" and "length es = length fs"
    and "\<forall>e \<in> set es \<union> set fs. length (ke_raw e) < 2 ^ 32"
  shows "map (\<lambda>e. (ke_type e, ke_raw e)) es = map (\<lambda>e. (ke_type e, ke_raw e)) fs"
proof -
  have "concat (map entry_bytes es) = concat (map entry_bytes fs)" using assms(1) by (simp add: seed_input_def)
  then show ?thesis
    using assms(2,3)
  proof (induction es arbitrary: fs)
    case (Cons e es)
    then obtain f fs' where f: "fs = f # fs'" by (cases fs) auto
    then have "ke_type e = ke_type f \<and> ke_raw e = ke_raw f \<and> concat (map entry_bytes es) = concat (map entry_bytes fs')"
      using Cons.prems by (intro entry_bytes_inj) auto
    with Cons f show ?case by auto
  qed simp
qed

section \<open>Worked examples\<close>

definition demo_keys :: keystore where
  "demo_keys = \<lparr>PubKey = (\<lambda>p. Some p), keyType = (\<lambda>k. 1), keyRaw = Inr\<rparr>"

theorem safety_number_symmetric_witness:
  "safetyNumber demo_env (Some demo_keys) ''A'' ''B'' = safetyNumber demo_env (Some demo_keys) ''B'' ''A'' \<and>
   \<not> isl (safetyNumber demo_env (Some demo_keys) ''A'' ''B'')"
proof -
  have i: "inj (peer_String demo_env)" by (simp add: demo_env_def inj_def)
  have "\<not> isl (safetyNumber demo_env (Some demo_keys) ''A'' ''B'')"
    by (simp add: safetyNumber_def demo_keys_def)
  with safety_number_symmetric [OF i, of "Some demo_keys" "''A''" "''B''"] show ?thesis by blast
qed

theorem safety_seed_injective_witness:
  "seed_input [\<lparr>ke_id = ''A'', ke_type = 1, ke_raw = ''ab''\<rparr>] \<noteq> seed_input [\<lparr>ke_id = ''A'', ke_type = 1, ke_raw = ''ac''\<rparr>]"
  using safety_seed_injective [of "[\<lparr>ke_id = ''A'', ke_type = 1, ke_raw = ''ab''\<rparr>]" "[\<lparr>ke_id = ''A'', ke_type = 1, ke_raw = ''ac''\<rparr>]"]
  by auto

end
