(* ===== verification/Discovery.thy ===== *)
theory Discovery
  imports Stream_Manager
begin

text \<open>
  The \<open>discovery\<close> package: bootstrapping the DHT, the filter of discovered peers, the lookup of one
  peer, and the loop with which a caller collects peers until a timeout. The Kademlia DHT and the
  libp2p host are code outside the repository: the record \<open>dht_lib\<close> says what they answer (for each
  bootstrap peer the same, whenever it is asked). The goroutines of \<open>Bootstrap\<close> take their atomic steps
  under a schedule. The event
  list of \<open>FindPeers\<close> ends where the search, its context or the timeout of the caller ends; the line
  that announces a search is left out.
\<close>

record AddrInfo =
  ai_ID :: pid
  ai_Addrs :: "string list"

record DiscoveredPeer =
  dp_PeerID :: pid
  dp_Addrs :: "string list"

text \<open>What a search channel delivers: peers, until it is closed (the list ends) or the context is done.\<close>

datatype search_event = Found AddrInfo | SearchDone

record dht_lib =
  dht_Bootstrap :: "string option"
  AddrInfoFromString :: "string \<Rightarrow> string + AddrInfo"
  host_Connect :: "AddrInfo \<Rightarrow> bool"
  host_ID :: pid
  FindPeers :: "string \<Rightarrow> string + search_event list"
  dht_FindPeer :: "pid \<Rightarrow> string + AddrInfo"
  AddrInfoToP2pAddrs :: "AddrInfo \<Rightarrow> string + string list"

definition DefaultNamespace :: string where
  "DefaultNamespace = ''p2p-chat/etu''"

definition DefaultBootstrapPeers :: "string list" where
  "DefaultBootstrapPeers =
     [''/dnsaddr/bootstrap.libp2p.io/p2p/QmNnooDu7bfjPFoTZYxMNLWUQJyrVwtbZg5gBMjTezGAJN'',
      ''/dnsaddr/bootstrap.libp2p.io/p2p/QmQCU2EcMqAqQPR2i9bChDtGNJchTbq5TbXJJ16u19uLTa'',
      ''/dnsaddr/bootstrap.libp2p.io/p2p/QmbLHAnMoJPWSCR5Zhtx6BHJX9KiKNN6tpvbUcqanj75Nb'',
      ''/dnsaddr/bootstrap.libp2p.io/p2p/QmcZf59bWwK5XFi76CZX8cbJ4BhTzzA3gU1ZjYZcYW3dwt'',
      ''/ip4/104.131.131.82/tcp/4001/p2p/QmaCpDMGvV2BGHeYERUEnRQAwe3N8SzbUtfsmvsqQLuvuJ'',
      ''/ip4/104.131.131.82/udp/4001/quic/p2p/QmaCpDMGvV2BGHeYERUEnRQAwe3N8SzbUtfsmvsqQLuvuJ'']"

section \<open>Bootstrapping\<close>

text \<open>
  A goroutine of \<open>Bootstrap\<close> between its atomic steps: dialling, waiting for the mutex, reading and
  writing the shared counter, releasing the mutex, printing its success.
\<close>

datatype boot_pc =
  Dialing | Locking string | Reading string | Writing string nat | Unlocking string | Reporting string | Finished

text \<open>The shared state: the goroutines with their addresses, the addresses the loop has not started yet.\<close>

record boot =
  bt_lines :: "string list"
  successCount :: nat
  bt_mu :: bool
  bt_procs :: "(string \<times> boot_pc) list"
  bt_todo :: "string list"

definition goes_to :: "nat \<Rightarrow> boot_pc \<Rightarrow> boot \<Rightarrow> boot" where
  "goes_to i pc b = b\<lparr>bt_procs := (bt_procs b)[i := (fst (bt_procs b ! i), pc)]\<rparr>"

definition prints :: "string \<Rightarrow> boot \<Rightarrow> boot" where
  "prints l b = b\<lparr>bt_lines := bt_lines b @ [l]\<rparr>"

definition boot_dial :: "env \<Rightarrow> dht_lib \<Rightarrow> nat \<Rightarrow> string \<Rightarrow> boot \<Rightarrow> boot" where
  "boot_dial E D i addr b =
     (case AddrInfoFromString D addr of
        Inl err \<Rightarrow> goes_to i Finished (prints (''Invalid bootstrap address: '' @ err) b)
      | Inr info \<Rightarrow>
          (let short = last8 (peer_String E (ai_ID info)) in
           if \<not> host_Connect D info
           then goes_to i Finished (prints (''Failed to connect to bootstrap peer: '' @ short) b)
           else goes_to i (Locking short) b))"

text \<open>One step of goroutine \<open>i\<close>; one that waits for the mutex stays where it is while it is held.\<close>

definition boot_goroutine :: "env \<Rightarrow> dht_lib \<Rightarrow> nat \<Rightarrow> boot \<Rightarrow> boot" where
  "boot_goroutine E D i b =
     (case snd (bt_procs b ! i) of
        Dialing \<Rightarrow> boot_dial E D i (fst (bt_procs b ! i)) b
      | Locking short \<Rightarrow> if bt_mu b then b else goes_to i (Reading short) (b\<lparr>bt_mu := True\<rparr>)
      | Reading short \<Rightarrow> goes_to i (Writing short (successCount b)) b
      | Writing short n \<Rightarrow> goes_to i (Unlocking short) (b\<lparr>successCount := n + 1\<rparr>)
      | Unlocking short \<Rightarrow> goes_to i (Reporting short) (b\<lparr>bt_mu := False\<rparr>)
      | Reporting short \<Rightarrow> goes_to i Finished (prints (''Successfully connected to bootstrap peer: '' @ short) b)
      | Finished \<Rightarrow> b)"

text \<open>The scheduler picks 0, the loop that starts the goroutines, or \<open>Suc i\<close>, goroutine \<open>i\<close>.\<close>

fun boot_step :: "env \<Rightarrow> dht_lib \<Rightarrow> nat \<Rightarrow> boot \<Rightarrow> boot" where
  "boot_step E D 0 b =
     (case bt_todo b of [] \<Rightarrow> b | a # as \<Rightarrow> b\<lparr>bt_todo := as, bt_procs := bt_procs b @ [(a, Dialing)]\<rparr>)"
| "boot_step E D (Suc i) b = (if i < length (bt_procs b) then boot_goroutine E D i b else b)"

definition boot_init :: boot where
  "boot_init = \<lparr>bt_lines = [''Bootstrapping DHT...''], successCount = 0, bt_mu = False, bt_procs = [], bt_todo = DefaultBootstrapPeers\<rparr>"

text \<open>The wait group is down to zero when all goroutines were started and have finished.\<close>

definition boot_waited :: "boot \<Rightarrow> bool" where
  "boot_waited b \<longleftrightarrow> bt_todo b = [] \<and> (\<forall>x \<in> set (bt_procs b). snd x = Finished)"

text \<open>
  \<open>Bootstrap\<close> under a schedule of its goroutines: the lines printed and, when it has returned, its error
  (\<open>Some None\<close>: it returned nil).
\<close>

definition Bootstrap :: "env \<Rightarrow> dht_lib \<Rightarrow> nat list \<Rightarrow> string list \<times> string option option" where
  "Bootstrap E D sched =
     (case dht_Bootstrap D of
        Some err \<Rightarrow> ([''Bootstrapping DHT...''], Some (Some (''failed to bootstrap DHT: '' @ err)))
      | None \<Rightarrow>
          (let b = fold (boot_step E D) sched boot_init in
           if \<not> boot_waited b then (bt_lines b, None)
           else if successCount b = 0 then (bt_lines b, Some (Some ''failed to connect to any bootstrap peers''))
           else (bt_lines b @ [''Successfully connected to '' @ dec_nat (successCount b) @ '' out of ''
                   @ dec_nat (length DefaultBootstrapPeers) @ '' bootstrap peers.''], Some None)))"

section \<open>Discovering peers\<close>

text \<open>The goroutine of \<open>DiscoverPeers\<close> between the channel of the DHT and the channel of the caller.\<close>

fun discover_loop :: "pid \<Rightarrow> search_event list \<Rightarrow> DiscoveredPeer list" where
  "discover_loop self [] = []"
| "discover_loop self (SearchDone # es) = []"
| "discover_loop self (Found info # es) =
     (if ai_ID info = self then discover_loop self es
      else if ai_Addrs info = [] then discover_loop self es
      else \<lparr>dp_PeerID = ai_ID info, dp_Addrs = ai_Addrs info\<rparr> # discover_loop self es)"

definition DiscoverPeers :: "dht_lib \<Rightarrow> string \<Rightarrow> string + DiscoveredPeer list" where
  "DiscoverPeers D namespace =
     (case FindPeers D namespace of
        Inl err \<Rightarrow> Inl (''failed to find peers: '' @ err)
      | Inr es \<Rightarrow> Inr (discover_loop (host_ID D) es))"

definition FindPeer :: "dht_lib \<Rightarrow> pid \<Rightarrow> string + AddrInfo" where
  "FindPeer D p = (case dht_FindPeer D p of Inl err \<Rightarrow> Inl (''failed to find peer: '' @ err) | Inr i \<Rightarrow> Inr i)"

definition peer_address :: "env \<Rightarrow> DiscoveredPeer \<Rightarrow> string" where
  "peer_address E p = hd (dp_Addrs p) @ ''/p2p/'' @ peer_String E (dp_PeerID p)"

section \<open>Advertising and closing\<close>

text \<open>The calls of the DHT library and its context that the service makes.\<close>

datatype dht_call = AdvertiseCall string | CancelContext | CloseDHT

text \<open>The calls made and the lines printed.\<close>

definition Advertise :: "string \<Rightarrow> dht_call list \<times> string list" where
  "Advertise namespace = ([AdvertiseCall namespace], [''Advertised on namespace: '' @ [CHR 0x27] @ namespace @ [CHR 0x27]])"

fun advertise_loop :: "string \<Rightarrow> loop_event list \<Rightarrow> dht_call list \<times> string list" where
  "advertise_loop namespace [] = ([], [])"
| "advertise_loop namespace (TickerFired # evs) =
     (let (cs, ls) = Advertise namespace; (cs', ls') = advertise_loop namespace evs in (cs @ cs', ls @ ls'))"
| "advertise_loop namespace (ContextDone # evs) = ([], [])"

definition AdvertiseContinuously :: "string \<Rightarrow> loop_event list \<Rightarrow> dht_call list \<times> string list" where
  "AdvertiseContinuously namespace evs =
     (let (cs, ls) = Advertise namespace; (cs', ls') = advertise_loop namespace evs in (cs @ cs', ls @ ls'))"

text \<open>\<open>Close\<close>, with the answer of the library.\<close>

definition Close :: "string option \<Rightarrow> dht_call list \<times> string option" where
  "Close err = ([CancelContext, CloseDHT], err)"

lemma advertise_until_cancelled:
  "fst (AdvertiseContinuously namespace evs) =
     replicate (Suc (length (takeWhile (\<lambda>ev. ev = TickerFired) evs))) (AdvertiseCall namespace)"
proof -
  have "fst (advertise_loop namespace evs) =
      replicate (length (takeWhile (\<lambda>ev. ev = TickerFired) evs)) (AdvertiseCall namespace)"
    by (induction namespace evs rule: advertise_loop.induct) (simp_all add: Advertise_def split_def Let_def)
  then show ?thesis by (simp add: AdvertiseContinuously_def Advertise_def split_def Let_def)
qed

section \<open>Properties\<close>

text \<open>A bootstrap address under which a peer can be reached.\<close>

definition reachable_addr :: "dht_lib \<Rightarrow> string \<Rightarrow> bool" where
  "reachable_addr D a \<longleftrightarrow> (\<exists>info. AddrInfoFromString D a = Inr info \<and> host_Connect D info)"

text \<open>Which goroutines have counted, which hold the mutex, and how many steps one still has.\<close>

fun has_counted :: "dht_lib \<Rightarrow> string \<times> boot_pc \<Rightarrow> nat" where
  "has_counted D (a, Unlocking s) = 1"
| "has_counted D (a, Reporting s) = 1"
| "has_counted D (a, Finished) = (if reachable_addr D a then 1 else 0)"
| "has_counted D (a, _) = 0"

fun holds_mu :: "string \<times> boot_pc \<Rightarrow> nat" where
  "holds_mu (a, Reading s) = 1"
| "holds_mu (a, Writing s n) = 1"
| "holds_mu (a, Unlocking s) = 1"
| "holds_mu (a, _) = 0"

fun steps_left :: "string \<times> boot_pc \<Rightarrow> nat" where
  "steps_left (a, Dialing) = 6"
| "steps_left (a, Locking s) = 5"
| "steps_left (a, Reading s) = 4"
| "steps_left (a, Writing s n) = 3"
| "steps_left (a, Unlocking s) = 2"
| "steps_left (a, Reporting s) = 1"
| "steps_left (a, Finished) = 0"

fun pc_ok :: "dht_lib \<Rightarrow> nat \<Rightarrow> string \<times> boot_pc \<Rightarrow> bool" where
  "pc_ok D n (a, Dialing) = True"
| "pc_ok D n (a, Finished) = True"
| "pc_ok D n (a, Writing s m) = (reachable_addr D a \<and> m = n)"
| "pc_ok D n (a, _) = reachable_addr D a"

definition boot_ok :: "dht_lib \<Rightarrow> boot \<Rightarrow> bool" where
  "boot_ok D b \<longleftrightarrow>
     map fst (bt_procs b) @ bt_todo b = DefaultBootstrapPeers \<and>
     successCount b = sum_list (map (has_counted D) (bt_procs b)) \<and>
     sum_list (map holds_mu (bt_procs b)) = (if bt_mu b then 1 else 0) \<and>
     (\<forall>x \<in> set (bt_procs b). pc_ok D (successCount b) x)"

definition boot_left :: "boot \<Rightarrow> nat" where
  "boot_left b = sum_list (map steps_left (bt_procs b)) + 7 * length (bt_todo b)"

lemma sum_map_update:
  "i < length xs \<Longrightarrow> sum_list (map f (xs[i := y])) + f (xs ! i) = sum_list (map f xs) + (f y :: nat)"
proof (induction xs arbitrary: i)
  case (Cons x xs)
  then show ?case by (cases i) simp_all
qed simp

text \<open>While one goroutine holds the mutex, no other one is at the counter.\<close>

lemma one_holder:
  assumes "sum_list (map holds_mu xs) = 1" and "i < length xs" "j < length xs" and "holds_mu (xs ! i) = 1" "holds_mu (xs ! j) = 1"
  shows "i = j"
proof (rule ccontr)
  assume ne: "i \<noteq> j"
  let ?ys = "xs[i := ([], Finished)]"
  have 1: "sum_list (map holds_mu ?ys) = 0" using sum_map_update [OF assms(2), of holds_mu "([], Finished)"] assms(1,4) by simp
  have "holds_mu (?ys ! j) = map holds_mu ?ys ! j" using assms(3) by (simp add: nth_map)
  then have "holds_mu (?ys ! j) = 0" using 1 elem_le_sum_list [of j "map holds_mu ?ys"] assms(3) by simp
  then show False using ne assms(5) by simp
qed

lemma goes_to_fields [simp]:
  "bt_lines (goes_to i pc b) = bt_lines b" "successCount (goes_to i pc b) = successCount b" "bt_mu (goes_to i pc b) = bt_mu b"
  "bt_todo (goes_to i pc b) = bt_todo b" "bt_procs (goes_to i pc b) = (bt_procs b)[i := (fst (bt_procs b ! i), pc)]"
  "successCount (prints l b) = successCount b" "bt_mu (prints l b) = bt_mu b"
  "bt_todo (prints l b) = bt_todo b" "bt_procs (prints l b) = bt_procs b"
  by (simp_all add: goes_to_def prints_def)

text \<open>What a goroutine's move does to the invariant, given what it does to the counter and the mutex.\<close>

lemma boot_pc_ok: "boot_ok D b \<Longrightarrow> x \<in> set (bt_procs b) \<Longrightarrow> pc_ok D (successCount b) x"
  unfolding boot_ok_def by blast

lemma boot_move_ok:
  assumes ok: "boot_ok D b" and i: "i < length (bt_procs b)" "bt_procs b ! i = (a, pc)"
    and b': "bt_procs b' = (bt_procs b)[i := (a, pc')]" "bt_todo b' = bt_todo b"
    and n: "successCount b' + has_counted D (a, pc) = successCount b + has_counted D (a, pc')"
    and m: "(if bt_mu b' then 1 else 0) + holds_mu (a, pc) = (if bt_mu b then 1 else 0) + holds_mu (a, pc')"
    and pc': "pc_ok D (successCount b') (a, pc')"
    and other: "successCount b' \<noteq> successCount b \<Longrightarrow> holds_mu (a, pc) = 1"
  shows "boot_ok D b'"
proof -
  have "map fst (bt_procs b') = map fst (bt_procs b)" using i b'(1) by (simp add: map_update) (metis fst_conv list_update_id nth_map)
  moreover have "pc_ok D (successCount b') x" if mem: "x \<in> set (bt_procs b')" for x
  proof -
    have len: "length (bt_procs b') = length (bt_procs b)" by (simp add: b'(1))
    obtain j where j: "j < length (bt_procs b)" "x = bt_procs b' ! j"
      using mem [unfolded in_set_conv_nth] unfolding len by blast
    show ?thesis
    proof (cases "j = i")
      case True
      then show ?thesis using pc' j b'(1) by simp
    next
      case False
      then have x: "x = bt_procs b ! j" using j b'(1) by simp
      then have p: "pc_ok D (successCount b) x" using boot_pc_ok [OF ok] j(1) by simp
      show ?thesis
      proof (cases "successCount b' = successCount b")
        case changed: False
        have "sum_list (map holds_mu (bt_procs b)) \<noteq> 0"
          using other [OF changed] i elem_le_sum_list [of i "map holds_mu (bt_procs b)"] by (simp del: sum_list_eq_0_iff)
        then have "sum_list (map holds_mu (bt_procs b)) = 1" using ok by (simp add: boot_ok_def split: if_splits)
        then have "holds_mu x \<noteq> 1" using one_holder [OF _ j(1) i(1)] False x other [OF changed] i(2) by metis
        then show ?thesis using p by (cases x rule: holds_mu.cases) simp_all
      qed (use p in simp)
    qed
  qed
  moreover have "sum_list (map (has_counted D) (bt_procs b')) + has_counted D (a, pc)
      = sum_list (map (has_counted D) (bt_procs b)) + has_counted D (a, pc')"
    "sum_list (map holds_mu (bt_procs b')) + holds_mu (a, pc) = sum_list (map holds_mu (bt_procs b)) + holds_mu (a, pc')"
    using sum_map_update [OF i(1), of "has_counted D" "(a, pc')"] sum_map_update [OF i(1), of holds_mu "(a, pc')"] i(2) b'(1)
    by simp_all
  ultimately show ?thesis using ok n m b'(2) by (simp add: boot_ok_def)
qed

lemma boot_goroutine_ok:
  assumes "boot_ok D b" and "i < length (bt_procs b)"
  shows "boot_ok D (boot_goroutine E D i b)"
proof -
  obtain a pc where x: "bt_procs b ! i = (a, pc)" by fastforce
  have "pc_ok D (successCount b) (a, pc)" using boot_pc_ok [OF assms(1) nth_mem [OF assms(2)]] x by simp
  moreover have "bt_mu b" if "holds_mu (a, pc) = 1"
    using assms x that elem_le_sum_list [of i "map holds_mu (bt_procs b)"] by (auto simp: boot_ok_def split: if_splits)
  ultimately show ?thesis
    using assms(1)
    by (cases pc; simp add: boot_goroutine_def boot_dial_def x Let_def split: sum.split)
      (auto simp: reachable_addr_def x intro!: boot_move_ok [OF assms x])
qed

lemma boot_step_ok: "boot_ok D b \<Longrightarrow> boot_ok D (boot_step E D j b)"
proof (cases j)
  case 0
  then show "boot_ok D b \<Longrightarrow> boot_ok D (boot_step E D j b)" by (auto simp: boot_ok_def split: list.split)
next
  case (Suc i)
  then show "boot_ok D b \<Longrightarrow> boot_ok D (boot_step E D j b)" by (simp add: boot_goroutine_ok)
qed

lemma boot_run_ok: "boot_ok D b \<Longrightarrow> boot_ok D (fold (boot_step E D) sched b)"
  by (induction sched arbitrary: b) (simp_all add: boot_step_ok)

lemma boot_init_ok: "boot_ok D boot_init"
  by (simp add: boot_ok_def boot_init_def)

text \<open>Whoever the scheduler picks, some goroutine can always go on until all have finished.\<close>

lemma boot_goroutine_left:
  assumes "i < length (bt_procs b)" and "snd (bt_procs b ! i) \<noteq> Finished"
    and "bt_mu b \<Longrightarrow> holds_mu (bt_procs b ! i) = 1"
  shows "boot_left (boot_goroutine E D i b) < boot_left b"
proof -
  obtain a pc where x: "bt_procs b ! i = (a, pc)" by fastforce
  have less: "boot_left b' < boot_left b"
    if "bt_procs b' = (bt_procs b)[i := (a, pc')]" "bt_todo b' = bt_todo b" "steps_left (a, pc') < steps_left (a, pc)" for b' pc'
    using sum_map_update [OF assms(1), of steps_left "(a, pc')"] x that by (simp add: boot_left_def)
  show ?thesis
    using assms(2,3)
    by (cases pc; simp add: boot_goroutine_def boot_dial_def x Let_def split: sum.split)
      (auto simp: x intro!: less)
qed

lemma boot_progress:
  assumes ok: "boot_ok D b" and "\<not> boot_waited b"
  shows "\<exists>j. boot_left (boot_step E D j b) < boot_left b"
proof (cases "bt_todo b")
  case (Cons a as)
  then have "boot_left (boot_step E D 0 b) < boot_left b" by (simp add: boot_left_def)
  then show ?thesis ..
next
  case Nil
  then obtain i where i: "i < length (bt_procs b)" "snd (bt_procs b ! i) \<noteq> Finished"
    using assms(2) unfolding boot_waited_def by (metis in_set_conv_nth)
  have "\<exists>i < length (bt_procs b). snd (bt_procs b ! i) \<noteq> Finished \<and> (bt_mu b \<longrightarrow> holds_mu (bt_procs b ! i) = 1)"
  proof (cases "bt_mu b")
    case True
    then have "sum_list (map holds_mu (bt_procs b)) \<noteq> 0" using ok by (simp add: boot_ok_def)
    then obtain x where x: "x \<in> set (bt_procs b)" "holds_mu x \<noteq> 0" by auto
    then have "holds_mu x = 1 \<and> snd x \<noteq> Finished" by (cases x rule: holds_mu.cases) simp_all
    then show ?thesis using x(1) by (metis in_set_conv_nth)
  qed (use i in blast)
  then obtain k where "k < length (bt_procs b)" "boot_left (boot_goroutine E D k b) < boot_left b"
    using boot_goroutine_left by blast
  then show ?thesis by (intro exI [of _ "Suc k"]) simp
qed

lemma boot_finishes: "boot_ok D b \<Longrightarrow> \<exists>more. boot_waited (fold (boot_step E D) more b)"
proof (induction "boot_left b" arbitrary: b rule: less_induct)
  case less
  show ?case
  proof (cases "boot_waited b")
    case True
    then show ?thesis by (intro exI [of _ "[]"]) simp
  next
    case False
    then obtain j where "boot_left (boot_step E D j b) < boot_left b" using boot_progress [OF less.prems] by blast
    then obtain more where "boot_waited (fold (boot_step E D) more (boot_step E D j b))"
      using less.hyps boot_step_ok [OF less.prems] by blast
    then show ?thesis by (intro exI [of _ "j # more"]) simp
  qed
qed

lemma Bootstrap_returns: "\<exists>sched. snd (Bootstrap E D sched) \<noteq> None"
proof -
  obtain sched where "boot_waited (fold (boot_step E D) sched boot_init)" using boot_finishes [OF boot_init_ok] by blast
  then show ?thesis by (intro exI [of _ sched]) (simp add: Bootstrap_def Let_def split: option.split)
qed

text \<open>When all have finished, the counter is the number of addresses that can be reached.\<close>

lemma boot_counted:
  assumes "boot_ok D b" and "boot_waited b"
  shows "successCount b = length (filter (reachable_addr D) DefaultBootstrapPeers)"
proof -
  have "sum_list (map (has_counted D) xs) = length (filter (reachable_addr D) (map fst xs))"
    if "\<forall>x \<in> set xs. snd x = Finished" for xs
    using that by (induction xs) (auto split: prod.splits)
  from this [of "bt_procs b"] have "successCount b = length (filter (reachable_addr D) (map fst (bt_procs b)))"
    using assms unfolding boot_ok_def boot_waited_def by metis
  moreover have "map fst (bt_procs b) = DefaultBootstrapPeers" using assms by (simp add: boot_ok_def boot_waited_def)
  ultimately show ?thesis by simp
qed

text \<open>
  C40. Bootstrapping under every schedule of its concurrent attempts: if \<open>Bootstrap\<close> returns, it
  returns nil exactly when the DHT starts and at least one bootstrap peer can be reached, and it has
  then printed the exact number of addresses under which a peer was reached (no increment of the shared counter is
  lost); and whatever the goroutines did so far, they can always go on until it returns (no deadlock).
\<close>

theorem bootstrap_counts_reached:
  "(\<forall>r. snd (Bootstrap E D sched) = Some r \<longrightarrow>
      (r = None \<longleftrightarrow> dht_Bootstrap D = None \<and> (\<exists>a \<in> set DefaultBootstrapPeers. reachable_addr D a)) \<and>
      (r = None \<longrightarrow> last (fst (Bootstrap E D sched)) =
         ''Successfully connected to '' @ dec_nat (length (filter (reachable_addr D) DefaultBootstrapPeers)) @ '' out of ''
           @ dec_nat 6 @ '' bootstrap peers.'')) \<and>
   (\<exists>more. snd (Bootstrap E D (sched @ more)) \<noteq> None)"
proof (cases "dht_Bootstrap D")
  case (Some err)
  then show ?thesis by (simp add: Bootstrap_def)
next
  case None
  let ?b = "fold (boot_step E D) sched boot_init"
  have ok: "boot_ok D ?b" by (rule boot_run_ok [OF boot_init_ok])
  obtain more where "boot_waited (fold (boot_step E D) more ?b)" using boot_finishes [OF ok] by blast
  then have "snd (Bootstrap E D (sched @ more)) \<noteq> None" using None by (simp add: Bootstrap_def Let_def)
  moreover have six: "length DefaultBootstrapPeers = 6" by (simp add: DefaultBootstrapPeers_def)
  ultimately show ?thesis
    using None boot_counted [OF ok]
    by (auto simp: Bootstrap_def Let_def filter_empty_conv simp del: set_simps split: if_splits)
qed

text \<open>
  Discovery never offers the local peer or a peer without addresses; until the search is stopped
  it passes on every other peer found, in the order found.
\<close>

theorem discovered_peers_usable:
  "map (\<lambda>p. (dp_PeerID p, dp_Addrs p)) (discover_loop self es) =
     filter (\<lambda>(p, as). p \<noteq> self \<and> as \<noteq> [])
       (map (\<lambda>e. case e of Found i \<Rightarrow> (ai_ID i, ai_Addrs i) | SearchDone \<Rightarrow> (self, []))
         (takeWhile (\<lambda>e. e \<noteq> SearchDone) es))"
  by (induction self es rule: discover_loop.induct) auto

definition demo_dht :: dht_lib where
  "demo_dht = \<lparr>dht_Bootstrap = None, AddrInfoFromString = (\<lambda>a. Inr \<lparr>ai_ID = a, ai_Addrs = [a]\<rparr>),
     host_Connect = (\<lambda>i. True), host_ID = ''A'', FindPeers = (\<lambda>n. Inr [Found \<lparr>ai_ID = ''B'', ai_Addrs = [''/ip4/1'']\<rparr>]),
     dht_FindPeer = (\<lambda>p. Inr \<lparr>ai_ID = p, ai_Addrs = [''/ip4/1'']\<rparr>), AddrInfoToP2pAddrs = (\<lambda>i. Inr (ai_Addrs i))\<rparr>"

theorem bootstrap_counts_reached_witness:
  "\<exists>sched. snd (Bootstrap demo_env demo_dht ([0, 0, 2, 1, 1, 2] @ sched)) = Some None \<and>
     last (fst (Bootstrap demo_env demo_dht ([0, 0, 2, 1, 1, 2] @ sched))) = ''Successfully connected to 6 out of 6 bootstrap peers.''"
proof -
  note b = bootstrap_counts_reached [of demo_env demo_dht]
  obtain sched r where s: "snd (Bootstrap demo_env demo_dht ([0, 0, 2, 1, 1, 2] @ sched)) = Some r"
    using conjunct2 [OF b [of "[0, 0, 2, 1, 1, 2]"]] by blast
  have reach: "reachable_addr demo_dht a" for a by (simp add: reachable_addr_def demo_dht_def)
  have d: "dht_Bootstrap demo_dht = None" by (simp add: demo_dht_def)
  have "hd DefaultBootstrapPeers \<in> set DefaultBootstrapPeers" by (rule hd_in_set) (simp add: DefaultBootstrapPeers_def)
  moreover have "filter (reachable_addr demo_dht) DefaultBootstrapPeers = DefaultBootstrapPeers" by (simp add: reach)
  moreover have "length DefaultBootstrapPeers = 6" by (simp add: DefaultBootstrapPeers_def)
  moreover have "dec_nat 6 = ''6''" by code_simp
  ultimately show ?thesis using conjunct1 [OF b, THEN spec, THEN mp, OF s] s d reach by auto
qed

end
