(* ===== verification/Web_Api.thy ===== *)
theory Web_Api
  imports Node_Invariant Verification_Store Peer_Store History_Store Safety_Number Discovery
begin

text \<open>
  The local web interface (\<open>web.go\<close>) and the state of the whole application: the stream manager,
  the disk with the three stores, the peer store of the host and the web client.

  A websocket connection is a number; what is sent to it is recorded with the payload as a value, not
  as its JSON text. The stream manager records its calls of the web interface and of the history as
  events; \<open>lift_sm\<close> runs an operation of the manager and then performs those calls. Saving a
  message, which the code does in a goroutine, happens at the call.
\<close>

section \<open>The application\<close>

record WebMsg =
  wmID :: string
  wmFrom :: string
  wmFromName :: string
  wmTo :: string
  wmContent :: string
  wmTimestamp :: time
  wmIsOwn :: bool

record WebRequest =
  wrPeerID :: string
  wrShortID :: string
  wrNickname :: string

datatype payload =
    PNodeInfo string "string list" string
  | PPeers "(string \<times> string \<times> string) list"
  | PIds "string list"
  | PRequest WebRequest
  | PMessage WebMsg
  | PFields "(string \<times> string) list"
  | PHistory string "StoredMsg list"
  | PTrusted "TrustedPeer list"
  | PVerification string string bool bool "string option"
  | PDiscovered string string nat
  | PDiscoveryComplete nat "(string \<times> string) list"

record WebClient =
  wcClients :: "nat list"
  wcMessages :: "WebMsg list"
  wcPending :: "WebRequest list"
  wcToken :: string
  wcSent :: "(nat \<times> string \<times> payload) list"

record app =
  ap_sm :: stream_manager
  ap_disk :: disk
  ap_peers :: "PeerStore option"
  ap_verif :: "VerificationStore option"
  ap_hist :: "HistoryStore option"
  ap_keys :: "keystore option"
  ap_web :: "WebClient option"

record world =
  w_env :: env
  w_os :: os
  w_net :: net
  w_dht :: "dht_lib option"
  w_addrs :: "string list"
  w_error_text :: "send_error \<Rightarrow> string"   \<comment> \<open>\<open>Error()\<close> of a send error\<close>
  w_store_error :: "store_error \<Rightarrow> string"   \<comment> \<open>\<open>Error()\<close> of a store error\<close>

text \<open>\<open>sm.node.ID().String()\<close>; the node is set before the web server and the input loop start.\<close>

definition local_id :: "world \<Rightarrow> app \<Rightarrow> string" where
  "local_id W a = (case node (ap_sm a) of None \<Rightarrow> [] | Some p \<Rightarrow> peer_String (w_env W) p)"

definition with_disk :: "(disk \<Rightarrow> disk \<times> 'r) \<Rightarrow> app \<Rightarrow> app \<times> 'r" where
  "with_disk f a = (case f (ap_disk a) of (d, r) \<Rightarrow> (a\<lparr>ap_disk := d\<rparr>, r))"

definition on_web :: "(WebClient \<Rightarrow> WebClient) \<Rightarrow> app \<Rightarrow> app" where
  "on_web f a = a\<lparr>ap_web := map_option f (ap_web a)\<rparr>"

section \<open>Sending to clients\<close>

definition sendToClient :: "nat \<Rightarrow> string \<Rightarrow> payload \<Rightarrow> app \<Rightarrow> app" where
  "sendToClient c t p =
     on_web (\<lambda>wc. if c \<in> set (wcClients wc) then wc\<lparr>wcSent := wcSent wc @ [(c, t, p)]\<rparr> else wc)"

definition broadcast :: "string \<Rightarrow> payload \<Rightarrow> app \<Rightarrow> app" where
  "broadcast t p a =
     (case ap_web a of None \<Rightarrow> a | Some wc \<Rightarrow> fold (\<lambda>c. sendToClient c t p) (wcClients wc) a)"

definition getPeersList :: "world \<Rightarrow> app \<Rightarrow> (string \<times> string \<times> string) list" where
  "getPeersList W a =
     map (\<lambda>(p, _). let ident = peer_String (w_env W) p; short = last8 ident;
                        nick = mget [] (peerNicks (ap_sm a)) p
                    in (ident, short, if nick = [] then short else nick))
       (streams (ap_sm a))"

definition notifyPeerUpdate :: "world \<Rightarrow> app \<Rightarrow> app" where
  "notifyPeerUpdate W a = broadcast ''peers_list'' (PPeers (getPeersList W a)) a"

definition save_history :: "world \<Rightarrow> string \<Rightarrow> StoredMsg \<Rightarrow> app \<Rightarrow> app" where
  "save_history W peerID m a =
     (case ap_hist a of
        None \<Rightarrow> a
      | Some h \<Rightarrow>
          fst (with_disk (SaveMessage (kex (w_env W)) (aead (w_env W)) (w_os W) h peerID m) a))"

definition web_message :: "world \<Rightarrow> string \<Rightarrow> string \<Rightarrow> string \<Rightarrow> bool \<Rightarrow> string \<Rightarrow> disk \<Rightarrow> WebMsg" where
  "web_message W from fromName ct isOwn conv d =
     \<lparr>wmID = dec_int (os_unix_ns (w_os W) (io_step d)), wmFrom = from, wmFromName = fromName, wmTo = conv,
      wmContent = ct, wmTimestamp = os_now (w_os W) (Suc (io_step d)), wmIsOwn = isOwn\<rparr>"

definition stored_msg :: "WebMsg \<Rightarrow> StoredMsg" where
  "stored_msg m =
     \<lparr>smID = wmID m, smFrom = wmFrom m, smFromName = wmFromName m, smContent = wmContent m,
      smTimestamp = wmTimestamp m, smIsOwn = wmIsOwn m\<rparr>"

definition addMessage ::
  "world \<Rightarrow> string \<Rightarrow> string \<Rightarrow> string \<Rightarrow> bool \<Rightarrow> string \<Rightarrow> bool \<Rightarrow> app \<Rightarrow> app"
where
  "addMessage W from fromName ct isOwn conv persist a =
     (let msg = web_message W from fromName ct isOwn conv (ap_disk a);
          a1 = a\<lparr>ap_disk := stepped (stepped (ap_disk a))\<rparr>;
          a2 = on_web (\<lambda>wc. wc\<lparr>wcMessages := wcMessages wc @ [msg]\<rparr>) a1;
          a3 = (if persist \<and> ap_hist a2 \<noteq> None \<and> conv \<noteq> [] then save_history W conv (stored_msg msg) a2 else a2)
      in broadcast ''new_message'' (PMessage msg) a3)"

section \<open>Notifications\<close>

definition web_error :: "string \<Rightarrow> app \<Rightarrow> app" where
  "web_error message = broadcast ''error'' (PFields [(''message'', message)])"

definition web_connection_request :: "string \<Rightarrow> string \<Rightarrow> string \<Rightarrow> app \<Rightarrow> app" where
  "web_connection_request peerID short nick a =
     (let r = \<lparr>wrPeerID = peerID, wrShortID = short, wrNickname = nick\<rparr>
      in broadcast ''connection_request'' (PRequest r) (on_web (\<lambda>wc. wc\<lparr>wcPending := wcPending wc @ [r]\<rparr>) a))"

definition RemovePendingRequest :: "string \<Rightarrow> app \<Rightarrow> app" where
  "RemovePendingRequest peerID =
     on_web (\<lambda>wc. wc\<lparr>wcPending := filter (\<lambda>r. wrPeerID r \<noteq> peerID) (wcPending wc)\<rparr>)"

definition NotifyPeerHistory :: "string \<Rightarrow> StoredMsg list \<Rightarrow> app \<Rightarrow> app" where
  "NotifyPeerHistory peerID msgs = broadcast ''peer_history'' (PHistory peerID msgs)"

definition web_connection_rejected :: "string \<Rightarrow> app \<Rightarrow> app" where
  "web_connection_rejected p = broadcast ''connection_rejected'' (PFields [(''peerId'', p)])"

definition web_peer_disconnected :: "string \<Rightarrow> string \<Rightarrow> string \<Rightarrow> app \<Rightarrow> app" where
  "web_peer_disconnected p nick short =
     broadcast ''peer_disconnected'' (PFields [(''peerId'', p), (''nickname'', nick), (''shortId'', short)])"

definition web_reconnect_status :: "string \<Rightarrow> string \<Rightarrow> string \<Rightarrow> app \<Rightarrow> app" where
  "web_reconnect_status p status m =
     broadcast ''reconnect_status'' (PFields [(''peerId'', p), (''status'', status), (''message'', m)])"

text \<open>
  The calls the stream manager makes. The functions called with a nil web client return at once, as
  does \<open>broadcast\<close>.
\<close>

fun web_notify :: "world \<Rightarrow> web_call \<Rightarrow> app \<Rightarrow> app" where
  "web_notify W (NotifyWebMessage from nm ct own conv persist) a =
     (if ap_web a = None then a else addMessage W from nm ct own conv persist a)"
| "web_notify W NotifyWebPeerUpdate a = notifyPeerUpdate W a"
| "web_notify W (NotifyWebError m) a = web_error m a"
| "web_notify W (NotifyPeerDisconnected p nick short) a = web_peer_disconnected p nick short a"
| "web_notify W (NotifyConnectionRequest p short nick) a = web_connection_request p short nick a"
| "web_notify W (NotifyWebConnectionRejected p) a = web_connection_rejected p a"
| "web_notify W (NotifyReconnectStatus p status m) a = web_reconnect_status p status m a"

lemmas web_notify_defs =
  notifyPeerUpdate_def web_error_def web_peer_disconnected_def web_connection_rejected_def web_reconnect_status_def

text \<open>The goroutine of \<open>AddStream\<close> that sends the history of a new connection.\<close>

definition send_history :: "world \<Rightarrow> string \<Rightarrow> app \<Rightarrow> app" where
  "send_history W peerID a =
     (case ap_hist a of
        None \<Rightarrow> a
      | Some h \<Rightarrow>
          (case with_disk (LoadHistory (kex (w_env W)) (aead (w_env W)) (w_os W) h peerID) a of
             (a1, Inl _) \<Rightarrow> a1
           | (a1, Inr msgs) \<Rightarrow> if 0 < length msgs then NotifyPeerHistory peerID msgs a1 else a1))"

definition web_event :: "world \<Rightarrow> event \<Rightarrow> app \<Rightarrow> app" where
  "web_event W ev =
     (case ev of Web c \<Rightarrow> web_notify W c | SendHistory p \<Rightarrow> send_history W p | _ \<Rightarrow> (\<lambda>a. a))"

definition lift_sm :: "world \<Rightarrow> (stream_manager \<Rightarrow> stream_manager) \<Rightarrow> app \<Rightarrow> app" where
  "lift_sm W f a =
     (let s = f (ap_sm a)
      in fold (web_event W) (drop (length (out (ap_sm a))) (out s)) (a\<lparr>ap_sm := s\<rparr>))"

definition NotifyTrustedPeersUpdate :: "world \<Rightarrow> PeerStore option \<Rightarrow> app \<Rightarrow> app" where
  "NotifyTrustedPeersUpdate W ps a =
     (case (ap_web a, ps) of
        (Some wc, Some p) \<Rightarrow>
          (case with_disk (LoadPeers (w_os W) p) a of
             (a1, Inl _) \<Rightarrow> a1
           | (a1, Inr peers) \<Rightarrow> broadcast ''trusted_peers_list'' (PTrusted peers) a1)
      | _ \<Rightarrow> a)"

definition verifiedPeerIDs :: "world \<Rightarrow> app \<Rightarrow> app \<times> string list" where
  "verifiedPeerIDs W a =
     (case ap_verif a of
        None \<Rightarrow> (a, [])
      | Some v \<Rightarrow>
          (case with_disk (VerifiedPeerIDs (w_os W) v) a of (a1, Inl _) \<Rightarrow> (a1, []) | (a1, Inr ids) \<Rightarrow> (a1, ids)))"

definition broadcastVerifiedPeers :: "world \<Rightarrow> app \<Rightarrow> app" where
  "broadcastVerifiedPeers W a =
     (case verifiedPeerIDs W a of (a1, ids) \<Rightarrow> broadcast ''verified_peers_list'' (PIds ids) a1)"

definition NotifyVerifiedPeersUpdate :: "world \<Rightarrow> app \<Rightarrow> app" where
  "NotifyVerifiedPeersUpdate W a = (if ap_web a = None then a else broadcastVerifiedPeers W a)"

definition sendVerification :: "world \<Rightarrow> string \<Rightarrow> app \<Rightarrow> app" where
  "sendVerification W peerIDStr a =
     (case peer_Decode (w_env W) peerIDStr of
        None \<Rightarrow> broadcast ''peer_verification'' (PVerification peerIDStr [] False False (Some ''Invalid peer ID'')) a
      | Some pid \<Rightarrow>
          (let (a1, verified) = (case ap_verif a of
                  None \<Rightarrow> (a, False)
                | Some v \<Rightarrow> with_disk (IsVerified (w_os W) v (peer_String (w_env W) pid)) a)
           in case safetyNumber (w_env W) (ap_keys a1) (case node (ap_sm a1) of None \<Rightarrow> [] | Some p \<Rightarrow> p) pid of
                Inl _ \<Rightarrow> broadcast ''peer_verification''
                  (PVerification peerIDStr [] verified False (Some ''Peer public key is not available yet.'')) a1
              | Inr number \<Rightarrow> broadcast ''peer_verification'' (PVerification peerIDStr number verified True None) a1))"

end
