(* ===== verification/Web_Handlers.thy ===== *)
theory Web_Handlers
  imports Web_Api
begin

text \<open>
  The entry points of \<open>web.go\<close>: the token and the origin check, the websocket handshake with the
  initial state, and the handler of every message a client can send. With them \<open>ReconnectPeer\<close> of
  \<open>main.go\<close>, which only the web interface calls.

  A handler that blocks on a full channel does not return: its value is \<open>None\<close>.
\<close>

section \<open>Access\<close>

record http_request =
  hr_origin :: string   \<comment> \<open>the Origin header, empty when absent\<close>
  hr_token :: string    \<comment> \<open>the query parameter \<open>token\<close>, empty when absent\<close>
  hr_upgrade :: bool    \<comment> \<open>whether the websocket library accepts the rest of the request\<close>

definition newAPIToken :: "os \<Rightarrow> disk \<Rightarrow> disk \<times> string option" where
  "newAPIToken I d = (case rand_Read I 32 d of (d1, r) \<Rightarrow> (d1, map_option raw_url_encode r))"

datatype api_error = EmptyDataDirectory | ApiIo io_error

definition writeAPIConfig :: "os \<Rightarrow> string \<Rightarrow> int \<Rightarrow> string \<Rightarrow> disk \<Rightarrow> disk \<times> api_error option" where
  "writeAPIConfig I dataDir port token d =
     (if dataDir = [] then (d, Some EmptyDataDirectory)
      else (case MkdirAll I dataDir d of
         (d1, Inl e) \<Rightarrow> (d1, Some (ApiIo e))
       | (d1, Inr _) \<Rightarrow>
           (case WriteFile I (path_Join [dataDir, ''api.token'']) (token @ [CHR 0x0A]) d1 of
              (d2, Inl e) \<Rightarrow> (d2, Some (ApiIo e))
            | (d2, Inr _) \<Rightarrow>
                (case WriteFile I (path_Join [dataDir, ''api.port'']) (dec_int port @ [CHR 0x0A]) d2 of
                   (d3, Inl e) \<Rightarrow> (d3, Some (ApiIo e))
                 | (d3, Inr _) \<Rightarrow> (d3, None)))))"

definition originAllowed :: "http_request \<Rightarrow> int \<Rightarrow> bool" where
  "originAllowed r port \<longleftrightarrow>
     hr_origin r = [] \<or> hr_origin r = ''http://127.0.0.1:'' @ dec_int port \<or>
     hr_origin r = ''http://localhost:'' @ dec_int port"

definition authorized :: "WebClient option \<Rightarrow> http_request \<Rightarrow> bool" where
  "authorized wc r =
     (case wc of None \<Rightarrow> False | Some c \<Rightarrow> wcToken c \<noteq> [] \<and> hr_token r = wcToken c)"

definition send_histories :: "world \<Rightarrow> app \<Rightarrow> app" where
  "send_histories W a =
     (case ap_hist a of
        None \<Rightarrow> a
      | Some h \<Rightarrow>
          (case with_disk (LoadAllHistories (kex (w_env W)) (aead (w_env W)) (w_os W) h) a of
             (b, Inl _) \<Rightarrow> b
           | (b, Inr m) \<Rightarrow> fold (\<lambda>(p, msgs). if 0 < length msgs then NotifyPeerHistory p msgs else (\<lambda>x. x)) m b))"

definition sendInitialState :: "world \<Rightarrow> nat \<Rightarrow> app \<Rightarrow> app" where
  "sendInitialState W c a =
     (let a1 = sendToClient c ''node_info'' (PNodeInfo (local_id W a) (w_addrs W) (localNick (ap_sm a))) a;
          a2 = sendToClient c ''peers_list'' (PPeers (getPeersList W a1)) a1;
          (a3, ids) = verifiedPeerIDs W a2;
          a4 = sendToClient c ''verified_peers_list'' (PIds ids) a3;
          pend = (case ap_web a4 of None \<Rightarrow> [] | Some wc \<Rightarrow> wcPending wc);
          a5 = fold (\<lambda>r. sendToClient c ''connection_request'' (PRequest r)) pend a4;
          a6 = send_histories W a5
      in case ap_peers a6 of None \<Rightarrow> a6 | Some ps \<Rightarrow> NotifyTrustedPeersUpdate W (Some ps) a6)"

text \<open>\<open>handleWebSocket\<close> on port \<open>port\<close>, the new connection having number \<open>c\<close>; the flag is the 401 answer.\<close>

definition handleWebSocket :: "world \<Rightarrow> int \<Rightarrow> http_request \<Rightarrow> nat \<Rightarrow> app \<Rightarrow> app \<times> bool" where
  "handleWebSocket W port r c a =
     (if \<not> authorized (ap_web a) r then (a, True)
      else if \<not> originAllowed r port \<or> \<not> hr_upgrade r then (a, False)
      else (sendInitialState W c (on_web (\<lambda>wc. wc\<lparr>wcClients := List.insert c (wcClients wc)\<rparr>) a), False))"

text \<open>The deferred clean-up of \<open>readWebSocket\<close>.\<close>

definition web_disconnected :: "nat \<Rightarrow> app \<Rightarrow> app" where
  "web_disconnected c = on_web (\<lambda>wc. wc\<lparr>wcClients := remove1 c (wcClients wc)\<rparr>)"

section \<open>Actions\<close>

definition sendMessageToPeer :: "world \<Rightarrow> string \<Rightarrow> string \<Rightarrow> app \<Rightarrow> app" where
  "sendMessageToPeer W peerIDStr ct a =
     (case peer_Decode (w_env W) peerIDStr of
        None \<Rightarrow> web_error ''Invalid peer ID'' a
      | Some p \<Rightarrow>
          (let r = snd (sendChat (w_env W) p ct (ap_sm a));
               a1 = lift_sm W (\<lambda>s. fst (sendChat (w_env W) p ct s)) a
           in case r of
                Inl err \<Rightarrow> web_error (''Could not send message: '' @ w_error_text W err) a1
              | Inr e \<Rightarrow> addMessage W (local_id W a1) (localNick (ap_sm a1)) ct True peerIDStr True a1))"

definition handleDiscoverPeers :: "world \<Rightarrow> app \<Rightarrow> app" where
  "handleDiscoverPeers W a =
     (case w_dht W of
        None \<Rightarrow> broadcast ''discovery_status'' (PFields [(''status'', ''DHT not initialized'')]) a
      | Some D \<Rightarrow>
          (let a1 = broadcast ''discovery_status'' (PFields [(''status'', ''Discovering peers...'')]) a in
           case DiscoverPeers D DefaultNamespace of
             Inl err \<Rightarrow> broadcast ''discovery_status'' (PFields [(''status'', ''Discovery failed: '' @ err)]) a1
           | Inr found \<Rightarrow>
               (let ps = map (\<lambda>p. (peer_address (w_env W) p, peer_String (w_env W) (dp_PeerID p)))
                           (filter (\<lambda>p. dp_Addrs p \<noteq> []) found);
                    a2 = fold (\<lambda>(i, addr, ident). broadcast ''discovered_peer'' (PDiscovered addr ident i))
                           (zip [1..<Suc (length ps)] ps) a1
                in broadcast ''discovery_complete'' (PDiscoveryComplete (length ps) ps) a2)))"

definition reconnect_status :: "string \<Rightarrow> string \<Rightarrow> string \<Rightarrow> stream_manager \<Rightarrow> stream_manager" where
  "reconnect_status p status m = emit (Web (NotifyReconnectStatus p status m))"

definition ReconnectPeer :: "world \<Rightarrow> string \<Rightarrow> stream_manager \<Rightarrow> stream_manager" where
  "ReconnectPeer W peerIDStr s =
     (case w_dht W of
        None \<Rightarrow> reconnect_status peerIDStr ''failed''
          (''DHT ba'' @ [CHR 0xC5, CHR 0x9F] @ ''lat'' @ [CHR 0xC4, CHR 0xB1] @ ''lmam'' @ [CHR 0xC4, CHR 0xB1, CHR 0xC5, CHR 0x9F]) s
      | Some D \<Rightarrow>
          (case peer_Decode (w_env W) peerIDStr of
             None \<Rightarrow> reconnect_status peerIDStr ''failed'' (''Ge'' @ [CHR 0xC3, CHR 0xA7] @ ''ersiz peer ID'') s
           | Some p \<Rightarrow>
               if mlookup (streams s) p \<noteq> None
               then reconnect_status peerIDStr ''connected'' (''Zaten ba'' @ [CHR 0xC4, CHR 0x9F] @ ''l'' @ [CHR 0xC4, CHR 0xB1]) s
               else
                 (let s1 = reconnect_status peerIDStr ''searching'' (''Peer aran'' @ [CHR 0xC4, CHR 0xB1] @ ''yor...'') s in
                  case FindPeer D p of
                    Inl _ \<Rightarrow> reconnect_status peerIDStr ''failed'' (''Peer a'' @ [CHR 0xC4, CHR 0x9F] @ ''da bulunamad'' @ [CHR 0xC4, CHR 0xB1]) s1
                  | Inr info \<Rightarrow>
                      if ai_Addrs info = []
                      then reconnect_status peerIDStr ''failed'' (''Peer a'' @ [CHR 0xC4, CHR 0x9F] @ ''da bulunamad'' @ [CHR 0xC4, CHR 0xB1]) s1
                      else
                        (case AddrInfoToP2pAddrs D info of
                           Inl _ \<Rightarrow> reconnect_status peerIDStr ''failed'' (''Peer adresi al'' @ [CHR 0xC4, CHR 0xB1] @ ''namad'' @ [CHR 0xC4, CHR 0xB1]) s1
                         | Inr [] \<Rightarrow> reconnect_status peerIDStr ''failed'' (''Peer adresi al'' @ [CHR 0xC4, CHR 0xB1] @ ''namad'' @ [CHR 0xC4, CHR 0xB1]) s1
                         | Inr (addr # _) \<Rightarrow>
                             connectToPeer (w_env W) (w_net W) addr
                               (reconnect_status peerIDStr ''connecting'' (''Ba'' @ [CHR 0xC4, CHR 0x9F] @ ''lan'' @ [CHR 0xC4, CHR 0xB1] @ ''l'' @ [CHR 0xC4, CHR 0xB1] @ ''yor...'') s1)))))"

section \<open>Messages of a client\<close>

text \<open>
  The payload structs: \<open>json.Unmarshal\<close> with its error ignored. Text that is not an object leaves the
  fields empty; a value of the wrong type leaves its field as it is.
\<close>

definition ws_string :: "string \<Rightarrow> bytes \<Rightarrow> string" where
  "ws_string name pl =
     (case json_members pl of
        None \<Rightarrow> []
      | Some kvs \<Rightarrow> fold (\<lambda>(k, raw) x. if key_is name k then (case dec_string x raw of None \<Rightarrow> x | Some y \<Rightarrow> y) else x) kvs [])"

definition ws_bool :: "string \<Rightarrow> bytes \<Rightarrow> bool" where
  "ws_bool name pl =
     (case json_members pl of
        None \<Rightarrow> False
      | Some kvs \<Rightarrow> fold (\<lambda>(k, raw) x. if key_is name k then (case dec_bool x raw of None \<Rightarrow> x | Some y \<Rightarrow> y) else x) kvs False)"

definition ws_save_peer :: "world \<Rightarrow> string \<Rightarrow> string \<Rightarrow> app \<Rightarrow> app" where
  "ws_save_peer W peerID nick a =
     (case ap_peers a of
        None \<Rightarrow> a
      | Some ps \<Rightarrow>
          if peerID = [] then a
          else (case peer_Decode (w_env W) peerID of
             None \<Rightarrow> a
           | Some p \<Rightarrow>
               (case with_disk (SavePeer (w_os W) ps (peer_String (w_env W) p) nick) a of
                  (a1, Inl _) \<Rightarrow> a1
                | (a1, Inr _) \<Rightarrow> NotifyTrustedPeersUpdate W (Some ps) a1)))"

definition ws_remove_peer :: "world \<Rightarrow> string \<Rightarrow> app \<Rightarrow> app" where
  "ws_remove_peer W peerID a =
     (case ap_peers a of
        None \<Rightarrow> a
      | Some ps \<Rightarrow>
          if peerID = [] then a
          else (case peer_Decode (w_env W) peerID of
             None \<Rightarrow> a
           | Some p \<Rightarrow>
               (case with_disk (RemovePeerByID (w_os W) ps (peer_String (w_env W) p)) a of
                  (a1, Inl _) \<Rightarrow> a1
                | (a1, Inr _) \<Rightarrow> NotifyTrustedPeersUpdate W (Some ps) a1)))"

definition ws_clear_history :: "world \<Rightarrow> string \<Rightarrow> app \<Rightarrow> app" where
  "ws_clear_history W peerID a =
     (case ap_hist a of
        None \<Rightarrow> a
      | Some h \<Rightarrow>
          if peerID = [] then a
          else (case peer_Decode (w_env W) peerID of
             None \<Rightarrow> a
           | Some p \<Rightarrow> fst (with_disk (ClearHistory (w_os W) h (peer_String (w_env W) p)) a)))"

definition ws_set_verification :: "world \<Rightarrow> string \<Rightarrow> bool \<Rightarrow> app \<Rightarrow> app" where
  "ws_set_verification W peerID verified a =
     (let fallback = (\<lambda>b. if peerID = [] then b else sendVerification W peerID b) in
      case ap_verif a of
        None \<Rightarrow> fallback a
      | Some v \<Rightarrow>
          if peerID = [] then fallback a
          else (case peer_Decode (w_env W) peerID of
             None \<Rightarrow> fallback a
           | Some p \<Rightarrow>
               (case with_disk (SetVerified (w_os W) v (peer_String (w_env W) p) verified) a of
                  (a1, Inl _) \<Rightarrow> fallback a1
                | (a1, Inr _) \<Rightarrow> broadcastVerifiedPeers W (sendVerification W peerID a1))))"

definition handleWSMessage :: "world \<Rightarrow> string \<Rightarrow> bytes \<Rightarrow> app \<Rightarrow> app option" where
  "handleWSMessage W ty pl a =
     (let peerID = ws_string ''peerId'' pl in
      if ty = ''send_message'' then Some (sendMessageToPeer W (ws_string ''to'' pl) (ws_string ''content'' pl) a)
      else if ty = ''connect_peer'' then Some (lift_sm W (connectToPeer (w_env W) (w_net W) (ws_string ''address'' pl)) a)
      else if ty = ''discover_peers'' then Some (handleDiscoverPeers W a)
      else if ty = ''connection_response'' then
        (let a1 = RemovePendingRequest peerID a in
         map_option (\<lambda>s. a1\<lparr>ap_sm := s\<rparr>)
           (RespondToConnectionRequest (w_env W) peerID (ws_bool ''accepted'' pl) (ap_sm a1)))
      else if ty = ''reconnect_peer'' then
        Some (if peerID = [] then a else lift_sm W (ReconnectPeer W peerID) a)
      else if ty = ''disconnect_peer'' then
        Some (if peerID \<noteq> [] then lift_sm W (disconnectSpecificPeer (w_env W) peerID) a
              else lift_sm W (disconnectActivePeer (w_env W)) a)
      else if ty = ''save_peer'' then Some (ws_save_peer W peerID (ws_string ''nickname'' pl) a)
      else if ty = ''remove_peer'' then Some (ws_remove_peer W peerID a)
      else if ty = ''clear_history'' then Some (ws_clear_history W peerID a)
      else if ty = ''get_verification'' then Some (if peerID = [] then a else sendVerification W peerID a)
      else if ty = ''set_verification'' then Some (ws_set_verification W peerID (ws_bool ''verified'' pl) a)
      else Some a)"

text \<open>
  \<open>readWebSocket\<close> over the messages a client sends until its connection ends or sends no JSON;
  \<open>None\<close> while a message blocks on the channel of a request.
\<close>

record WSMessage =
  wsType :: string
  wsPayload :: bytes

fun readWebSocket :: "world \<Rightarrow> nat \<Rightarrow> WSMessage list \<Rightarrow> app \<Rightarrow> app option" where
  "readWebSocket W c [] a = Some (web_disconnected c a)"
| "readWebSocket W c (msg # msgs) a =
     (case handleWSMessage W (wsType msg) (wsPayload msg) a of
        None \<Rightarrow> None
      | Some a' \<Rightarrow> readWebSocket W c msgs a')"

section \<open>Who receives what\<close>

text \<open>
  What every action keeps: the token and the clients; what is sent goes to current clients only.
\<close>

definition web_grows :: "WebClient \<Rightarrow> WebClient \<Rightarrow> bool" where
  "web_grows w w' \<longleftrightarrow>
     wcToken w' = wcToken w \<and> wcClients w' = wcClients w \<and>
     (\<exists>new. wcSent w' = wcSent w @ new \<and> fst ` set new \<subseteq> set (wcClients w))"

definition web_frame :: "app \<Rightarrow> app \<Rightarrow> bool" where
  "web_frame a a' \<longleftrightarrow>
     ap_peers a' = ap_peers a \<and> ap_verif a' = ap_verif a \<and> ap_hist a' = ap_hist a \<and>
     rel_option web_grows (ap_web a) (ap_web a')"

lemma web_grows_refl [simp]: "web_grows w w"
  by (simp add: web_grows_def)

lemma web_grows_trans: "web_grows w w' \<Longrightarrow> web_grows w' w'' \<Longrightarrow> web_grows w w''"
  by (fastforce simp: web_grows_def)

lemma web_frame_refl [simp]: "web_frame a a"
  by (simp add: web_frame_def option.rel_refl)

lemma web_frame_trans: "web_frame a b \<Longrightarrow> web_frame b c \<Longrightarrow> web_frame a c"
  unfolding web_frame_def
  by (cases "ap_web a"; cases "ap_web b"; cases "ap_web c") (auto intro: web_grows_trans)

lemma web_frame_on_web: "(\<And>wc. web_grows wc (f wc)) \<Longrightarrow> web_frame a (on_web f a)"
  by (cases "ap_web a") (simp_all add: web_frame_def on_web_def)

lemma web_frame_sm [simp]: "web_frame a (a\<lparr>ap_sm := s\<rparr>)"
  and web_frame_disk [simp]: "web_frame a (a\<lparr>ap_disk := d\<rparr>)"
  by (simp_all add: web_frame_def option.rel_refl)

lemma web_frame_with_disk: "with_disk f a = (a', r) \<Longrightarrow> web_frame a a'"
  by (auto simp: with_disk_def split: prod.splits)

lemma web_frame_with_disk_fst [simp]: "web_frame a (fst (with_disk f a))"
  by (simp add: with_disk_def split: prod.splits)

lemma web_frame_fold: "(\<And>x a. web_frame a (f x a)) \<Longrightarrow> web_frame a (fold f xs a)"
  by (induction xs arbitrary: a) (auto intro: web_frame_trans)

lemma web_frame_sendToClient [simp]: "web_frame a (sendToClient c t p a)"
  unfolding sendToClient_def by (rule web_frame_on_web) (auto simp: web_grows_def)

lemma web_frame_broadcast [simp]: "web_frame a (broadcast t p a)"
  by (auto simp: broadcast_def intro: web_frame_fold split: option.splits)

lemma web_frame_save_history [simp]: "web_frame a (save_history W p m a)"
  by (simp add: save_history_def split: option.splits)

lemma web_frame_messages [simp]: "web_frame a (on_web (\<lambda>wc. wc\<lparr>wcMessages := f wc\<rparr>) a)"
  and web_frame_pending [simp]: "web_frame a (on_web (\<lambda>wc. wc\<lparr>wcPending := g wc\<rparr>) a)"
  by (rule web_frame_on_web, simp add: web_grows_def)+

lemma web_frame_addMessage [simp]: "web_frame a (addMessage W f n c own conv ps a)"
proof -
  let ?msg = "web_message W f n c own conv (ap_disk a)"
  let ?a1 = "a\<lparr>ap_disk := stepped (stepped (ap_disk a))\<rparr>"
  let ?a2 = "on_web (\<lambda>wc. wc\<lparr>wcMessages := wcMessages wc @ [?msg]\<rparr>) ?a1"
  have "web_frame a ?a2" by (rule web_frame_trans [of a ?a1]) simp_all
  moreover have "web_frame ?a2 (if ps \<and> ap_hist ?a2 \<noteq> None \<and> conv \<noteq> [] then save_history W conv (stored_msg ?msg) ?a2 else ?a2)"
    by simp
  ultimately show ?thesis
    unfolding addMessage_def Let_def
    by (rule web_frame_trans [OF web_frame_trans web_frame_broadcast])
qed

lemma web_frame_request [simp]: "web_frame a (web_connection_request p sh n a)"
  unfolding web_connection_request_def Let_def by (rule web_frame_trans [OF web_frame_pending web_frame_broadcast])

lemma web_frame_notify [simp]: "web_frame a (web_notify W c a)"
  by (cases c) (simp_all add: web_notify_defs)

lemma web_frame_history [simp]: "web_frame a (send_history W p a)"
  by (auto simp: send_history_def NotifyPeerHistory_def split: option.splits prod.splits sum.splits
      dest: web_frame_with_disk intro: web_frame_trans [OF _ web_frame_broadcast])

lemma web_frame_event [simp]: "web_frame a (web_event W ev a)"
  by (simp add: web_event_def split: event.splits)

lemma web_frame_lift [simp]: "web_frame a (lift_sm W f a)"
  unfolding lift_sm_def Let_def
  by (rule web_frame_trans [OF web_frame_sm web_frame_fold]) simp

lemma web_frame_trusted [simp]: "web_frame a (NotifyTrustedPeersUpdate W ps a)"
  by (auto simp: NotifyTrustedPeersUpdate_def split: option.splits prod.splits sum.splits
      dest: web_frame_with_disk intro: web_frame_trans [OF _ web_frame_broadcast])

lemma web_frame_verified: "verifiedPeerIDs W a = (a', ids) \<Longrightarrow> web_frame a a'"
  by (auto simp: verifiedPeerIDs_def split: option.splits prod.splits sum.splits dest: web_frame_with_disk)

lemma web_frame_broadcastVerified [simp]: "web_frame a (broadcastVerifiedPeers W a)"
  by (auto simp: broadcastVerifiedPeers_def split: prod.splits dest: web_frame_verified
      intro: web_frame_trans [OF _ web_frame_broadcast])

lemma web_frame_verification [simp]: "web_frame a (sendVerification W p a)"
  by (auto simp: sendVerification_def split: option.splits prod.splits sum.splits
      dest: web_frame_with_disk intro: web_frame_trans [OF _ web_frame_broadcast])

text \<open>One more action after a frame.\<close>

lemmas web_frame_then =
  web_frame_trans [OF _ web_frame_broadcast] web_frame_trans [OF _ web_frame_addMessage]
  web_frame_trans [OF _ web_frame_trusted] web_frame_trans [OF _ web_frame_verification]
  web_frame_trans [OF _ web_frame_broadcastVerified]

lemma web_frame_send [simp]: "web_frame a (sendMessageToPeer W p c a)"
  by (auto simp: sendMessageToPeer_def web_error_def Let_def split: option.split sum.split
      intro: web_frame_then)

lemma web_frame_discover [simp]: "web_frame a (handleDiscoverPeers W a)"
proof -
  have f: "web_frame a (fold (\<lambda>(i, addr, ident). broadcast t (g i addr ident)) xs b)" if "web_frame a b" for t g xs b
    by (rule web_frame_trans [OF that web_frame_fold]) (simp split: prod.split)
  show ?thesis
    unfolding handleDiscoverPeers_def Let_def
    by (cases "w_dht W"; cases "DiscoverPeers (the (w_dht W)) DefaultNamespace")
      (simp_all add: web_frame_then(1) f)
qed

lemma web_frame_peer_handlers [simp]: "web_frame a (ws_save_peer W p n a)" "web_frame a (ws_remove_peer W p a)"
  by (auto simp: ws_save_peer_def ws_remove_peer_def split: option.split prod.split sum.split
      dest: web_frame_with_disk intro: web_frame_then(3))

lemma web_frame_clear [simp]: "web_frame a (ws_clear_history W p a)"
  by (simp add: ws_clear_history_def split: option.split)

lemma web_frame_set_verification [simp]: "web_frame a (ws_set_verification W p b a)"
  by (auto simp: ws_set_verification_def Let_def split: option.split prod.split sum.split
      dest: web_frame_with_disk intro: web_frame_then(4,5))

lemma handleWSMessage_frame: "handleWSMessage W ty pl a = Some a' \<Longrightarrow> web_frame a a'"
  by (auto simp: handleWSMessage_def Let_def RemovePendingRequest_def split: if_splits
      intro: web_frame_trans [OF web_frame_pending web_frame_sm])

text \<open>
  The local interface serves authorized clients only: a websocket request without the right token,
  or from a page of another origin, changes nothing and receives nothing; and whatever messages the
  clients send, the token and the set of clients stay, and everything sent goes to those clients.
\<close>

theorem only_authorized_served:
  "(authorized (ap_web a) r \<and> originAllowed r port \<or> fst (handleWebSocket W port r c a) = a) \<and>
   (case handleWSMessage W ty pl a of None \<Rightarrow> True | Some a' \<Rightarrow> rel_option web_grows (ap_web a) (ap_web a'))"
  using handleWSMessage_frame [of W ty pl a]
  by (auto simp: handleWebSocket_def web_frame_def split: option.splits)

section \<open>Received messages\<close>

lemma sendToClient_fields [simp]:
  "ap_disk (sendToClient c t p a) = ap_disk a" "ap_hist (sendToClient c t p a) = ap_hist a"
  "ap_sm (sendToClient c t p a) = ap_sm a"
  by (simp_all add: sendToClient_def on_web_def)

lemma fold_send_fields:
  "ap_disk (fold (\<lambda>c. sendToClient c t p) cs a) = ap_disk a \<and> ap_hist (fold (\<lambda>c. sendToClient c t p) cs a) = ap_hist a
     \<and> ap_sm (fold (\<lambda>c. sendToClient c t p) cs a) = ap_sm a"
  by (induction cs arbitrary: a) simp_all

lemma broadcast_fields [simp]:
  "ap_disk (broadcast t p a) = ap_disk a" "ap_hist (broadcast t p a) = ap_hist a" "ap_sm (broadcast t p a) = ap_sm a"
  by (simp_all add: broadcast_def fold_send_fields split: option.split)

lemma fold_send_sent:
  assumes "ap_web a = Some wc" and "set cs \<subseteq> set (wcClients wc)"
  shows "ap_web (fold (\<lambda>c. sendToClient c t p) cs a) = Some (wc\<lparr>wcSent := wcSent wc @ map (\<lambda>c. (c, t, p)) cs\<rparr>)"
  using assms
proof (induction cs arbitrary: a wc)
  case (Cons c cs)
  then have "ap_web (sendToClient c t p a) = Some (wc\<lparr>wcSent := wcSent wc @ [(c, t, p)]\<rparr>)"
    by (simp add: sendToClient_def on_web_def)
  from Cons.IH [OF this] Cons.prems(2) show ?case by simp
qed simp

lemma broadcast_sent:
  "ap_web a = Some wc \<Longrightarrow>
     ap_web (broadcast t p a) = Some (wc\<lparr>wcSent := wcSent wc @ map (\<lambda>c. (c, t, p)) (wcClients wc)\<rparr>)"
  by (simp add: broadcast_def fold_send_sent)

lemma addMessage_parts:
  assumes "ap_web a = Some wc"
    and msg: "msg = web_message W from nm ct own conv (ap_disk a)"
  shows "ap_web (addMessage W from nm ct own conv ps a) =
      Some (wc\<lparr>wcMessages := wcMessages wc @ [msg], wcSent := wcSent wc @ map (\<lambda>c. (c, ''new_message'', PMessage msg)) (wcClients wc)\<rparr>)"
    and "ap_disk (addMessage W from nm ct own conv ps a) =
      (case ap_hist a of
         Some h \<Rightarrow> if ps \<and> conv \<noteq> []
           then fst (SaveMessage (kex (w_env W)) (aead (w_env W)) (w_os W) h conv (stored_msg msg) (stepped (stepped (ap_disk a))))
           else stepped (stepped (ap_disk a))
       | None \<Rightarrow> stepped (stepped (ap_disk a)))"
proof -
  let ?a2 = "on_web (\<lambda>wc. wc\<lparr>wcMessages := wcMessages wc @ [msg]\<rparr>) (a\<lparr>ap_disk := stepped (stepped (ap_disk a))\<rparr>)"
  let ?a3 = "if ps \<and> ap_hist ?a2 \<noteq> None \<and> conv \<noteq> [] then save_history W conv (stored_msg msg) ?a2 else ?a2"
  have e: "addMessage W from nm ct own conv ps a = broadcast ''new_message'' (PMessage msg) ?a3"
    by (simp only: addMessage_def Let_def msg)
  have "ap_web ?a3 = Some (wc\<lparr>wcMessages := wcMessages wc @ [msg]\<rparr>)"
    using assms(1) by (simp add: on_web_def save_history_def with_disk_def split: option.split prod.split)
  from broadcast_sent [OF this] show "ap_web (addMessage W from nm ct own conv ps a) =
      Some (wc\<lparr>wcMessages := wcMessages wc @ [msg], wcSent := wcSent wc @ map (\<lambda>c. (c, ''new_message'', PMessage msg)) (wcClients wc)\<rparr>)"
    by (simp add: e)
  show "ap_disk (addMessage W from nm ct own conv ps a) =
      (case ap_hist a of
         Some h \<Rightarrow> if ps \<and> conv \<noteq> []
           then fst (SaveMessage (kex (w_env W)) (aead (w_env W)) (w_os W) h conv (stored_msg msg) (stepped (stepped (ap_disk a))))
           else stepped (stepped (ap_disk a))
       | None \<Rightarrow> stepped (stepped (ap_disk a)))"
    by (simp add: e on_web_def save_history_def with_disk_def split: option.split prod.split)
qed

lemma lift_deliverChat:
  "lift_sm W (deliverChat E p ct) a =
     web_notify W (NotifyWebMessage (peer_String E p)
         (case displayName E p (ap_sm a) of (nick, short) \<Rightarrow> if nick = [] then short else nick) ct False (peer_String E p) True)
       (a\<lparr>ap_sm := deliverChat E p ct (ap_sm a)\<rparr>)"
  by (auto simp: lift_sm_def Let_def deliverChat_def emit_def ticked_def web_event_def displayName_def)

text \<open>The history after a save, by its outcome.\<close>

lemma save_outcome:
  assumes st: "hs_stored K A (history_store dir key) p d = Some ms" and "\<forall>m \<in> set ms. msg_ok m" and "msg_ok m"
    and "aead_correct A" and "rand_ok I"
  shows "hs_stored K A (history_store dir key) p (fst (SaveMessage K A I (history_store dir key) p m d)) =
    Some (if isl (snd (SaveMessage K A I (history_store dir key) p m d)) then ms else ms @ [m])"
proof -
  obtain d' r where sv: "SaveMessage K A I (history_store dir key) p m d = (d', r)" by fastforce
  then show ?thesis
    using hd.update_fail [OF _ st, of I m d'] hd.update_ok [OF _ st assms(2), of m I d'] st assms(3-5)
    by (cases r) auto
qed

lemma utf8_dec_int: "utf8_ok (dec_int i)"
  using dec_int_chars [of i] by (intro utf8_ok_ascii) (auto simp: list_all_iff is_digit_def)

text \<open>
  C8. A received message reaches the user and the disk: delivering it appends it to the messages of
  the web client, sends it to every connected client, and appends it to the encrypted history of the
  sender unless that save fails, in which case the history is as before.
\<close>

theorem delivered_message_persisted:
  assumes "ap_web a = Some wc" and "ap_hist a = Some (history_store dir key)"
    and "peer_String (w_env W) p \<noteq> []"
    and "hs_stored (kex (w_env W)) (aead (w_env W)) (history_store dir key) (peer_String (w_env W) p) (ap_disk a) = Some ms"
    and "\<forall>m \<in> set ms. msg_ok m" and "aead_correct (aead (w_env W))" and "rand_ok (w_os W)"
    and "\<forall>n. time_ok (os_now (w_os W) n)" and "utf8_ok (peer_String (w_env W) p)" and "utf8_ok ct"
    and "utf8_ok (mget [] (peerNicks (ap_sm a)) p)" and "utf8_ok (shortID (w_env W) p)"
  shows "\<exists>msg wc'. wmContent msg = ct \<and> wmFrom msg = peer_String (w_env W) p \<and> \<not> wmIsOwn msg \<and>
    ap_web (lift_sm W (deliverChat (w_env W) p ct) a) = Some wc' \<and> wcMessages wc' = wcMessages wc @ [msg] \<and>
    wcSent wc' = wcSent wc @ map (\<lambda>c. (c, ''new_message'', PMessage msg)) (wcClients wc) \<and>
    hs_stored (kex (w_env W)) (aead (w_env W)) (history_store dir key) (peer_String (w_env W) p)
      (ap_disk (lift_sm W (deliverChat (w_env W) p ct) a)) =
      Some (if isl (snd (SaveMessage (kex (w_env W)) (aead (w_env W)) (w_os W) (history_store dir key)
              (peer_String (w_env W) p) (stored_msg msg) (stepped (stepped (ap_disk a)))))
            then ms else ms @ [stored_msg msg])"
proof -
  let ?E = "w_env W" and ?I = "w_os W" and ?h = "history_store dir key"
  let ?P = "peer_String ?E p"
  let ?nm = "case displayName ?E p (ap_sm a) of (nick, short) \<Rightarrow> if nick = [] then short else nick"
  let ?b = "a\<lparr>ap_sm := deliverChat ?E p ct (ap_sm a)\<rparr>"
  let ?msg = "web_message W ?P ?nm ct False ?P (ap_disk a)"
  let ?d = "stepped (stepped (ap_disk a))"
  have b: "ap_web ?b = Some wc" using assms(1) by simp
  have l: "lift_sm W (deliverChat ?E p ct) a = addMessage W ?P ?nm ct False ?P True ?b"
    using assms(1) by (simp add: lift_deliverChat)
  note parts = addMessage_parts [OF b refl, of W ?P ?nm ct False ?P True]
  have "utf8_ok ?nm" using assms(11,12) by (simp add: displayName_def)
  then have ok: "msg_ok (stored_msg ?msg)"
    using assms(8-10) by (simp add: msg_ok_def stored_msg_def web_message_def utf8_dec_int)
  have st: "hs_stored (kex ?E) (aead ?E) ?h ?P ?d = Some ms" using assms(4) by (simp add: hs_stored_def)
  have "ap_disk (lift_sm W (deliverChat ?E p ct) a) = fst (SaveMessage (kex ?E) (aead ?E) ?I ?h ?P (stored_msg ?msg) ?d)"
    using assms(2,3) l parts(2) by simp
  then show ?thesis
    using l parts(1) save_outcome [OF st assms(5) ok assms(6,7)] by (intro exI [of _ ?msg]) (simp add: web_message_def)
qed

text \<open>The history hangs on the web client: without one, a received message is shown but not stored.\<close>

lemma no_web_client_not_stored:
  assumes "ap_web a = None"
  shows "ap_disk (lift_sm W (deliverChat (w_env W) p ct) a) = ap_disk a"
  using assms by (simp add: lift_deliverChat)

section \<open>A concrete application\<close>

text \<open>For worked examples: one web client, an empty disk, a network without peers.\<close>

definition demo_world :: world where
  "demo_world = \<lparr>w_env = demo_env, w_os = demo_os,
     w_net = \<lparr>NewMultiaddr = (\<lambda>a. False), AddrInfoFromP2pAddr = (\<lambda>a. None), Connect = (\<lambda>p. None),
              NewStream = (\<lambda>p. None), ConnReqSent = True, ResponseInTime = True\<rparr>,
     w_dht = Some demo_dht, w_addrs = [''/ip4/127.0.0.1/tcp/1''], w_error_text = (\<lambda>e. ''error''),
     w_store_error = (\<lambda>e. ''error'')\<rparr>"

definition demo_app :: app where
  "demo_app = \<lparr>ap_sm = demo_node, ap_disk = empty_disk, ap_peers = Some (peer_store ''data''), ap_verif = None,
     ap_hist = Some (history_store ''data'' ''k''), ap_keys = Some demo_keys,
     ap_web = Some \<lparr>wcClients = [1], wcMessages = [], wcPending = [], wcToken = ''t'', wcSent = []\<rparr>\<rparr>"

lemma demo_world_simps [simp]:
  "w_env demo_world = demo_env" "w_os demo_world = demo_os" "w_dht demo_world = Some demo_dht"
  by (simp_all add: demo_world_def)

lemma demo_app_simps [simp]:
  "ap_sm demo_app = demo_node" "ap_disk demo_app = empty_disk" "ap_hist demo_app = Some (history_store ''data'' ''k'')"
  "ap_peers demo_app = Some (peer_store ''data'')"
  "ap_web demo_app = Some \<lparr>wcClients = [1], wcMessages = [], wcPending = [], wcToken = ''t'', wcSent = []\<rparr>"
  by (simp_all add: demo_app_def)

lemma demo_env_simps:
  "peer_String demo_env p = p" "peer_Decode demo_env x = Some x" "kex demo_env = toy_kex" "aead demo_env = plain_aead"
  by (simp_all add: demo_env_def)

theorem delivered_message_persisted_witness:
  "\<exists>msg wc'. wmContent msg = ''hi'' \<and>
     ap_web (lift_sm demo_world (deliverChat demo_env ''QmB'' ''hi'') demo_app) = Some wc' \<and> wcMessages wc' = [msg] \<and>
     wcSent wc' = [(1, ''new_message'', PMessage msg)]"
proof -
  have u: "utf8_ok ''QmB''" "utf8_ok ''hi''" "utf8_ok []" by (simp_all add: utf8_ok_ascii)
  have "shortID demo_env ''QmB'' = ''QmB''" by (simp add: shortID_def demo_env_simps last8_def)
  moreover have "mget [] (peerNicks demo_node) ''QmB'' = []"
    by (simp add: demo_node_def newStreamManager_def gomap_simps)
  moreover have "hs_stored toy_kex plain_aead (history_store ''data'' ''k'') ''QmB'' empty_disk = Some []"
    by (simp add: hs_stored_def)
  ultimately show ?thesis
    using delivered_message_persisted [of demo_app "\<lparr>wcClients = [1], wcMessages = [], wcPending = [], wcToken = ''t'', wcSent = []\<rparr>"
        "''data''" "''k''" demo_world "''QmB''" "[]" "''hi''"] u plain_aead_correct demo_rand_ok
    by (auto simp: demo_env_simps)
qed

end
