(* ===== verification/Conversation.thy ===== *)
theory Conversation
  imports Node_Invariant
begin

text \<open>
  Two nodes talking: what one node's \<open>sendChat\<close> puts on the stream, read line by line by the other
  node's \<open>readLoop\<close>. The theorem spans all layers: sequence numbers, JSON envelope, validation,
  encryption and replay window, framing, decoding and in-order delivery.
\<close>

section \<open>Lines\<close>

lemma graphic_ascii: "list_all graphic s \<Longrightarrow> to_valid s = s"
  by (rule to_valid_ascii) (auto simp: list_all_iff graphic_def)

lemma sealed_packet_graphic: "list_all graphic (sealed_packet A k d c m)"
  using std_encode_graphic by (simp add: sealed_packet_def) (simp add: graphic_def)

lemma sealed_packet_not_Nil: "sealed_packet A k d c m \<noteq> []"
  by (simp add: sealed_packet_def)

lemma trim_packet: "TrimSpace (sealed_packet A k d c m @ [CHR 0x0A]) = sealed_packet A k d c m"
  by (rule TrimSpace_line [OF sealed_packet_not_Nil sealed_packet_graphic])

lemma conversationID_graphic: "list_all graphic (conversationID E a b)"
  by (simp add: conversationID_def Let_def raw_url_encode_graphic)

lemma conversationID_len: "length (conversationID E a b) = 22"
  by (simp add: conversationID_def Let_def raw_url_encode_length)

section \<open>Sending one message\<close>

text \<open>A node on which nothing fails: clock within range and not running backwards, random bytes, writes.\<close>

definition healthy :: "env \<Rightarrow> bool" where
  "healthy E \<longleftrightarrow>
     aead_correct (aead E) \<and> (\<forall>t. write_ok E t) \<and> (\<forall>t n. \<exists>raw. rand_read E t n = Some raw \<and> length raw = n) \<and>
     (\<forall>t. 0 < now_ms E t \<and> now_ms E t < 2 ^ 63 \<and> now_ns E t \<le> now_ns E (Suc t))"

definition good_name :: "string \<Rightarrow> bool" where
  "good_name n \<longleftrightarrow> n \<noteq> [] \<and> length n \<le> 128 \<and> to_valid n = n"

definition good_text :: "string \<Rightarrow> bool" where
  "good_text t \<longleftrightarrow> TrimSpace (to_valid t) \<noteq> [] \<and> length (chatBody t) \<le> 49152"

lemma healthy_mono: "healthy E \<Longrightarrow> now_ms E t \<le> now_ms E (Suc t)"
  by (simp add: healthy_def now_ms_def zdiv_mono1)

definition chat_envelope :: "string \<Rightarrow> string \<Rightarrow> string \<Rightarrow> int \<Rightarrow> u64 \<Rightarrow> string \<Rightarrow> Envelope" where
  "chat_envelope ident conv sender ts q text =
     \<lparr>eVersion = 2, eType = TypeChat, eID = ident, eConversation = conv, eSender = sender,
      eTimestamp = ts, eSequence = q, eBody = chatBody text\<rparr>"

lemma settled_inner_chat: "settled inner_nesting (chatBody text)"
proof -
  have "inner_nesting = Suc (inner_nesting - 1)" by (simp add: inner_nesting_def max_nesting_def)
  then show ?thesis using settled_chatBody(1) by metis
qed

lemma chat_envelope_good:
  assumes "ident \<noteq> []" "length ident \<le> 128" "list_all graphic ident" "conv \<noteq> []" "length conv \<le> 128"
    "list_all graphic conv" "good_name sender" "0 < ts" "ts < 2 ^ 63" "ts \<le> now + 300000" "q \<noteq> 0" "good_text text"
  shows "v2_rules now (chat_envelope ident conv sender ts q text)" "wire_exact (chat_envelope ident conv sender ts q text)"
proof -
  have "json_Valid (chatBody text)" using settled_valid settled_chatBody(1) [of inner_nesting] by (simp add: Suc_inner)
  then show "v2_rules now (chat_envelope ident conv sender ts q text)"
    using assms by (cases ident) (auto simp: v2_rules_def chat_envelope_def Valid_def good_name_def good_text_def word_neq_0_conv)
  show "wire_exact (chat_envelope ident conv sender ts q text)"
    using assms settled_inner_chat
    by (simp add: wire_exact_def chat_envelope_def good_name_def graphic_ascii TypeChat_def to_valid_ascii)
qed

lemma newEnvelope_chat:
  assumes "v2_rules now' (chat_envelope (raw_url_encode raw) conv sender now q text)"
  shows "newEnvelope (Some raw) now now' TypeChat conv sender q (Some (Some (chatBody text)))
    = Inr (chat_envelope (raw_url_encode raw) conv sender now q text)"
proof -
  have "Validate now' (Some (chat_envelope (raw_url_encode raw) conv sender now q text)) = None"
    using assms by (simp add: Validate_None_iff)
  then show ?thesis by (simp add: newEnvelope_def NewID_def Let_def Version_def chat_envelope_def)
qed

text \<open>What a send over a healthy connection does.\<close>

lemma sendChat_sends:
  assumes h: "healthy E" and nd: "node s = Some local" and c: "mlookup (streams s) p = Some st" "mlookup (sessions s) p = Some ses"
    and k: "sendAEAD ses = Some k" and q: "mget 0 (sendSeq s) p + 1 \<noteq> 0" and name: "good_name (peer_String E local)"
    and tx: "good_text text"
  obtains ident t0 t1 s' where "t0 \<le> t1"
    "v2_rules (now_ms E t1) (chat_envelope ident (conversationID E local p) (peer_String E local) (now_ms E t0) (mget 0 (sendSeq s) p + 1) text)"
    "wire_exact (chat_envelope ident (conversationID E local p) (peer_String E local) (now_ms E t0) (mget 0 (sendSeq s) p + 1) text)"
    "sendChat E p text s = (s', Inr (chat_envelope ident (conversationID E local p) (peer_String E local) (now_ms E t0) (mget 0 (sendSeq s) p + 1) text))"
    "out s' = out s @ [Wire st (sealed_packet (aead E) k (sendDir ses) (sendCtr ses + 1) (json_object (envelope_members
       (chat_envelope ident (conversationID E local p) (peer_String E local) (now_ms E t0) (mget 0 (sendSeq s) p + 1) text))) @ [CHR 0x0A])]"
    "node s' = Some local" "streams s' = streams s" "mlookup (sessions s') p = Some (ses\<lparr>sendCtr := sendCtr ses + 1\<rparr>)"
    "mget 0 (sendSeq s') p = mget 0 (sendSeq s) p + 1"
proof -
  let ?q = "mget 0 (sendSeq s) p + 1" and ?t = "tick s"
  obtain raw where raw: "rand_read E ?t 16 = Some raw" "length raw = 16" using h unfolding healthy_def by metis
  let ?e = "chat_envelope (raw_url_encode raw) (conversationID E local p) (peer_String E local) (now_ms E ?t) ?q text"
  have len: "length (raw_url_encode raw) = 22" using raw by (simp add: raw_url_encode_length)
  have m: "now_ms E ?t \<le> now_ms E (Suc ?t)" "now_ms E ?t \<le> now_ms E (Suc (Suc (Suc ?t)))"
    using healthy_mono [OF h, of ?t] healthy_mono [OF h, of "Suc ?t"] healthy_mono [OF h, of "Suc (Suc ?t)"] by simp_all
  have good: "v2_rules now ?e" "wire_exact ?e" if "now_ms E ?t \<le> now + 300000" for now
  proof -
    have "raw_url_encode raw \<noteq> []" "conversationID E local p \<noteq> []"
      using len conversationID_len [of E local p] by auto
    then show "v2_rules now ?e" "wire_exact ?e"
      using that h q name tx len
      by (auto intro!: chat_envelope_good simp: raw_url_encode_graphic conversationID_graphic conversationID_len healthy_def)
  qed
  let ?s1 = "s\<lparr>sendSeq := mput p ?q (sendSeq s)\<rparr>"
  have b: "newChatEnvelope E p ?q text ?s1 = (ticked (ticked ?s1), Inr ?e)"
    using nd raw newEnvelope_chat [OF good(1)] m(1) by (simp add: newChatEnvelope_def build_envelope_def)
  let ?s2 = "trackPending E p ?e (ticked (ticked ?s1))"
  have t2: "tick ?s2 = Suc (Suc (Suc ?t))" by (simp add: trackPending_def ticked_def Let_def)
  have w: "write_ok E (Suc (tick ?s2))" using h by (simp add: healthy_def)
  have v: "v2_rules (now_ms E (tick ?s2)) ?e" unfolding t2 using good(1) m(2) by simp
  have wx: "wire_exact ?e" using good(2) [of "now_ms E ?t"] by simp
  note send = sendEnvelope_ok [OF v wx k w, of p st]
  define s' where "s' = fst (sendEnvelope E p st ses ?e ?s2)"
  have r: "sendEnvelope E p st ses ?e ?s2 = (s', None)" unfolding s'_def send by simp
  have s': "out s' = out s @ [Wire st (sealed_packet (aead E) k (sendDir ses) (sendCtr ses + 1) (json_object (envelope_members ?e)) @ [CHR 0x0A])]"
    "node s' = Some local" "streams s' = streams s" "mlookup (sessions s') p = Some (ses\<lparr>sendCtr := sendCtr ses + 1\<rparr>)"
    "mget 0 (sendSeq s') p = ?q"
    unfolding s'_def send fst_conv by (simp_all add: emit_def trackPending_def ticked_def Let_def gomap_simps nd)
  show thesis
  proof (rule that [of ?t "Suc (Suc (Suc ?t))" "raw_url_encode raw" s'])
    show "sendChat E p text s = (s', Inr ?e)" using c b r by (simp add: sendChat_def Let_def)
  qed (use wx v t2 s' in simp_all)
qed

section \<open>Receiving one message\<close>

lemma sendAck_session:
  assumes "mlookup (sessions s) p = Some ses"
  shows "\<exists>c. mlookup (sessions (fst (sendAck E p i s))) p = Some (ses\<lparr>sendCtr := c\<rparr>)"
proof -
  have self: "\<exists>c. ses = ses\<lparr>sendCtr := c\<rparr>" by (rule exI [of _ "sendCtr ses"]) simp
  have enc: "\<exists>c. fst (Encrypt A ses m) = ses\<lparr>sendCtr := c\<rparr>" for A m
    using self by (cases "sendAEAD ses") (auto simp: Encrypt_def Let_def)
  have send: "\<exists>c. mlookup (sessions (fst (sendEnvelope E p st ses e t))) p = Some (ses\<lparr>sendCtr := c\<rparr>)"
    if "mlookup (sessions t) p = Some ses" for st e t
  proof (cases "Encode (now_ms E (tick t)) (Some e)")
    case (Inl err)
    then show ?thesis using that self by (simp add: sendEnvelope_def ticked_def)
  next
    case (Inr enc')
    obtain ses' r where x: "Encrypt (aead E) ses enc' = (ses', r)" by (cases "Encrypt (aead E) ses enc'")
    then obtain c where "ses' = ses\<lparr>sendCtr := c\<rparr>" using enc [of "aead E" enc'] by auto
    then show ?thesis using Inr x
      by (cases r) (auto simp: sendEnvelope_def Let_def ticked_def emit_def gomap_simps)
  qed
  obtain s1 r where b: "newAckEnvelope E p i s = (s1, r)" by (cases "newAckEnvelope E p i s")
  then have s1: "sessions s1 = sessions s"
    by (auto simp: newAckEnvelope_def build_envelope_def ticked_def split: option.splits)
  show ?thesis
    using assms b s1 send self
    by (cases r; cases "mlookup (streams s) p") (simp_all add: sendAck_def sendBuilt_def)
qed

lemma ack_or_print_session:
  assumes "mlookup (sessions s) p = Some ses"
  shows "\<exists>c. mlookup (sessions (ack_or_print E p i s)) p = Some (ses\<lparr>sendCtr := c\<rparr>)"
  using sendAck_session [OF assms, of E i]
  by (cases "sendAck E p i s") (auto simp: ack_or_print_def emit_def split: option.split)

lemma drain_empty: "mget [] (recvBuffer s) p = [] \<Longrightarrow> drainReceiveBuffer E p s = s"
  by (subst drainReceiveBuffer.simps) (simp add: drain_step_def Let_def gomap_simps)

text \<open>The next line of a peer whose messages so far have all been delivered.\<close>

lemma receive_line:
  assumes nd: "node s = Some local" and se: "mlookup (sessions s) p = Some ses" and key: "recvAEAD ses = Some k" "recvDir ses = d"
    and cor: "aead_correct (aead E)" and acc: "snd (acceptCounter ses c)"
    and e: "e = chat_envelope ident (conversationID E local p) (peer_String E p) ts (mget 0 (recvSeq s) p + 1) text"
    and rules: "v2_rules (now_ms E (tick s)) e" "wire_exact e" and tx: "good_text text"
    and buf: "mget [] (recvBuffer s) p = []" and q: "mget 0 (recvSeq s) p < mget 0 (recvSeq s) p + 1"
  obtains s' ctr where
    "readLoop_line E p (sealed_packet (aead E) k d c (json_object (envelope_members e)) @ [CHR 0x0A]) s = Some s'"
    "delivered E p s' = delivered E p s @ [to_valid text]" "node s' = Some local"
    "mlookup (sessions s') p = Some ((fst (acceptCounter ses c))\<lparr>sendCtr := ctr\<rparr>)"
    "mget 0 (recvSeq s') p = mget 0 (recvSeq s) p + 1" "mget [] (recvBuffer s') p = []"
proof -
  let ?ses = "fst (acceptCounter ses c)"
  let ?s1 = "ticked (s\<lparr>sessions := mput p ?ses (sessions s)\<rparr>)"
  let ?q = "mget 0 (recvSeq s) p + 1"
  let ?s2 = "ack_or_print E p ident (deliverChat E p (to_valid text) (?s1\<lparr>recvSeq := mput p ?q (recvSeq ?s1)\<rparr>))"
  have dec: "Decode (now_ms E (tick s)) (json_object (envelope_members e)) = Inr e" using rules by (rule Decode_exact)
  have "unmarshal_chat (eBody e) = Some (to_valid text)" "TrimSpace (to_valid text) \<noteq> []"
    using tx by (simp_all add: e chat_envelope_def unmarshal_chatBody good_text_def)
  then have "handleEnvelope E p e ?s1 = handleChat E p e (to_valid text) ?s1"
    using nd by (simp add: handleEnvelope_def e chat_envelope_def ticked_def)
  also have "\<dots> = drainReceiveBuffer E p ?s2"
    using q by (simp add: handleChat_def Let_def e chat_envelope_def) (simp add: ticked_def)
  also have "\<dots> = ?s2" using buf by (intro drain_empty) (simp add: ticked_def)
  finally have "readLoop_line E p (sealed_packet (aead E) k d c (json_object (envelope_members e)) @ [CHR 0x0A]) s = Some ?s2"
    using se key acc dec Decrypt_sealed [OF cor key(1), of d c "json_object (envelope_members e)"]
    by (simp add: readLoop_line_def trim_packet Let_def)
  moreover have "delivered E p ?s2 = delivered E p s @ [to_valid text]"
    by (simp add: delivered_deliver) (simp add: delivered_def)
  moreover have "node ?s2 = Some local"
    using nd recv_frame_fields(5) [OF recv_frame_trans [OF recv_frame_deliver recv_frame_ack]] by (simp add: ticked_def)
  moreover obtain ctr where "mlookup (sessions ?s2) p = Some (?ses\<lparr>sendCtr := ctr\<rparr>)"
    using ack_or_print_session [of "deliverChat E p (to_valid text) (?s1\<lparr>recvSeq := mput p ?q (recvSeq ?s1)\<rparr>)" p ?ses E ident]
    by (auto simp: deliverChat_def Let_def split_def emit_def ticked_def gomap_simps)
  moreover have "mget 0 (recvSeq ?s2) p = ?q" "mget [] (recvBuffer ?s2) p = []"
    using buf by (simp_all add: gomap_simps) (simp_all add: ticked_def)
  ultimately show thesis by (rule that)
qed

section \<open>Two nodes\<close>

fun send_texts :: "env \<Rightarrow> pid \<Rightarrow> string list \<Rightarrow> stream_manager \<Rightarrow> stream_manager" where
  "send_texts E p [] s = s"
| "send_texts E p (t # ts) s = send_texts E p ts (fst (sendChat E p t s))"

fun read_lines :: "env \<Rightarrow> pid \<Rightarrow> string list \<Rightarrow> stream_manager \<Rightarrow> stream_manager option" where
  "read_lines E p [] s = Some s"
| "read_lines E p (l # ls) s = Option.bind (readLoop_line E p l s) (read_lines E p ls)"

text \<open>The bytes written to a stream.\<close>

definition written :: "nat \<Rightarrow> event \<Rightarrow> bytes list" where
  "written st ev = (case ev of Wire st' b \<Rightarrow> if st' = st then [b] else [] | _ \<Rightarrow> [])"

definition lines_on :: "nat \<Rightarrow> stream_manager \<Rightarrow> string list" where
  "lines_on st s = concat (map (written st) (out s))"

text \<open>
  A sender \<open>a\<close> on node \<open>A\<close> and a receiver \<open>b\<close> on node \<open>B\<close> joined by a connection with room for \<open>n\<close>
  more messages: both healthy, the same ciphers and names, clocks at most five minutes apart,
  sessions in step, the receiver up to date with the sender's numbers.
\<close>

definition linked :: "env \<Rightarrow> pid \<Rightarrow> nat \<Rightarrow> stream_manager \<Rightarrow> env \<Rightarrow> pid \<Rightarrow> stream_manager \<Rightarrow> nat \<Rightarrow> bool" where
  "linked EA A st a EB B b n \<longleftrightarrow>
     healthy EA \<and> healthy EB \<and> aead EA = aead EB \<and> peer_String EA = peer_String EB \<and>
     good_name (peer_String EA A) \<and> (\<forall>t t'. now_ms EA t \<le> now_ms EB t' + 300000) \<and>
     node a = Some A \<and> node b = Some B \<and> mlookup (streams a) B = Some st \<and>
     (\<exists>sa sb. mlookup (sessions a) B = Some sa \<and> mlookup (sessions b) A = Some sb \<and> synced (aead EA) n sa sb) \<and>
     mget 0 (recvSeq b) A = mget 0 (sendSeq a) B \<and> unat (mget 0 (sendSeq a) B) + n < 2 ^ 64 \<and>
     mget [] (recvBuffer b) A = []"

lemma synced_step:
  assumes s: "synced A (Suc n) sa sb"
  shows "snd (acceptCounter sb (sendCtr sa + 1))"
    "synced A n (sa\<lparr>sendCtr := sendCtr sa + 1\<rparr>) ((fst (acceptCounter sb (sendCtr sa + 1)))\<lparr>sendCtr := c\<rparr>)"
proof -
  have u: "unat (sendCtr sa + 1) = unat (sendCtr sa) + 1" using s by (intro unat_succ) (simp add: synced_def)
  then have j: "unat (recvMax sb) < unat (sendCtr sa + 1)" using s by (simp add: synced_def)
  show "snd (acceptCounter sb (sendCtr sa + 1))" by (rule acceptCounter_jump(1) [OF j])
  show "synced A n (sa\<lparr>sendCtr := sendCtr sa + 1\<rparr>) ((fst (acceptCounter sb (sendCtr sa + 1)))\<lparr>sendCtr := c\<rparr>)"
    using s u by (simp add: synced_def acceptCounter_jump(2) [OF j] acceptCounter_other_fields)
qed

lemma conversationID_swap:
  "peer_String E = peer_String E' \<Longrightarrow> conversationID E a b = conversationID E' b a"
  by (simp add: conversationID_def Let_def sort_two_commute [of "peer_String E' a"] del: sort_key_simps)

lemma linked_step:
  assumes l: "linked EA A st a EB B b (Suc n)" and tx: "good_text text"
  obtains line b' where
    "out (fst (sendChat EA B text a)) = out a @ [Wire st line]" "readLoop_line EB A line b = Some b'"
    "delivered EB A b' = delivered EB A b @ [to_valid text]"
    "linked EA A st (fst (sendChat EA B text a)) EB B b' n"
proof -
  from l obtain sa sb where h: "healthy EA" "healthy EB" "aead EA = aead EB" "peer_String EA = peer_String EB"
    "good_name (peer_String EA A)" and clk: "\<And>t t'. now_ms EA t \<le> now_ms EB t' + 300000"
    and nd: "node a = Some A" "node b = Some B" and c: "mlookup (streams a) B = Some st" "mlookup (sessions a) B = Some sa"
      "mlookup (sessions b) A = Some sb" and syn: "synced (aead EA) (Suc n) sa sb"
    and q: "mget 0 (recvSeq b) A = mget 0 (sendSeq a) B" "unat (mget 0 (sendSeq a) B) + Suc n < 2 ^ 64"
    and buf: "mget [] (recvBuffer b) A = []" unfolding linked_def by blast
  obtain k where k: "sendAEAD sa = Some k" "recvAEAD sb = Some k" "recvDir sb = sendDir sa"
    using syn by (auto simp: synced_def)
  let ?q = "mget 0 (sendSeq a) B + 1"
  have uq: "unat ?q = unat (mget 0 (sendSeq a) B) + 1" using q(2) by (intro unat_succ) simp
  then have "?q \<noteq> 0" by auto
  from sendChat_sends [OF h(1) nd(1) c(1,2) k(1) this h(5) tx]
  obtain ident t0 t1 a' e where e: "e = chat_envelope ident (conversationID EA A B) (peer_String EA A) (now_ms EA t0) ?q text"
    and rules: "v2_rules (now_ms EA t1) e" "wire_exact e" and a': "sendChat EA B text a = (a', Inr e)"
      "out a' = out a @ [Wire st (sealed_packet (aead EA) k (sendDir sa) (sendCtr sa + 1) (json_object (envelope_members e)) @ [CHR 0x0A])]"
      "node a' = Some A" "streams a' = streams a" "mlookup (sessions a') B = Some (sa\<lparr>sendCtr := sendCtr sa + 1\<rparr>)"
      "mget 0 (sendSeq a') B = ?q" by metis
  have rulesB: "v2_rules (now_ms EB (tick b)) e"
    using rules(1) clk [of t0 "tick b"] by (auto simp: v2_rules_def e chat_envelope_def)
  have eB: "e = chat_envelope ident (conversationID EB B A) (peer_String EB A) (now_ms EA t0) (mget 0 (recvSeq b) A + 1) text"
    using e h(4) q(1) conversationID_swap [OF h(4), of A B] by simp
  have lt: "mget 0 (recvSeq b) A < mget 0 (recvSeq b) A + 1" using uq q(1) by (simp add: word_less_nat_alt)
  obtain b' ctr where b': "readLoop_line EB A (sealed_packet (aead EB) k (sendDir sa) (sendCtr sa + 1) (json_object (envelope_members e)) @ [CHR 0x0A]) b = Some b'"
      "delivered EB A b' = delivered EB A b @ [to_valid text]" "node b' = Some B"
      "mlookup (sessions b') A = Some ((fst (acceptCounter sb (sendCtr sa + 1)))\<lparr>sendCtr := ctr\<rparr>)"
      "mget 0 (recvSeq b') A = mget 0 (recvSeq b) A + 1" "mget [] (recvBuffer b') A = []"
    using receive_line [OF nd(2) c(3) k(2,3) _ synced_step(1) [OF syn] eB rulesB rules(2) tx buf lt] h(2)
    unfolding healthy_def by blast
  have "linked EA A st a' EB B b' n"
    using h clk a' b' c q uq synced_step(2) [OF syn] by (simp add: linked_def)
  then show thesis using that a' b'(1,2) h(3) by simp
qed

lemma conversation_run:
  assumes "linked EA A st a EB B b (length ts)" and "\<forall>t \<in> set ts. good_text t"
  shows "\<exists>ls b'. lines_on st (send_texts EA B ts a) = lines_on st a @ ls \<and> read_lines EB A ls b = Some b' \<and>
    delivered EB A b' = delivered EB A b @ map to_valid ts"
  using assms
proof (induction ts arbitrary: a b)
  case Nil
  then show ?case by simp
next
  case (Cons t ts)
  then have "linked EA A st a EB B b (Suc (length ts))" "good_text t" by simp_all
  from linked_step [OF this] obtain line b1 where 1: "out (fst (sendChat EA B t a)) = out a @ [Wire st line]"
    "readLoop_line EB A line b = Some b1" "delivered EB A b1 = delivered EB A b @ [to_valid t]"
    "linked EA A st (fst (sendChat EA B t a)) EB B b1 (length ts)" .
  have l: "lines_on st (fst (sendChat EA B t a)) = lines_on st a @ [line]"
    by (simp add: lines_on_def 1(1) written_def)
  from Cons.IH [OF 1(4)] Cons.prems(2) obtain ls b' where
    "lines_on st (send_texts EA B ts (fst (sendChat EA B t a))) = lines_on st (fst (sendChat EA B t a)) @ ls"
    "read_lines EB A ls b1 = Some b'" "delivered EB A b' = delivered EB A b1 @ map to_valid ts" by auto
  then show ?case using 1(2,3) l by (intro exI [of _ "line # ls"] exI [of _ b']) simp
qed

section \<open>Properties\<close>

text \<open>
  End to end: over a healthy connection, the texts one node sends, read line by line by the
  other node, are delivered to its user exactly once, in order and unchanged (up to the replacement
  of invalid UTF-8), whatever was delivered before. The path covered is \<open>sendChat\<close>, the JSON
  encoding and validation, encryption, the line framing, decryption with the replay window,
  decoding, and \<open>handleEnvelope\<close>; texts are those that are not blank and fit into an envelope.
\<close>

theorem end_to_end_delivery:
  assumes "linked EA A st a EB B b (length ts)" and "\<forall>t \<in> set ts. good_text t"
  shows "\<exists>ls b'. lines_on st (send_texts EA B ts a) = lines_on st a @ ls \<and> read_lines EB A ls b = Some b' \<and>
    delivered EB A b' = delivered EB A b @ map to_valid ts"
  using assms by (rule conversation_run)

text \<open>Two nodes A and B joined by the example sessions, the clock standing still.\<close>

definition still_env :: env where
  "still_env = demo_env\<lparr>now_ns := (\<lambda>t. 2000000000)\<rparr>"

definition demo_A :: stream_manager where
  "demo_A = (newStreamManager (Some ''A''))\<lparr>streams := [(''B'', 1)], sessions := [(''B'', low_session)]\<rparr>"

definition demo_B :: stream_manager where
  "demo_B = (newStreamManager (Some ''B''))\<lparr>streams := [(''A'', 1)], sessions := [(''A'', high_session)]\<rparr>"

lemma demo_linked: "linked still_env ''A'' 1 demo_A still_env ''B'' demo_B 2"
proof -
  have "healthy still_env"
    by (simp add: healthy_def still_env_def demo_env_def plain_aead_correct now_ms_def)
  moreover have "synced (aead still_env) 2 low_session high_session"
    using demo_synced by (simp add: synced_def still_env_def demo_env_def)
  ultimately show ?thesis
    by (simp add: linked_def demo_A_def demo_B_def newStreamManager_def mlookup_def gomap_simps good_name_def to_valid_ascii)
      (simp add: still_env_def demo_env_def now_ms_def to_valid_ascii)
qed

lemma good_text_ok: "list_all graphic t \<Longrightarrow> t \<noteq> [] \<Longrightarrow> length t \<le> 1000 \<Longrightarrow> good_text t"
  using json_quote_length [of t] json_member_length [of "''text''" "json_quote t"]
  by (simp add: good_text_def graphic_ascii TrimSpace_graphic chatBody_def json_object_def)

theorem end_to_end_delivery_witness:
  "\<exists>ls b'. lines_on 1 (send_texts still_env ''B'' [''hi'', ''there''] demo_A) = lines_on 1 demo_A @ ls \<and>
     read_lines still_env ''A'' ls demo_B = Some b' \<and> delivered still_env ''A'' b' = [''hi'', ''there'']"
proof -
  have g: "\<forall>t \<in> set [''hi'', ''there'']. good_text t" by (simp add: good_text_ok graphic_def)
  have l: "linked still_env ''A'' 1 demo_A still_env ''B'' demo_B (length [''hi'', ''there''])"
    using demo_linked by (simp add: numeral_2_eq_2)
  have "delivered still_env ''A'' demo_B = []" by (simp add: delivered_def demo_B_def newStreamManager_def)
  then show ?thesis using end_to_end_delivery [OF l g] by (simp add: to_valid_ascii)
qed

end
