(* ===== verification/Cli.thy ===== *)
theory Cli
  imports Web_Handlers Conversation
begin

text \<open>
  The terminal of \<open>main.go\<close>: the loop over the lines of standard input, the dispatch of commands
  and every command, with \<open>showSafetyNumber\<close> of \<open>verification.go\<close>.

  Printed lines are events of the stream manager, without the colour codes. The two test commands,
  which the code runs in goroutines that sleep between messages, run to their end at the call. A
  command that blocks on a full channel does not return: its value is \<open>None\<close>.
\<close>

section \<open>Reading numbers and lines\<close>

text \<open>
  \<open>fmt.Sscanf(arg, "%d", &num)\<close> on a word without white space: an optional sign and the longest run
  of decimal digits, within the range of \<open>int\<close>; what follows the digits is ignored. \<open>None\<close> is an
  error, which leaves \<open>num\<close> as it was.
\<close>

definition scan_int :: "string \<Rightarrow> int option" where
  "scan_int arg =
     (let neg = prefix ''-'' arg;
          body = (if neg \<or> prefix ''+'' arg then tl arg else arg)
      in case parse_nat (takeWhile is_digit body) of
           None \<Rightarrow> None
         | Some n \<Rightarrow>
             (let i = (if neg then - int n else int n)
              in if - (2 ^ 63) \<le> i \<and> i < 2 ^ 63 then Some i else None))"

text \<open>The commands that ignore the error of \<open>Sscanf\<close> read 0 then.\<close>

definition scan_num :: "string \<Rightarrow> int" where
  "scan_num arg = (case scan_int arg of None \<Rightarrow> 0 | Some i \<Rightarrow> i)"

text \<open>
  \<open>bufio.Scanner\<close> on standard input: the lines without their end (\<open>\n\<close> or \<open>\r\n\<close>); a line of 65536
  bytes or more stops the scanner with an error.
\<close>

definition drop_cr :: "string \<Rightarrow> string" where
  "drop_cr line = (if line \<noteq> [] \<and> last line = CHR 0x0D then butlast line else line)"

fun scan_tokens :: "string list \<Rightarrow> string list \<times> bool" where
  "scan_tokens [] = ([], False)"
| "scan_tokens (l # ls) =
     (if length l \<ge> 65536 then ([], True)
      else if ls = [] \<and> l = [] then ([], False)
      else (case scan_tokens ls of (ts, e) \<Rightarrow> (drop_cr l # ts, e)))"

definition scan_lines :: "bytes \<Rightarrow> string list \<times> bool" where
  "scan_lines stdin = scan_tokens (split_char (CHR 0x0A) stdin)"

text \<open>
  \<open>strings.ToLower\<close>, as far as the comparison with an ASCII word depends on it: the ASCII letters and
  the two other runes with an ASCII lower case, U+0130 and U+212A.
\<close>

fun to_lower :: "string \<Rightarrow> string" where
  "to_lower s =
     (case s of
        [] \<Rightarrow> []
      | c # cs \<Rightarrow>
          if prefix [CHR 0xC4, CHR 0xB0] s then CHR ''i'' # to_lower (drop 2 s)
          else if prefix [CHR 0xE2, CHR 0x84, CHR 0xAA] s then CHR ''k'' # to_lower (drop 3 s)
          else (if 65 \<le> bv c \<and> bv c \<le> 90 then char_of (bv c + 32) else c) # to_lower cs)"

declare to_lower.simps [simp del]

section \<open>Peers and tests\<close>

definition says :: "string list \<Rightarrow> stream_manager \<Rightarrow> stream_manager" where
  "says ls s = fold say ls s"

definition ap_say :: "string \<Rightarrow> app \<Rightarrow> app" where
  "ap_say l a = a\<lparr>ap_sm := say l (ap_sm a)\<rparr>"

definition quoted :: "string \<Rightarrow> string" where
  "quoted x = CHR 0x22 # x @ [CHR 0x22]"

definition usage :: "string \<Rightarrow> string" where
  "usage x = ''Usage: '' @ CHR 0x27 # x @ [CHR 0x27]"

definition rule_line :: string where
  "rule_line = ''-------------------''"

definition peer_line :: "env \<Rightarrow> stream_manager \<Rightarrow> nat \<times> pid \<Rightarrow> string" where
  "peer_line E s ip =
     (case (ip, displayName E (snd ip) s) of
        ((i, p), nick, short) \<Rightarrow>
          (if p = activeID s then ''>'' else '' '') @ '' ['' @ dec_nat i @ ''] ''
            @ (if nick \<noteq> [] then nick @ '' ['' @ short @ '']'' else short))"

definition listPeers :: "env \<Rightarrow> stream_manager \<Rightarrow> stream_manager" where
  "listPeers E s =
     (let peers = getSortedPeers E s in
      if length peers = 0 then say ''No connected peers'' s
      else says ([''Connected Peers'', rule_line]
             @ map (peer_line E s) (zip [1..<Suc (length peers)] peers)
             @ [rule_line, ''Use /switch <number> to change active peer'']) s)"

text \<open>
  \<open>switchPeer\<close> holds the lock twice: while it lists the peers and while it assigns the active one.
  \<open>switch_target\<close> and \<open>switch_active\<close> are the two parts; \<open>switchPeer\<close> is the call in which no other
  goroutine comes between them, \<open>switch_races_forget\<close> below one where the read loop of the peer does.
\<close>

definition switch_target :: "env \<Rightarrow> string \<Rightarrow> stream_manager \<Rightarrow> pid option" where
  "switch_target E arg s =
     (let peers = getSortedPeers E s in
      case scan_int arg of
        None \<Rightarrow> None
      | Some num \<Rightarrow> if num < 1 \<or> num > int (length peers) then None else Some (peers ! nat (num - 1)))"

definition switch_active :: "env \<Rightarrow> pid \<Rightarrow> stream_manager \<Rightarrow> stream_manager" where
  "switch_active E p s =
     (let s1 = s\<lparr>activeID := p\<rparr>;
          (nick, short) = displayName E (activeID s1) s1
      in say (''Switched to peer: '' @ (if nick \<noteq> [] then ''['' @ nick @ ''] ['' @ short @ '']'' else ''['' @ short @ '']''))
           s1)"

definition switchPeer :: "env \<Rightarrow> string \<Rightarrow> stream_manager \<Rightarrow> stream_manager" where
  "switchPeer E arg s =
     (case switch_target E arg s of
        None \<Rightarrow> say ''Invalid peer number'' s
      | Some p \<Rightarrow> switch_active E p s)"

definition showHelp :: "stream_manager \<Rightarrow> stream_manager" where
  "showHelp = says
     [''Available Commands:'',
      ''----------------------'',
      ''/list               - Show all connected peers'',
      ''/switch <number>    - Switch active peer'',
      ''/connect <addr>     - Connect to a new peer'',
      ''/disconnect          - Disconnect from active peer'',
      ''/discover           - Discover peers on the network'',
      ''/accept <number>    - Accept a connection request'',
      ''/reject <number>    - Reject a connection request'',
      ''/peers               - List saved peers'',
      ''/save <peerid> <nick>  - Save a peer with custom nick'',
      ''/rename <number> <nick> - Rename a saved peer'',
      ''/remove <number>     - Remove a saved peer'',
      ''/verify [ok|remove] - Show or set contact verification'',
      ''/help               - Show this help message'',
      ''----------------------'',
      ''Type any message (without /) to send to active peer'']"

text \<open>The loop of \<open>runLatencyTest\<close>, with the number of messages still to send.\<close>

fun latency_pings :: "env \<Rightarrow> pid \<Rightarrow> string \<Rightarrow> nat \<Rightarrow> stream_manager \<Rightarrow> stream_manager \<times> send_error option" where
  "latency_pings E p body 0 s = (s, None)"
| "latency_pings E p body (Suc n) s =
     (case sendControl E p (control_zero\<lparr>cbKind := controlLatencyPing, cbTimestamp := now_ms E (tick s),
              cbPayload := body\<rparr>) (ticked s) of
        (s1, Some err) \<Rightarrow> (s1, Some err)
      | (s1, None) \<Rightarrow> latency_pings E p body n s1)"

definition latency_body :: "string \<Rightarrow> string option" where
  "latency_body sz =
     (if sz = ''small'' then Some (replicate 10 (CHR ''a''))
      else if sz = ''medium'' then Some (replicate 100 (CHR ''a''))
      else if sz = ''large'' then Some (replicate 1000 (CHR ''a''))
      else None)"

definition runLatencyTest :: "env \<Rightarrow> (send_error \<Rightarrow> string) \<Rightarrow> string \<Rightarrow> stream_manager \<Rightarrow> stream_manager" where
  "runLatencyTest E err_text sz s =
     (if activeID s = [] then say ''No active peer for latency test'' s
      else (case latency_body sz of
         None \<Rightarrow> say ''Unknown size. Use: small, medium, large'' s
       | Some body \<Rightarrow>
           (case latency_pings E (activeID s) body 100
                   (say (''Starting latency test ['' @ sz @ ''] - 100 messages...'') s) of
              (s1, Some err) \<Rightarrow> say (''Latency test stopped: '' @ err_text err) s1
            | (s1, None) \<Rightarrow> say (''Latency test ['' @ sz @ ''] complete.'') s1)))"

text \<open>The loop of one goroutine of \<open>runConcurrentTest\<close>, from index \<open>i\<close>; an error ends it silently.\<close>

fun concurrent_sends :: "env \<Rightarrow> pid \<Rightarrow> string \<Rightarrow> int list \<Rightarrow> stream_manager \<Rightarrow> stream_manager" where
  "concurrent_sends E p nick [] s = s"
| "concurrent_sends E p nick (i # is) s =
     (case sendControl E p (control_zero\<lparr>cbKind := controlConcurrentTest, cbName := nick, cbIndex := i\<rparr>) s of
        (s1, Some err) \<Rightarrow> s1
      | (s1, None) \<Rightarrow> concurrent_sends E p nick is s1)"

definition runConcurrentTest :: "env \<Rightarrow> stream_manager \<Rightarrow> stream_manager" where
  "runConcurrentTest E s =
     (let peers = map fst (streams s) in
      if length peers = 0 then say ''No connected peers for concurrent test'' s
      else
        say (''Concurrent test complete. Sent '' @ dec_nat (length peers * 20) @ '' total messages.'')
          (fold (\<lambda>p s. concurrent_sends E p (fst (displayName E p s)) [1..20] s) peers
            (say (''Starting concurrent test - '' @ dec_nat (length peers) @ '' peers, 20 messages each...'') s)))"

section \<open>Saved peers, discovery and verification\<close>

text \<open>
  The line of a discovered peer carries the milliseconds since the search began, so each line reads
  the clock.
\<close>

fun discovered_lines :: "env \<Rightarrow> int \<Rightarrow> nat \<Rightarrow> DiscoveredPeer list \<Rightarrow> stream_manager \<Rightarrow> stream_manager" where
  "discovered_lines E start n [] s = s"
| "discovered_lines E start n (p # ps) s =
     discovered_lines E start (Suc n) ps
       (if dp_Addrs p \<noteq> []
        then say (''['' @ dec_nat (Suc n) @ ''] '' @ peer_address E p @ '' - in ''
                    @ dec_int ((now_ns E (tick s) - start) div 1000000) @ ''ms'') (ticked s)
        else s)"

definition discoverPeers :: "env \<Rightarrow> dht_lib option \<Rightarrow> stream_manager \<Rightarrow> stream_manager" where
  "discoverPeers E dht s =
     (case dht of
        None \<Rightarrow> say ''DHT not initialized'' s
      | Some D \<Rightarrow>
          (let s1 = say ''Discovering peers on the network... Threshold is '5' seconds'' s in
           case DiscoverPeers D DefaultNamespace of
             Inl err \<Rightarrow> say (''Discovery failed: '' @ err) s1
           | Inr found \<Rightarrow>
               (let s2 = says [''Discovered Peers:'', rule_line] (ticked s1);
                    s3 = say rule_line (discovered_lines E (now_ns E (tick s1)) 0 found s2)
                in if length found = 0
                   then say ''No peers found. Make sure other instances are running and advertising.'' s3
                   else say (''Found '' @ dec_nat (length found) @ '' peers. Use '/connect <address>' to connect.'') s3)))"

definition saved_line :: "nat \<times> TrustedPeer \<Rightarrow> string" where
  "saved_line ip = ''['' @ dec_nat (fst ip) @ ''] '' @ quoted (tpNickname (snd ip)) @ '' ['' @ last8 (tpPeerID (snd ip)) @ '']''"

definition listSavedPeers :: "world \<Rightarrow> app \<Rightarrow> app" where
  "listSavedPeers W a =
     (case ap_peers a of
        None \<Rightarrow> ap_say ''Peer store not available'' a
      | Some ps \<Rightarrow>
          (case with_disk (LoadPeers (w_os W) ps) a of
             (a1, Inl _) \<Rightarrow> ap_say ''No saved peers.'' a1
           | (a1, Inr peers) \<Rightarrow>
               if length peers = 0 then ap_say ''No saved peers.'' a1
               else fold ap_say ([''Saved Peers:'', rule_line]
                      @ map saved_line (zip [1..<Suc (length peers)] peers) @ [rule_line]) a1))"

definition savePeer :: "world \<Rightarrow> string \<Rightarrow> string \<Rightarrow> app \<Rightarrow> app" where
  "savePeer W peerID customNick a =
     (case ap_peers a of
        None \<Rightarrow> ap_say ''Peer store not available'' a
      | Some ps \<Rightarrow>
          (case peer_Decode (w_env W) peerID of
             None \<Rightarrow> ap_say ''Invalid peer ID'' a
           | Some pid2 \<Rightarrow>
               (let known = mget [] (peerNicks (ap_sm a)) pid2;
                    nick = (if customNick \<noteq> [] then customNick else if known \<noteq> [] then known else last8 peerID)
                in case with_disk (SavePeer (w_os W) ps peerID nick) a of
                     (a1, Inl err) \<Rightarrow> ap_say (''Failed to save peer: '' @ w_store_error W err) a1
                   | (a1, Inr _) \<Rightarrow>
                       NotifyTrustedPeersUpdate W (Some ps) (ap_say (''Saved '' @ quoted nick @ '' to trusted peers.'') a1))))"

definition renameSavedPeer :: "world \<Rightarrow> int \<Rightarrow> string \<Rightarrow> app \<Rightarrow> app" where
  "renameSavedPeer W num newNick a =
     (case ap_peers a of
        None \<Rightarrow> ap_say ''Peer store not available'' a
      | Some ps \<Rightarrow>
          (case with_disk (LoadPeers (w_os W) ps) a of
             (a1, Inl _) \<Rightarrow> ap_say (''No saved peer with number '' @ dec_int num) a1
           | (a1, Inr peers) \<Rightarrow>
               if num < 1 \<or> num > int (length peers) then ap_say (''No saved peer with number '' @ dec_int num) a1
               else (case with_disk (SavePeer (w_os W) ps (tpPeerID (peers ! nat (num - 1))) newNick) a1 of
                  (a2, Inl err) \<Rightarrow> ap_say (''Failed to rename: '' @ w_store_error W err) a2
                | (a2, Inr _) \<Rightarrow>
                    NotifyTrustedPeersUpdate W (Some ps) (ap_say (''Renamed to '' @ quoted newNick @ ''.'') a2))))"

definition removeSavedPeer :: "world \<Rightarrow> int \<Rightarrow> app \<Rightarrow> app" where
  "removeSavedPeer W num a =
     (case ap_peers a of
        None \<Rightarrow> ap_say ''Peer store not available'' a
      | Some ps \<Rightarrow>
          (case with_disk (RemovePeerByNum (w_os W) ps num) a of
             (a1, Inl err) \<Rightarrow> ap_say (w_store_error W err) a1
           | (a1, Inr removed) \<Rightarrow>
               NotifyTrustedPeersUpdate W (Some ps)
                 (ap_say (''Removed '' @ quoted (tpNickname removed) @ '' from saved peers.'') a1)))"

text \<open>The end of \<open>showSafetyNumber\<close>: the number and the status.\<close>

definition safety_report :: "string \<Rightarrow> string \<Rightarrow> string \<Rightarrow> bool \<Rightarrow> string list" where
  "safety_report display short number verified =
     [''Safety number for ['' @ display @ ''] ['' @ short @ '']:'', number,
      ''Status: '' @ (if verified then ''verified'' else ''not verified''),
      ''Compare this number with the peer over another channel.'',
      (if \<not> verified then ''Use '/verify ok' to mark this contact as verified.''
       else ''Use '/verify remove' to remove the marker.'')]"

text \<open>The two branches of \<open>showSafetyNumber\<close> that change the marker: the new status, \<open>None\<close> after an error.\<close>

definition change_marker :: "world \<Rightarrow> pid \<Rightarrow> bool \<Rightarrow> app \<Rightarrow> app \<times> bool option" where
  "change_marker W p verified a =
     (case ap_verif a of
        None \<Rightarrow> (ap_say ''Verification storage is not available.'' a, None)
      | Some v \<Rightarrow>
          (case with_disk (SetVerified (w_os W) v (peer_String (w_env W) p) verified) a of
             (a1, Inl err) \<Rightarrow>
               (ap_say ((if verified then ''Could not save verification: '' else ''Could not remove verification: '')
                          @ w_store_error W err) a1, None)
           | (a1, Inr _) \<Rightarrow> (NotifyVerifiedPeersUpdate W a1, Some verified)))"

definition current_marker :: "world \<Rightarrow> pid \<Rightarrow> app \<Rightarrow> app \<times> bool" where
  "current_marker W p a =
     (case ap_verif a of
        None \<Rightarrow> (a, False)
      | Some v \<Rightarrow> with_disk (IsVerified (w_os W) v (peer_String (w_env W) p)) a)"

definition verify_action :: "world \<Rightarrow> pid \<Rightarrow> string list \<Rightarrow> bool \<Rightarrow> app \<Rightarrow> app \<times> bool option" where
  "verify_action W p args verified a =
     (case args of
        [] \<Rightarrow> (a, Some verified)
      | arg # _ \<Rightarrow>
          if to_lower arg \<in> {''ok'', ''verify''} then change_marker W p True a
          else if to_lower arg \<in> {''remove'', ''clear''} then change_marker W p False a
          else (ap_say (usage ''/verify [ok|remove]'') a, None))"

definition showSafetyNumber :: "world \<Rightarrow> string list \<Rightarrow> app \<Rightarrow> app" where
  "showSafetyNumber W args a =
     (let E = w_env W; p = activeID (ap_sm a) in
      if p = [] then ap_say ''No active peer. Use '/switch <number>' first.'' a
      else (case safetyNumber E (ap_keys a) (case node (ap_sm a) of None \<Rightarrow> [] | Some n \<Rightarrow> n) p of
         Inl err \<Rightarrow> ap_say (''Could not compute the safety number: '' @ err) a
       | Inr number \<Rightarrow>
           (let (nick, short) = displayName E p (ap_sm a);
                display = (if nick \<noteq> [] then nick else short);
                (a1, verified) = current_marker W p a;
                (a2, status) = verify_action W p args verified a1
            in case status of
                 None \<Rightarrow> a2
               | Some st \<Rightarrow> fold ap_say (safety_report display short number st) a2)))"

section \<open>Commands and input\<close>

definition on_sm :: "world \<Rightarrow> (stream_manager \<Rightarrow> stream_manager) \<Rightarrow> app \<Rightarrow> app option" where
  "on_sm W f a = Some (lift_sm W f a)"

definition answer_request :: "world \<Rightarrow> bool \<Rightarrow> string \<Rightarrow> app \<Rightarrow> app option" where
  "answer_request W accepted arg a =
     (if scan_num arg = 0 then Some (ap_say ''Invalid request number'' a)
      else map_option (\<lambda>s. a\<lparr>ap_sm := s\<rparr>) (RespondToConnectionRequestByNum (scan_num arg) accepted (ap_sm a)))"

definition handleCommand :: "world \<Rightarrow> string \<Rightarrow> app \<Rightarrow> app option" where
  "handleCommand W cmd a =
     (case Fields cmd of
        [] \<Rightarrow> Some a
      | name # args \<Rightarrow>
          if name = ''/list'' then on_sm W (listPeers (w_env W)) a
          else if name = ''/switch'' then
            (if length args < 1 then Some (ap_say (usage ''/switch <peer_number>'') a)
             else on_sm W (switchPeer (w_env W) (args ! 0)) a)
          else if name = ''/connect'' then
            (if length args < 1 then Some (ap_say (usage ''/connect <multiaddr>'') a)
             else on_sm W (connectToPeer (w_env W) (w_net W) (args ! 0)) a)
          else if name = ''/disconnect'' then on_sm W (disconnectActivePeer (w_env W)) a
          else if name = ''/discover'' then on_sm W (discoverPeers (w_env W) (w_dht W)) a
          else if name = ''/accept'' then
            (if length args < 1 then Some (ap_say (usage ''/accept <number>'') a)
             else answer_request W True (args ! 0) a)
          else if name = ''/reject'' then
            (if length args < 1 then Some (ap_say (usage ''/reject <number>'') a)
             else answer_request W False (args ! 0) a)
          else if name = ''/peers'' then Some (listSavedPeers W a)
          else if name = ''/save'' then
            (if length args < 1 then Some (ap_say (usage ''/save <fullpeerid> <customnick>'') a)
             else Some (savePeer W (args ! 0) (if length args \<ge> 2 then args ! 1 else []) a))
          else if name = ''/rename'' then
            (if length args < 2 then Some (ap_say (usage ''/rename <number> <newnick>'') a)
             else if scan_num (args ! 0) = 0 then Some (ap_say ''Invalid number'' a)
             else Some (renameSavedPeer W (scan_num (args ! 0)) (args ! 1) a))
          else if name = ''/remove'' then
            (if length args < 1 then Some (ap_say (usage ''/remove <number>'') a)
             else if scan_num (args ! 0) = 0 then Some (ap_say ''Invalid number'' a)
             else Some (removeSavedPeer W (scan_num (args ! 0)) a))
          else if name = ''/verify'' then Some (showSafetyNumber W args a)
          else if name = ''/latencytest'' then
            (if length args < 1 then Some (ap_say (usage ''/latencytest <small|medium|large>'') a)
             else on_sm W (runLatencyTest (w_env W) (w_error_text W) (args ! 0)) a)
          else if name = ''/concurrenttest'' then on_sm W (runConcurrentTest (w_env W)) a
          else if name = ''/help'' then on_sm W showHelp a
          else Some (ap_say (''Unknown command <'' @ name @ ''>. '/help' for commands.'') a))"

text \<open>The message that \<open>HandleInput\<close> saves: identifier and time are those of the envelope.\<close>

definition own_msg :: "world \<Rightarrow> app \<Rightarrow> string \<Rightarrow> Envelope \<Rightarrow> StoredMsg" where
  "own_msg W a ct e =
     \<lparr>smID = eID e, smFrom = local_id W a, smFromName = localNick (ap_sm a), smContent = ct,
      smTimestamp = os_local (w_os W) (eTimestamp e), smIsOwn = True\<rparr>"

text \<open>One turn of the loop of \<open>HandleInput\<close>.\<close>

definition input_line :: "world \<Rightarrow> string \<Rightarrow> app \<Rightarrow> app option" where
  "input_line W ct a =
     (if ct \<noteq> [] \<and> hd ct = CHR ''/'' then handleCommand W ct a
      else
        (let E = w_env W; p = activeID (ap_sm a) in
         if p = [] then Some (ap_say ''No active peer, Use '/list' to see available connections.'' a)
         else
           (let r = snd (sendChat E p ct (ap_sm a));
                a1 = lift_sm W (\<lambda>s. fst (sendChat E p ct s)) a
            in case r of
                 Inl err \<Rightarrow> Some (lift_sm W (forgetPeer E p) (ap_say (''Error, message sending to peer: '' @ w_error_text W err) a1))
               | Inr e \<Rightarrow>
                   (let a2 = save_history W (peer_String E p) (own_msg W a1 ct e) a1
                    in Some (web_notify W (NotifyWebMessage (local_id W a2) (localNick (ap_sm a2)) ct True (peer_String E p) False)
                         a2)))))"

fun input_lines :: "world \<Rightarrow> string list \<Rightarrow> app \<Rightarrow> app option" where
  "input_lines W [] a = Some a"
| "input_lines W (l # ls) a = (case input_line W l a of None \<Rightarrow> None | Some a1 \<Rightarrow> input_lines W ls a1)"

definition HandleInput :: "world \<Rightarrow> bytes \<Rightarrow> app \<Rightarrow> app option" where
  "HandleInput W stdin a =
     (case scan_lines stdin of
        (ls, err) \<Rightarrow>
          map_option (\<lambda>b. if err then ap_say ''Input error: bufio.Scanner: token too long'' b else b)
            (input_lines W ls a))"

section \<open>The stream manager below the interfaces\<close>

text \<open>Notifications, disk access and the stores leave the stream manager alone.\<close>

named_theorems sm_of \<open>the stream manager after an operation of the application\<close>

lemma with_disk_sm [sm_of]: "ap_sm (fst (with_disk f a)) = ap_sm a"
  by (simp add: with_disk_def split: prod.split)

lemma with_disk_smD: "with_disk f a = (b, r) \<Longrightarrow> ap_sm b = ap_sm a"
  using with_disk_sm [of f a] by simp

lemma on_web_sm [sm_of]: "ap_sm (on_web f a) = ap_sm a"
  by (simp add: on_web_def)

lemma save_history_sm [sm_of]: "ap_sm (save_history W p m a) = ap_sm a"
  by (simp add: save_history_def sm_of split: option.split)

lemma addMessage_sm [sm_of]: "ap_sm (addMessage W f n c own conv ps a) = ap_sm a"
  by (simp add: addMessage_def Let_def sm_of)

lemma web_notify_sm [sm_of]: "ap_sm (web_notify W c a) = ap_sm a"
  by (cases c) (simp_all add: sm_of web_notify_defs web_connection_request_def Let_def)

lemma send_history_sm [sm_of]: "ap_sm (send_history W p a) = ap_sm a"
  by (auto simp: send_history_def NotifyPeerHistory_def split: option.split prod.split sum.split dest: with_disk_smD)

lemma web_event_sm [sm_of]: "ap_sm (web_event W ev a) = ap_sm a"
  by (simp add: web_event_def sm_of split: event.split)

lemma fold_sm: "(\<And>x b. ap_sm (f x b) = ap_sm b) \<Longrightarrow> ap_sm (fold f xs a) = ap_sm a"
  by (induction xs arbitrary: a) simp_all

lemma lift_sm_sm [sm_of]: "ap_sm (lift_sm W f a) = f (ap_sm a)"
  by (simp add: lift_sm_def Let_def fold_sm sm_of)

lemma trusted_sm [sm_of]: "ap_sm (NotifyTrustedPeersUpdate W ps a) = ap_sm a"
  by (auto simp: NotifyTrustedPeersUpdate_def split: option.split prod.split sum.split dest: with_disk_smD)

lemma verified_smD: "verifiedPeerIDs W a = (b, ids) \<Longrightarrow> ap_sm b = ap_sm a"
  by (auto simp: verifiedPeerIDs_def split: option.splits prod.splits sum.splits dest: with_disk_smD)

lemma broadcastVerified_sm [sm_of]: "ap_sm (broadcastVerifiedPeers W a) = ap_sm a"
  by (auto simp: broadcastVerifiedPeers_def split: prod.split dest: verified_smD)

lemma verified_update_sm [sm_of]: "ap_sm (NotifyVerifiedPeersUpdate W a) = ap_sm a"
  by (simp add: NotifyVerifiedPeersUpdate_def sm_of)

lemma sendVerification_sm [sm_of]: "ap_sm (sendVerification W p a) = ap_sm a"
  by (auto simp: sendVerification_def split: option.split prod.split sum.split dest: with_disk_smD)

lemma web_actions_sm [sm_of]:
  "ap_sm (ws_save_peer W p n a) = ap_sm a" "ap_sm (ws_remove_peer W p a) = ap_sm a"
  "ap_sm (ws_clear_history W p a) = ap_sm a" "ap_sm (ws_set_verification W p b a) = ap_sm a"
  by (auto simp: ws_save_peer_def ws_remove_peer_def ws_clear_history_def ws_set_verification_def Let_def sm_of
      split: option.split prod.split sum.split dest: with_disk_smD)

lemma handleDiscoverPeers_sm [sm_of]: "ap_sm (handleDiscoverPeers W a) = ap_sm a"
  by (simp add: handleDiscoverPeers_def Let_def fold_sm case_prod_beta split: option.split sum.split)

lemma sendMessageToPeer_sm [sm_of]:
  "ap_sm (sendMessageToPeer W p c a) =
     (case peer_Decode (w_env W) p of None \<Rightarrow> ap_sm a | Some q \<Rightarrow> fst (sendChat (w_env W) q c (ap_sm a)))"
  by (simp add: sendMessageToPeer_def Let_def web_error_def sm_of split: option.split sum.split)

lemma send_histories_sm [sm_of]: "ap_sm (send_histories W a) = ap_sm a"
  by (auto simp: send_histories_def fold_sm NotifyPeerHistory_def case_prod_beta sm_of split: option.split sum.split)

lemma sendInitialState_sm [sm_of]: "ap_sm (sendInitialState W c a) = ap_sm a"
  by (auto simp: sendInitialState_def Let_def sm_of fold_sm split: option.splits prod.splits dest!: verified_smD)

section \<open>The invariant under input\<close>

lemma say_ok: "sm_ok s \<Longrightarrow> sm_ok (say l s)"
  by (simp add: say_def emit_ok)

lemma says_ok: "sm_ok s \<Longrightarrow> sm_ok (says ls s)"
  unfolding says_def by (induction ls arbitrary: s) (simp_all add: say_ok)

lemma listPeers_ok: "sm_ok s \<Longrightarrow> sm_ok (listPeers E s)"
  by (simp add: listPeers_def Let_def say_ok says_ok)

lemma sorted_peers_connected: "sm_ok s \<Longrightarrow> set (getSortedPeers E s) = dom (mlookup (sessions s))"
  using mlookup_dom [of "streams s"] by (simp add: getSortedPeers_def sm_ok_def conn_ok_def)

lemma switchPeer_ok:
  assumes "sm_ok s"
  shows "sm_ok (switchPeer E arg s)"
proof -
  have "sm_ok (s\<lparr>activeID := getSortedPeers E s ! i\<rparr>)" if "i < length (getSortedPeers E s)" for i
    using assms nth_mem [OF that] sorted_peers_connected [OF assms, of E]
    by (auto simp: sm_ok_def conn_ok_def recv_ok_def recv_idle_def pend_ok_def)
  then show ?thesis
    using assms
    by (auto simp: switchPeer_def switch_target_def switch_active_def Let_def say_ok split: option.split prod.split if_splits)
qed

text \<open>
  When the peer is forgotten between the two parts, the active peer is one without a stream: the
  invariant of the node is broken until the next switch or connection.
\<close>

lemma switch_races_forget:
  assumes "switch_target E arg s = Some p" and "p \<noteq> []"
  shows "activeID (switch_active E p (forgetPeer E p s)) = p"
    "mlookup (streams (switch_active E p (forgetPeer E p s))) p = None"
    "\<not> sm_ok (switch_active E p (forgetPeer E p s))"
proof -
  have s: "activeID (switch_active E p t) = p" "streams (switch_active E p t) = streams t"
    "sessions (switch_active E p t) = sessions t" for t
    by (simp_all add: switch_active_def Let_def say_def emit_def split: prod.split)
  have f: "mlookup (streams (forgetPeer E p s)) p = None" "mlookup (sessions (forgetPeer E p s)) p = None"
    by (simp_all add: forgetPeer_def Let_def emit_def clearPending_def displayName_def gomap_simps)
  show "activeID (switch_active E p (forgetPeer E p s)) = p" by (rule s)
  show "mlookup (streams (switch_active E p (forgetPeer E p s))) p = None" using s f by simp
  show "\<not> sm_ok (switch_active E p (forgetPeer E p s))" using s f assms(2) by (simp add: sm_ok_def conn_ok_def domIff)
qed

lemma sendControl_ok: "sm_ok s \<Longrightarrow> sendControl E p b s = (s', r) \<Longrightarrow> sm_ok s'"
  using sm_step_ok [OF sm_step.send_control, of s E p b] by simp

lemma latency_pings_ok: "sm_ok s \<Longrightarrow> sm_ok (fst (latency_pings E p body n s))"
  by (induction n arbitrary: s) (auto simp: ticked_ok split: prod.split option.split dest: sendControl_ok [OF ticked_ok])

lemma runLatencyTest_ok: "sm_ok s \<Longrightarrow> sm_ok (runLatencyTest E f sz s)"
  using latency_pings_ok [OF say_ok]
  by (auto simp: runLatencyTest_def say_ok split: option.split prod.split dest: latency_pings_ok [OF say_ok])
     (metis fst_conv latency_pings_ok say_ok)+

lemma concurrent_sends_ok: "sm_ok s \<Longrightarrow> sm_ok (concurrent_sends E p nick is s)"
  by (induction "is" arbitrary: s) (auto split: prod.split option.split dest: sendControl_ok)

lemma fold_sm_ok: "(\<And>x s. sm_ok s \<Longrightarrow> sm_ok (f x s)) \<Longrightarrow> sm_ok s \<Longrightarrow> sm_ok (fold f xs s)"
  by (induction xs arbitrary: s) simp_all

lemma runConcurrentTest_ok: "sm_ok s \<Longrightarrow> sm_ok (runConcurrentTest E s)"
  by (simp add: runConcurrentTest_def Let_def say_ok fold_sm_ok concurrent_sends_ok)

lemma discovered_lines_ok: "sm_ok s \<Longrightarrow> sm_ok (discovered_lines E start n ps s)"
  by (induction ps arbitrary: n s) (simp_all add: say_ok ticked_ok)

lemma discoverPeers_ok: "sm_ok s \<Longrightarrow> sm_ok (discoverPeers E dht s)"
  by (simp add: discoverPeers_def Let_def say_ok says_ok ticked_ok discovered_lines_ok split: option.split sum.split)

lemma showHelp_ok: "sm_ok s \<Longrightarrow> sm_ok (showHelp s)"
  by (simp add: showHelp_def says_ok)

lemma connectToPeer_ok: "sm_ok s \<Longrightarrow> sm_ok (connectToPeer E N address s)"
  by (simp add: connectToPeer_def Let_def fail_with_def announce_connected_def say_ok emit_ok AddStream_ok split_def
      split: option.split)

lemma disconnect_ok: "sm_ok s \<Longrightarrow> sm_ok (disconnectActivePeer E s)" "sm_ok s \<Longrightarrow> sm_ok (disconnectSpecificPeer E p s)"
  by (simp_all add: disconnectActivePeer_def disconnectSpecificPeer_def disconnect_def Let_def say_ok emit_ok split_def
      split: option.split)

lemma ReconnectPeer_ok: "sm_ok s \<Longrightarrow> sm_ok (ReconnectPeer W p s)"
  by (simp add: ReconnectPeer_def reconnect_status_def Let_def emit_ok connectToPeer_ok split: option.split sum.split list.split)

lemma Respond_ok:
  "sm_ok s \<Longrightarrow> RespondToConnectionRequest E p b s = Some s' \<Longrightarrow> sm_ok s'"
  "sm_ok s \<Longrightarrow> RespondToConnectionRequestByNum n b s = Some s' \<Longrightarrow> sm_ok s'"
  using sm_step_ok [OF sm_step.respond] sm_step_ok [OF sm_step.respond_num] by blast+

lemma ap_say_sm [sm_of]: "ap_sm (ap_say l a) = say l (ap_sm a)"
  by (simp add: ap_say_def)

lemma fold_ap_say_ok: "sm_ok (ap_sm a) \<Longrightarrow> sm_ok (ap_sm (fold ap_say ls a))"
  by (induction ls arbitrary: a) (simp_all add: sm_of say_ok)

lemma saved_peer_commands_ok:
  assumes "sm_ok (ap_sm a)"
  shows "sm_ok (ap_sm (listSavedPeers W a))" "sm_ok (ap_sm (savePeer W p n a))"
    "sm_ok (ap_sm (renameSavedPeer W k n a))" "sm_ok (ap_sm (removeSavedPeer W k a))"
  using assms
  by (auto simp: listSavedPeers_def savePeer_def renameSavedPeer_def removeSavedPeer_def Let_def sm_of say_ok
      split: option.split prod.split sum.split dest!: with_disk_smD intro!: fold_ap_say_ok say_ok)

lemma change_marker_ok: "sm_ok (ap_sm a) \<Longrightarrow> change_marker W p v a = (b, st) \<Longrightarrow> sm_ok (ap_sm b)"
  by (auto simp: change_marker_def sm_of say_ok split: option.splits prod.splits sum.splits dest!: with_disk_smD)

lemma current_marker_sm: "current_marker W p a = (b, v) \<Longrightarrow> ap_sm b = ap_sm a"
  by (auto simp: current_marker_def split: option.splits dest: with_disk_smD)

lemma verify_action_ok: "verify_action W p args v a = (b, st) \<Longrightarrow> sm_ok (ap_sm a) \<Longrightarrow> sm_ok (ap_sm b)"
  by (auto simp: verify_action_def sm_of say_ok split: list.splits if_splits dest: change_marker_ok)

lemma showSafetyNumber_ok: "sm_ok (ap_sm a) \<Longrightarrow> sm_ok (ap_sm (showSafetyNumber W args a))"
  by (auto simp: showSafetyNumber_def Let_def displayName_def sm_of say_ok split: prod.split sum.split option.split
      intro!: fold_ap_say_ok dest!: current_marker_sm verify_action_ok)

lemma answer_request_ok: "sm_ok (ap_sm a) \<Longrightarrow> answer_request W b arg a = Some a' \<Longrightarrow> sm_ok (ap_sm a')"
  by (auto simp: answer_request_def sm_of say_ok split: if_splits dest: Respond_ok(2))

lemma on_sm_ok: "on_sm W f a = Some a' \<Longrightarrow> (\<And>s. sm_ok s \<Longrightarrow> sm_ok (f s)) \<Longrightarrow> sm_ok (ap_sm a) \<Longrightarrow> sm_ok (ap_sm a')"
  by (auto simp: on_sm_def sm_of)

lemma handleCommand_ok:
  assumes "sm_ok (ap_sm a)" and "handleCommand W cmd a = Some a'"
  shows "sm_ok (ap_sm a')"
  using assms
  by (auto simp: handleCommand_def sm_of say_ok saved_peer_commands_ok showSafetyNumber_ok
      listPeers_ok switchPeer_ok connectToPeer_ok disconnect_ok discoverPeers_ok runLatencyTest_ok runConcurrentTest_ok showHelp_ok
      split: list.splits if_splits elim!: on_sm_ok answer_request_ok [rotated])

lemma input_line_ok:
  assumes "sm_ok (ap_sm a)" and "input_line W ct a = Some a'"
  shows "sm_ok (ap_sm a')"
  using assms(2)
  by (auto simp: input_line_def Let_def sm_of say_ok forgetPeer_ok sendChat_ok assms(1)
      split: if_splits sum.splits dest: handleCommand_ok [OF assms(1)])

lemma input_lines_ok: "sm_ok (ap_sm a) \<Longrightarrow> input_lines W ls a = Some a' \<Longrightarrow> sm_ok (ap_sm a')"
  by (induction ls arbitrary: a) (auto split: option.splits dest: input_line_ok)

lemma HandleInput_ok: "sm_ok (ap_sm a) \<Longrightarrow> HandleInput W stdin a = Some a' \<Longrightarrow> sm_ok (ap_sm a')"
  by (auto simp: HandleInput_def sm_of say_ok split: prod.splits dest: input_lines_ok)

lemma handleWSMessage_ok:
  assumes "sm_ok (ap_sm a)" and "handleWSMessage W ty pl a = Some a'"
  shows "sm_ok (ap_sm a')"
  using assms
  by (auto simp: handleWSMessage_def Let_def sm_of sendChat_ok connectToPeer_ok ReconnectPeer_ok disconnect_ok
      RemovePendingRequest_def split: if_splits option.splits dest: Respond_ok(1))

section \<open>Numbers\<close>

lemma takeWhile_dec: "takeWhile is_digit (dec_nat n) = dec_nat n"
  using dec_nat_digits [of n] by (simp add: list_all_iff)

lemma dec_nat_not_sign: "\<not> prefix ''-'' (dec_nat n)" "\<not> prefix ''+'' (dec_nat n)"
  using dec_nat_hd_digit [of n] by (cases "dec_nat n"; auto simp: is_digit_def)+

lemma scan_int_dec: "scan_int (dec_nat n) = (if n < 2 ^ 63 then Some (int n) else None)"
proof -
  have "int n < 2 ^ 63 \<longleftrightarrow> n < 2 ^ 63" using of_nat_less_iff [of n "2 ^ 63", where 'a = int] by simp
  then show ?thesis by (simp add: scan_int_def takeWhile_dec parse_nat_dec dec_nat_not_sign Let_def)
qed

lemma says_out: "out (says ls s) = out s @ map (\<lambda>l. Console (PlainLine l)) ls"
  unfolding says_def by (induction ls arbitrary: s) (simp_all add: say_def emit_def)

text \<open>
  \<open>/switch\<close> takes the numbers that \<open>/list\<close> prints: for each connected peer the listing has a line
  with its number, and \<open>/switch\<close> with that number makes exactly this peer the active one; any other
  number leaves the active peer as it is.
\<close>

theorem switch_takes_listed_number:
  "if 1 \<le> n \<and> n \<le> length (getSortedPeers E s) \<and> n < 2 ^ 63
   then activeID (switchPeer E (dec_nat n) s) = getSortedPeers E s ! (n - 1) \<and>
     Console (PlainLine (peer_line E s (n, getSortedPeers E s ! (n - 1)))) \<in> set (out (listPeers E s))
   else activeID (switchPeer E (dec_nat n) s) = activeID s"
proof -
  let ?ps = "getSortedPeers E s"
  have "(n, ?ps ! (n - 1)) \<in> set (zip [1..<Suc (length ?ps)] ?ps)" if "1 \<le> n" "n \<le> length ?ps"
    using that by (auto simp: in_set_zip simp del: upt_Suc intro!: exI [of _ "n - 1"])
  then have "Console (PlainLine (peer_line E s (n, ?ps ! (n - 1)))) \<in> set (out (listPeers E s))"
    if "1 \<le> n" "n \<le> length ?ps"
    using that by (auto simp: listPeers_def Let_def says_out image_iff simp del: upt_Suc)
  moreover have "nat (int n - 1) = n - Suc 0" by simp
  ultimately show ?thesis
    by (auto simp: switchPeer_def switch_target_def switch_active_def scan_int_dec Let_def say_def emit_def displayName_def)
qed

text \<open>
  An answer typed at the terminal does not reach the web interface: the request stays among the
  pending ones, which every new web client is sent.
\<close>

lemma typed_answer_keeps_web_request:
  assumes "answer_request W accepted arg a = Some a'"
  shows "ap_web a' = ap_web a"
  using assms by (auto simp: answer_request_def ap_say_def split: if_splits)

section \<open>Typed messages\<close>

text \<open>Sending writes to the wire only, and leaves the node and its nickname alone.\<close>

definition quiet :: "stream_manager \<Rightarrow> stream_manager \<Rightarrow> bool" where
  "quiet s s' \<longleftrightarrow> (\<exists>w. out s' = out s @ w \<and> list_all is_wire w) \<and> localNick s' = localNick s \<and> node s' = node s"

lemma quiet_trans: "quiet s s' \<Longrightarrow> quiet s' s'' \<Longrightarrow> quiet s s''"
  by (auto simp: quiet_def)

lemma quiet_sends: "only_sends p s s' \<Longrightarrow> quiet s s'"
  using only_sends_fields [of p s s'] by (auto simp: quiet_def only_sends_def)

lemma quiet_tables:
  "quiet s (s\<lparr>sendSeq := q\<rparr>)" "quiet s (trackPending E p e s)" "quiet s (ackPending p i s)" "quiet s s"
  by (simp_all add: quiet_def trackPending_def ackPending_def ticked_def Let_def split: option.split)

lemma sendChat_quiet: "quiet s (fst (sendChat E p ct s))"
proof (cases "mlookup (streams s) p = None \<or> mlookup (sessions s) p = None")
  case True
  then show ?thesis by (auto simp: sendChat_def quiet_tables split: option.split)
next
  case False
  let ?q = "mget 0 (sendSeq s) p + 1"
  let ?s1 = "s\<lparr>sendSeq := mput p ?q (sendSeq s)\<rparr>"
  obtain s2 r where b: "newChatEnvelope E p ?q ct ?s1 = (s2, r)" by (cases "newChatEnvelope E p ?q ct ?s1")
  then have sends: "only_sends p ?s1 s2"
    using build_envelope_only_sends [of p ?s1 E p TypeChat ?q "chatBody ct"] by (simp add: newChatEnvelope_def)
  then have q2: "quiet s s2" using quiet_trans quiet_tables(1) quiet_sends by blast
  have "mlookup (sessions (trackPending E p e s2)) p \<noteq> None" for e
    using False only_sends_dom [OF sends, of p] by (simp add: trackPending_def ticked_def Let_def)
  then have q3: "quiet s (fst (sendEnvelope E p st ses e (trackPending E p e s2)))" for st ses e
    using quiet_sends sendEnvelope_only_sends quiet_trans [OF quiet_trans [OF q2 quiet_tables(2)]] by blast
  then have "quiet s s3" if "sendEnvelope E p st ses e (trackPending E p e s2) = (s3, x)" for st ses e s3 x
    using that by (metis fst_conv)
  then show ?thesis
    using False b q2 quiet_trans [OF _ quiet_tables(3)]
    by (auto simp: sendChat_def Let_def split: option.split sum.split prod.split)
qed

lemma fold_wires: "list_all is_wire w \<Longrightarrow> fold (web_event W) w a = a"
  by (induction w) (auto simp: web_event_def is_wire_def split: event.splits)

lemma lift_sendChat:
  "lift_sm W (\<lambda>s. fst (sendChat E p ct s)) a = a\<lparr>ap_sm := fst (sendChat E p ct (ap_sm a))\<rparr>"
  using sendChat_quiet [of "ap_sm a" E p ct] by (auto simp: lift_sm_def Let_def quiet_def fold_wires)

lemma sendChat_id: "sendChat E p ct s = (s', Inr e) \<Longrightarrow> utf8_ok (eID e)"
  using raw_url_encode_graphic
  by (auto simp: sendChat_def newChatEnvelope_def build_envelope_def newEnvelope_def NewID_def Let_def utf8_ok_def graphic_ascii
      split: option.splits prod.splits sum.splits)

lemma forgetPeer_gone: "mlookup (streams (forgetPeer E p s)) p = None" "activeID s = p \<Longrightarrow> activeID (forgetPeer E p s) = []"
  by (simp_all add: forgetPeer_def Let_def displayName_def emit_def clearPending_def gomap_simps)

lemma lift_forgetPeer_disk: "ap_disk (lift_sm W (forgetPeer E p) a) = ap_disk a"
  by (simp add: lift_sm_def Let_def forgetPeer_def displayName_def emit_def clearPending_def web_event_def web_notify_defs)

lemma save_history_fields:
  "ap_web (save_history W p m a) = ap_web a" "ap_hist (save_history W p m a) = ap_hist a"
  by (simp_all add: save_history_def with_disk_def split: option.split prod.split)

lemma save_history_stored:
  assumes "ap_hist a = Some (history_store dir key)"
    and st: "hs_stored (kex (w_env W)) (aead (w_env W)) (history_store dir key) p (ap_disk a) = Some ms"
    and "\<forall>m \<in> set ms. msg_ok m" and "aead_correct (aead (w_env W))" "rand_ok (w_os W)" and "msg_ok m"
  shows "hs_stored (kex (w_env W)) (aead (w_env W)) (history_store dir key) p (ap_disk (save_history W p m a)) =
    Some (if isl (snd (SaveMessage (kex (w_env W)) (aead (w_env W)) (w_os W) (history_store dir key) p m (ap_disk a)))
          then ms else ms @ [m])"
  using assms save_outcome [OF st assms(3,6,4,5)] by (simp add: save_history_def with_disk_def split_def)

text \<open>
  C9. A typed message is recorded once: when the send succeeds the web clients show it and the
  encrypted history of the peer ends with it, under the identifier and the time of its envelope,
  unless that save fails, which leaves the history as it was; when the send fails the peer is
  forgotten, no longer active, and nothing is stored.
\<close>

theorem typed_message_recorded:
  assumes line: "ct = [] \<or> hd ct \<noteq> CHR ''/''" and p: "p = activeID (ap_sm a)" "p \<noteq> []"
    and web: "ap_web a = Some wc" and hist: "ap_hist a = Some (history_store dir key)"
    and st: "hs_stored (kex (w_env W)) (aead (w_env W)) (history_store dir key) (peer_String (w_env W) p) (ap_disk a) = Some ms"
    and ok: "\<forall>m \<in> set ms. msg_ok m" and lib: "aead_correct (aead (w_env W))" "rand_ok (w_os W)"
    and clock: "\<forall>n. time_ok (os_local (w_os W) n)"
    and utf8: "utf8_ok ct" "utf8_ok (localNick (ap_sm a))" "utf8_ok (local_id W a)"
  shows "\<exists>a'. input_line W ct a = Some a' \<and>
    (case sendChat (w_env W) p ct (ap_sm a) of
       (s', Inl err) \<Rightarrow> mlookup (streams (ap_sm a')) p = None \<and> activeID (ap_sm a') \<noteq> p \<and>
         hs_stored (kex (w_env W)) (aead (w_env W)) (history_store dir key) (peer_String (w_env W) p) (ap_disk a') = Some ms
     | (s', Inr e) \<Rightarrow> ap_sm a' = s' \<and>
         (\<exists>wc' m. ap_web a' = Some wc' \<and> wcMessages wc' = wcMessages wc @ [m] \<and> wmContent m = ct \<and> wmIsOwn m \<and>
            wcSent wc' = wcSent wc @ map (\<lambda>c. (c, ''new_message'', PMessage m)) (wcClients wc)) \<and>
         hs_stored (kex (w_env W)) (aead (w_env W)) (history_store dir key) (peer_String (w_env W) p) (ap_disk a') =
           Some (if isl (snd (SaveMessage (kex (w_env W)) (aead (w_env W)) (w_os W) (history_store dir key)
                     (peer_String (w_env W) p) (own_msg W a ct e) (ap_disk a)))
                 then ms else ms @ [own_msg W a ct e]))"
proof -
  let ?E = "w_env W" and ?h = "history_store dir key"
  let ?P = "peer_String ?E p"
  obtain s' r where snd: "sendChat ?E p ct (ap_sm a) = (s', r)" by fastforce
  define a1 where "a1 = a\<lparr>ap_sm := s'\<rparr>"
  have l: "lift_sm W (\<lambda>s. fst (sendChat ?E p ct s)) a = a1" by (simp add: lift_sendChat snd a1_def)
  have same: "local_id W a1 = local_id W a" "localNick s' = localNick (ap_sm a)"
    using sendChat_quiet [of "ap_sm a" ?E p ct] by (simp_all add: quiet_def snd a1_def local_id_def)
  show ?thesis
  proof (cases r)
    case (Inl err)
    let ?b = "ap_say (''Error, message sending to peer: '' @ w_error_text W err) a1"
    have "input_line W ct a = Some (lift_sm W (forgetPeer ?E p) ?b)"
      using line p l snd Inl by (auto simp: input_line_def Let_def)
    moreover have "activeID (forgetPeer ?E p s) \<noteq> p" for s
      using p(2) by (simp add: forgetPeer_def Let_def displayName_def emit_def clearPending_def)
    ultimately show ?thesis
      using st snd Inl by (simp add: sm_of forgetPeer_gone lift_forgetPeer_disk a1_def ap_say_def)
  next
    case (Inr e)
    let ?m = "own_msg W a ct e"
    have m: "own_msg W a1 ct e = ?m" using same by (simp add: own_msg_def a1_def)
    have "msg_ok ?m" using sendChat_id [of ?E p ct "ap_sm a" s' e] snd Inr utf8 clock by (simp add: own_msg_def msg_ok_def)
    define a2 where "a2 = save_history W ?P ?m a1"
    have w2: "ap_web a2 = Some wc" "ap_hist a2 = Some ?h" "ap_sm a2 = s'"
      using web hist by (simp_all add: a2_def a1_def save_history_fields sm_of)
    have s2: "hs_stored (kex ?E) (aead ?E) ?h ?P (ap_disk a2) =
        Some (if isl (snd (SaveMessage (kex ?E) (aead ?E) (w_os W) ?h ?P ?m (ap_disk a))) then ms else ms @ [?m])"
      using save_history_stored [of a1 dir key W ?P ms ?m] hist st ok lib \<open>msg_ok ?m\<close> by (simp add: a2_def a1_def)
    have "input_line W ct a = Some (addMessage W (local_id W a2) (localNick (ap_sm a2)) ct True ?P False a2)"
      using line p l snd Inr w2(1) m by (auto simp: input_line_def Let_def a2_def)
    then show ?thesis
      using s2 w2(2,3) snd Inr addMessage_parts [OF w2(1) refl, of W "local_id W a2" "localNick (ap_sm a2)" ct True ?P False]
      by (simp add: sm_of hs_stored_def web_message_def)
  qed
qed

definition demo_chat_world :: world where
  "demo_chat_world = demo_world\<lparr>w_env := still_env\<rparr>"

definition demo_chat_app :: app where
  "demo_chat_app = demo_app\<lparr>ap_sm := demo_A\<lparr>activeID := ''B''\<rparr>\<rparr>"

lemma still_env_simps:
  "peer_String still_env p = p" "kex still_env = toy_kex" "aead still_env = plain_aead"
  by (simp_all add: still_env_def demo_env_def)

lemma demo_chat_simps [simp]:
  "w_env demo_chat_world = still_env" "w_os demo_chat_world = demo_os"
  "ap_sm demo_chat_app = demo_A\<lparr>activeID := ''B''\<rparr>" "ap_disk demo_chat_app = empty_disk"
  "ap_hist demo_chat_app = Some (history_store ''data'' ''k'')" "ap_web demo_chat_app = ap_web demo_app"
  by (simp_all add: demo_chat_world_def demo_chat_app_def)

lemma demo_chat_sent: "\<exists>s' e. sendChat still_env ''B'' ''hi'' (demo_A\<lparr>activeID := ''B''\<rparr>) = (s', Inr e)"
proof -
  let ?s = "demo_A\<lparr>activeID := ''B''\<rparr>"
  have l: "linked still_env ''A'' 1 demo_A still_env ''B'' demo_B 2" by (rule demo_linked)
  have "healthy still_env" using l by (simp add: linked_def)
  moreover have "mlookup (streams ?s) ''B'' = Some 1" "mlookup (sessions ?s) ''B'' = Some low_session" "node ?s = Some ''A''"
    "mget 0 (sendSeq ?s) ''B'' + 1 \<noteq> 0"
    by (simp_all add: demo_A_def newStreamManager_def mlookup_def gomap_simps)
  moreover obtain k where "sendAEAD low_session = Some k" by (simp add: low_session_def)
  moreover have "good_name (peer_String still_env ''A'')" by (simp add: still_env_simps good_name_def to_valid_ascii)
  moreover have "good_text ''hi''" by (simp add: good_text_ok graphic_def)
  ultimately show ?thesis by (meson sendChat_sends)
qed

theorem typed_message_recorded_witness:
  "\<exists>a' wc' m. input_line demo_chat_world ''hi'' demo_chat_app = Some a' \<and> ap_web a' = Some wc' \<and>
     wcMessages wc' = [m] \<and> wmContent m = ''hi''"
proof -
  obtain s' e where s: "sendChat still_env ''B'' ''hi'' (demo_A\<lparr>activeID := ''B''\<rparr>) = (s', Inr e)"
    using demo_chat_sent by blast
  have u: "utf8_ok ''hi''" "utf8_ok []" "utf8_ok ''A''" by (simp_all add: utf8_ok_ascii)
  have "localNick demo_A = []" "node demo_A = Some ''A''" by (simp_all add: demo_A_def newStreamManager_def)
  moreover have "hs_stored toy_kex plain_aead (history_store ''data'' ''k'') ''B'' empty_disk = Some []"
    by (simp add: hs_stored_def)
  moreover have "\<forall>n. time_ok (os_local demo_os n)" by (simp add: demo_os_def demo_time_ok)
  ultimately show ?thesis
    using typed_message_recorded [of "''hi''" "''B''" demo_chat_app _ "''data''" "''k''" demo_chat_world "[]"]
      s u plain_aead_correct demo_rand_ok
    by (auto simp: still_env_simps local_id_def)
qed

end
