(* ===== verification/Identity.thy ===== *)
theory Identity
  imports File_System Handshake
begin

text \<open>
  The identity key of the node (\<open>getIdentityPath\<close>, \<open>loadOrGenerateKey\<close>, \<open>generateAndSaveKey\<close>,
  \<open>loadKey\<close> of \<open>main.go\<close>). The generation and the encoding of libp2p keys are parameters.
\<close>

record key_lib =
  GenerateEd25519Key :: "nat \<Rightarrow> string + privkey"   \<comment> \<open>at a step of the run\<close>
  MarshalPrivateKey :: "privkey \<Rightarrow> string + bytes"
  UnmarshalPrivateKey :: "bytes \<Rightarrow> string + privkey"
  UserHomeDir :: "string + string"

datatype identity_error =
    IdHome string
  | IdMkdir io_error
  | IdGenerate string
  | IdMarshal string
  | IdSave io_error
  | IdRead io_error
  | IdUnmarshal string

definition config_dir :: "key_lib \<Rightarrow> string \<Rightarrow> string + string" where
  "config_dir L dataDir =
     (if dataDir \<noteq> [] then Inr dataDir
      else (case UserHomeDir L of Inl e \<Rightarrow> Inl e | Inr home \<Rightarrow> Inr (path_Join [home, ''.p2pchat''])))"

definition identity_file :: "string \<Rightarrow> string" where
  "identity_file customName = (if customName = [] then ''identity.key'' else ''identity_'' @ customName @ ''.key'')"

definition getIdentityPath :: "key_lib \<Rightarrow> os \<Rightarrow> string \<Rightarrow> string \<Rightarrow> disk \<Rightarrow> disk \<times> (identity_error + string)" where
  "getIdentityPath L I customName dataDir d =
     (case config_dir L dataDir of
        Inl e \<Rightarrow> (d, Inl (IdHome e))
      | Inr configDir \<Rightarrow>
          (case MkdirAll I configDir d of
             (d1, Inl e) \<Rightarrow> (d1, Inl (IdMkdir e))
           | (d1, Inr _) \<Rightarrow> (d1, Inr (path_Join [configDir, identity_file customName]))))"

definition generateAndSaveKey :: "key_lib \<Rightarrow> os \<Rightarrow> string \<Rightarrow> disk \<Rightarrow> disk \<times> (identity_error + privkey)" where
  "generateAndSaveKey L I keyPath d =
     (case GenerateEd25519Key L (io_step d) of
        Inl e \<Rightarrow> (d, Inl (IdGenerate e))
      | Inr priv \<Rightarrow>
          (case MarshalPrivateKey L priv of
             Inl e \<Rightarrow> (d, Inl (IdMarshal e))
           | Inr keyBytes \<Rightarrow>
               (case WriteFile I keyPath keyBytes d of
                  (d1, Inl e) \<Rightarrow> (d1, Inl (IdSave e))
                | (d1, Inr _) \<Rightarrow> (d1, Inr priv))))"

definition loadKey :: "key_lib \<Rightarrow> os \<Rightarrow> string \<Rightarrow> disk \<Rightarrow> disk \<times> (identity_error + privkey)" where
  "loadKey L I keyPath d =
     (case ReadFile I keyPath d of
        (d1, Inl e) \<Rightarrow> (d1, Inl (IdRead e))
      | (d1, Inr keyBytes) \<Rightarrow>
          (d1, case UnmarshalPrivateKey L keyBytes of Inl e \<Rightarrow> Inl (IdUnmarshal e) | Inr priv \<Rightarrow> Inr priv))"

definition loadOrGenerateKey :: "key_lib \<Rightarrow> os \<Rightarrow> string \<Rightarrow> string \<Rightarrow> disk \<Rightarrow> disk \<times> (identity_error + privkey)" where
  "loadOrGenerateKey L I customName dataDir d =
     (case getIdentityPath L I customName dataDir d of
        (d1, Inl e) \<Rightarrow> (d1, Inl e)
      | (d1, Inr keyPath) \<Rightarrow>
          (case stat_ok I keyPath d1 of
             (d2, found) \<Rightarrow> if found then loadKey L I keyPath d2 else generateAndSaveKey L I keyPath d2))"

section \<open>Properties\<close>

definition keys_roundtrip :: "key_lib \<Rightarrow> bool" where
  "keys_roundtrip L \<longleftrightarrow> (\<forall>k x. MarshalPrivateKey L k = Inr x \<longrightarrow> UnmarshalPrivateKey L x = Inr k)"

definition key_path :: "key_lib \<Rightarrow> string \<Rightarrow> string \<Rightarrow> string option" where
  "key_path L customName dataDir =
     (case config_dir L dataDir of Inl _ \<Rightarrow> None | Inr c \<Rightarrow> Some (path_Join [c, identity_file customName]))"

lemma getIdentityPath_content: "content (fst (getIdentityPath L I n dir d)) = content d"
  by (auto simp: getIdentityPath_def MkdirAll_def io_guard_def content_def stepped_def split: sum.splits)

lemma getIdentityPath_ok:
  "getIdentityPath L I n dir d = (d1, Inr p) \<Longrightarrow> key_path L n dir = Some p \<and> content d1 = content d \<and> io_step d1 = Suc (io_step d)"
  using getIdentityPath_content [of L I n dir d]
  by (auto simp: getIdentityPath_def key_path_def MkdirAll_def io_guard_def stepped_def split: sum.splits if_splits)

lemma loadKey_content: "content (fst (loadKey L I p d)) = content d"
  by (auto simp: loadKey_def ReadFile_def io_guard_def split: option.splits)

lemma WriteFile_written: "WriteFile I p x d = (d', Inr u) \<Longrightarrow> content d' p = Some x"
  by (auto simp: WriteFile_def io_guard_def write_open_def mget_content split: if_splits)

lemma loadOrGenerate_existing:
  assumes "key_path L n dir = Some p" and "content d p = Some x" and "os_ok I (Suc (io_step d))"
    and "loadOrGenerateKey L I n dir d = (d', r)"
  shows "content d' = content d \<and> (case r of Inr k \<Rightarrow> UnmarshalPrivateKey L x = Inr k | Inl _ \<Rightarrow> True)"
proof (cases "snd (getIdentityPath L I n dir d)")
  case (Inl e)
  then show ?thesis
    using assms(4) getIdentityPath_content [of L I n dir d] by (auto simp: loadOrGenerateKey_def split: prod.splits)
next
  case (Inr q)
  then obtain d1 where g: "getIdentityPath L I n dir d = (d1, Inr q)" by (metis prod.collapse)
  then have q: "q = p" "content d1 = content d" "io_step d1 = Suc (io_step d)"
    using getIdentityPath_ok [OF g] assms(1) by auto
  have "loadOrGenerateKey L I n dir d = loadKey L I p (stepped d1)"
    using g q assms(2,3) by (simp add: loadOrGenerateKey_def stat_ok_def)
  then show ?thesis
    using assms(2,4) q loadKey_content [of L I p "stepped d1"]
    by (auto simp: loadKey_def ReadFile_def io_guard_def split: option.splits sum.splits if_splits)
qed

lemma loadOrGenerate_saved:
  assumes "loadOrGenerateKey L I n dir d = (d1, Inr k)" and "keys_roundtrip L" and "key_path L n dir = Some p"
  shows "\<exists>x. content d1 p = Some x \<and> UnmarshalPrivateKey L x = Inr k"
proof -
  obtain d0 where g: "getIdentityPath L I n dir d = (d0, Inr p)"
    using assms(1,3) getIdentityPath_ok [of L I n dir d]
    by (cases "getIdentityPath L I n dir d"; cases "snd (getIdentityPath L I n dir d)") (auto simp: loadOrGenerateKey_def)
  have "loadKey L I p (stepped d0) = (d1, Inr k) \<or> generateAndSaveKey L I p (stepped d0) = (d1, Inr k)"
    using assms(1) g by (auto simp: loadOrGenerateKey_def stat_ok_def split: if_splits)
  then show ?thesis
  proof
    assume "loadKey L I p (stepped d0) = (d1, Inr k)"
    then show ?thesis by (auto simp: loadKey_def ReadFile_def io_guard_def split: option.splits sum.splits if_splits)
  next
    assume "generateAndSaveKey L I p (stepped d0) = (d1, Inr k)"
    then show ?thesis
      using assms(2) by (auto simp: generateAndSaveKey_def keys_roundtrip_def split: sum.splits prod.splits dest!: WriteFile_written)
  qed
qed

text \<open>
  C21. The identity of the node is stable: once a start has ended with a key, every later start with the
  same identity name and data directory whose \<open>os.Stat\<close> call succeeds ends with the same key or with
  an error, and leaves every file as it is.
\<close>

theorem identity_stable:
  assumes "loadOrGenerateKey L I n dir d = (d1, Inr k)" and "keys_roundtrip L" and "key_path L n dir = Some p"
    and "content d2 p = content d1 p" and "os_ok I' (Suc (io_step d2))"
  shows "content (fst (loadOrGenerateKey L I' n dir d2)) = content d2 \<and>
    snd (loadOrGenerateKey L I' n dir d2) \<in> insert (Inr k) (range Inl)"
proof -
  obtain x where x: "content d1 p = Some x" "UnmarshalPrivateKey L x = Inr k"
    using loadOrGenerate_saved [OF assms(1-3)] by blast
  obtain d3 r where r: "loadOrGenerateKey L I' n dir d2 = (d3, r)" by fastforce
  then show ?thesis
    using loadOrGenerate_existing [OF assms(3) _ assms(5) r] x assms(4) by (cases r) auto
qed

text \<open>
  \<open>loadOrGenerateKey\<close> takes every failure of \<open>os.Stat\<close> for a missing file: when the call fails for
  another reason, an existing identity is replaced by a new one.
\<close>

theorem stat_failure_replaces_identity:
  assumes "key_path L n dir = Some p" and "content d p = Some x" and "\<not> os_ok I (Suc (io_step d))"
    and "\<And>k. k \<noteq> Suc (io_step d) \<Longrightarrow> os_ok I k"
    and "GenerateEd25519Key L (io_step d + 2) = Inr k'" and "MarshalPrivateKey L k' = Inr y"
  shows "snd (loadOrGenerateKey L I n dir d) = Inr k' \<and> content (fst (loadOrGenerateKey L I n dir d)) p = Some y"
proof -
  obtain c where c: "config_dir L dir = Inr c" "p = path_Join [c, identity_file n]"
    using assms(1) by (auto simp: key_path_def split: sum.splits)
  have "os_ok I (io_step d)" "os_ok I (Suc (Suc (io_step d)))" "os_ok I (Suc (Suc (Suc (io_step d))))"
    by (simp_all add: assms(4))
  then show ?thesis
    using assms(3,5,6) c
    by (simp add: loadOrGenerateKey_def getIdentityPath_def MkdirAll_def io_guard_def stat_ok_def generateAndSaveKey_def
        WriteFile_def write_open_def stepped_def set_file_def content_def gomap_simps)
qed

section \<open>Worked example\<close>

definition demo_key_lib :: key_lib where
  "demo_key_lib = \<lparr>GenerateEd25519Key = (\<lambda>n. Inr ''sk''), MarshalPrivateKey = (\<lambda>k. Inr (''key:'' @ k)),
     UnmarshalPrivateKey = (\<lambda>x. Inr (drop 4 x)), UserHomeDir = Inr ''/home/u''\<rparr>"

theorem identity_stable_witness:
  "snd (loadOrGenerateKey demo_key_lib demo_os ''ada'' ''data'' empty_disk) = Inr ''sk'' \<and>
   snd (loadOrGenerateKey demo_key_lib demo_os ''ada'' ''data''
     (fst (loadOrGenerateKey demo_key_lib demo_os ''ada'' ''data'' empty_disk))) \<in> insert (Inr ''sk'') (range Inl)"
proof -
  obtain d1 where d1: "loadOrGenerateKey demo_key_lib demo_os ''ada'' ''data'' empty_disk = (d1, Inr ''sk'')"
    by (simp add: loadOrGenerateKey_def getIdentityPath_def config_dir_def MkdirAll_def io_guard_def stat_ok_def
        demo_key_lib_def content_def empty_disk_def stepped_def gomap_simps path_Join_def path_Clean_def
        path_stack_def Let_def identity_file_def rooted_def slash_def clean_step_def unstack_def)
       (simp add: generateAndSaveKey_def WriteFile_def write_open_def io_guard_def)
  have "keys_roundtrip demo_key_lib" by (simp add: keys_roundtrip_def demo_key_lib_def)
  moreover have "\<exists>p. key_path demo_key_lib ''ada'' ''data'' = Some p" by (simp add: key_path_def config_dir_def)
  ultimately show ?thesis
    using identity_stable [OF d1, of _ d1 demo_os] d1 by auto
qed

end
