(* ===== verification/Startup.thy ===== *)
theory Startup
  imports Cli Identity
begin

text \<open>
  The start of the program: \<open>CreateNode\<close>, \<open>ConnectToPeer\<close> and \<open>main\<close> of \<open>main.go\<close> with
  \<open>StartWebServer\<close> of \<open>web.go\<close>, and then every run of the application as a sequence of steps of its
  interfaces.

  The libp2p host, the listening socket and the creation of the DHT are code outside the repository:
  the record \<open>host_lib\<close> says what they return. \<open>StartWebServer\<close>, which the code runs in a goroutine,
  runs at the call.
\<close>

section \<open>The node and the web server\<close>

record flags =
  fl_identity :: string
  fl_datadir :: string
  fl_listenip :: string
  fl_web :: bool
  fl_args :: "string list"

record host_lib =
  libp2p_New :: "privkey \<Rightarrow> string \<Rightarrow> string + pid"   \<comment> \<open>identity and listen address\<close>
  PrivKeyRaw :: "privkey \<Rightarrow> bytes result"
  Listen :: "string + int"                            \<comment> \<open>the port of the local listener\<close>
  host_keys :: keystore
  NewDHT :: "pid \<Rightarrow> string + dht_lib"
  host_Addrs :: "pid \<Rightarrow> string list"

datatype node_error = CnIdentity identity_error | CnHost string

definition CreateNode ::
  "key_lib \<Rightarrow> os \<Rightarrow> host_lib \<Rightarrow> string \<Rightarrow> string \<Rightarrow> string \<Rightarrow> disk \<Rightarrow> disk \<times> (node_error + privkey \<times> pid)"
where
  "CreateNode L I H identityName dataDir listenIP d =
     (case loadOrGenerateKey L I identityName dataDir d of
        (d1, Inl e) \<Rightarrow> (d1, Inl (CnIdentity e))
      | (d1, Inr priv) \<Rightarrow>
          (let ip = (if listenIP \<noteq> [] then listenIP else ''0.0.0.0'')
           in (d1, case libp2p_New H priv (''/ip4/'' @ ip @ ''/tcp/0'') of
                     Inl e \<Rightarrow> Inl (CnHost e)
                   | Inr p \<Rightarrow> Inr (priv, p))))"

text \<open>\<open>NewDHTService\<close>: the error of the library with its context.\<close>

definition NewDHTService :: "host_lib \<Rightarrow> pid \<Rightarrow> string + dht_lib" where
  "NewDHTService H p = (case NewDHT H p of Inl e \<Rightarrow> Inl (''failed to create DHT: '' @ e) | Inr D \<Rightarrow> Inr D)"

definition ConnectToPeer :: "env \<Rightarrow> net \<Rightarrow> string \<Rightarrow> stream_manager \<Rightarrow> stream_manager \<times> (string + pid)" where
  "ConnectToPeer E N address s =
     (if \<not> NewMultiaddr N address then (s, Inl ''invalid multiaddr'')
      else (case AddrInfoFromP2pAddr N address of
         None \<Rightarrow> (s, Inl ''invalid peer info'')
       | Some p \<Rightarrow>
           (case Connect N p of
              Some err \<Rightarrow> (s, Inl (''connection failed: '' @ err))
            | None \<Rightarrow> (say (''Connected to '' @ shortID E p) (ticked s), Inr p))))"

definition new_web_client :: "string \<Rightarrow> WebClient" where
  "new_web_client token = \<lparr>wcClients = [], wcMessages = [], wcPending = [], wcToken = token, wcSent = []\<rparr>"

text \<open>The second value is the port on which the server answers, \<open>None\<close> when it was not started.\<close>

definition StartWebServer :: "os \<Rightarrow> host_lib \<Rightarrow> string \<Rightarrow> bool \<Rightarrow> app \<Rightarrow> app \<times> int option" where
  "StartWebServer I H dataDir serveUI a =
     (case Listen H of
        Inl e \<Rightarrow> (ap_say (''Listener error: '' @ e) a, None)
      | Inr port \<Rightarrow>
          (case with_disk (newAPIToken I) a of
             (a1, None) \<Rightarrow> (ap_say ''Failed to generate API token'' a1, None)
           | (a1, Some token) \<Rightarrow>
               (case with_disk (writeAPIConfig I dataDir port token) (a1\<lparr>ap_web := Some (new_web_client token)\<rparr>) of
                  (a2, Some e) \<Rightarrow> (ap_say ''Failed to write API credentials'' a2, None)
                | (a2, None) \<Rightarrow>
                    (ap_say (if serveUI then ''Web interface: http://127.0.0.1:'' @ dec_int port @ ''/#token='' @ token
                             else ''Local API listening on 127.0.0.1:'' @ dec_int port
                                    @ '' (web UI disabled; use --web to enable)'') a2, Some port))))"

section \<open>main\<close>

definition resolvedDataDir :: "key_lib \<Rightarrow> flags \<Rightarrow> string" where
  "resolvedDataDir L fl =
     (if fl_datadir fl \<noteq> [] then fl_datadir fl
      else (case UserHomeDir L of Inl _ \<Rightarrow> [] | Inr home \<Rightarrow> path_Join [home, ''.p2pchat'']))"

definition storage_dir :: "key_lib \<Rightarrow> flags \<Rightarrow> string" where
  "storage_dir L fl =
     (let dir = resolvedDataDir L fl
      in if dir = [] then path_Join [case UserHomeDir L of Inl _ \<Rightarrow> [] | Inr home \<Rightarrow> home, ''.p2pchat''] else dir)"

text \<open>The three stores; one that cannot be opened stays nil.\<close>

definition ok_part :: "'e + 'a \<Rightarrow> 'a option" where
  "ok_part r = (case r of Inl _ \<Rightarrow> None | Inr x \<Rightarrow> Some x)"

definition open_stores :: "os \<Rightarrow> string \<Rightarrow> bytes \<Rightarrow> app \<Rightarrow> app" where
  "open_stores I dir raw a =
     (let (a1, ps) = with_disk (NewPeerStore I dir) a;
          a2 = a1\<lparr>ap_peers := ok_part ps\<rparr>;
          (a3, vs) = with_disk (NewVerificationStore I dir) a2;
          a4 = a3\<lparr>ap_verif := ok_part vs\<rparr>;
          (a5, hs) = with_disk (NewHistoryStore I dir raw) a4
      in case hs of
           Inl _ \<Rightarrow> a5
         | Inr h \<Rightarrow> ap_say ''Message history storage initialized.''
             (a5\<lparr>ap_hist := Some h, ap_sm := (ap_sm a5)\<lparr>hasHistory := True\<rparr>\<rparr>))"

text \<open>The stores, when the raw identity key is available, and then the web server.\<close>

definition main_services :: "os \<Rightarrow> key_lib \<Rightarrow> host_lib \<Rightarrow> flags \<Rightarrow> privkey \<Rightarrow> app \<Rightarrow> app" where
  "main_services I L H fl priv a =
     (let b = (case PrivKeyRaw H priv of Inl _ \<Rightarrow> a | Inr raw \<Rightarrow> open_stores I (storage_dir L fl) raw a)
      in fst (StartWebServer I H (resolvedDataDir L fl) (fl_web fl) b))"

datatype start_result = Running dht_lib | Stopped | Panicked | Bootstrapping

text \<open>From the address line to the end of \<open>main\<close>: the peer given as an argument, then the input loop.\<close>

definition main_connect :: "world \<Rightarrow> flags \<Rightarrow> dht_lib \<Rightarrow> app \<Rightarrow> app \<times> start_result" where
  "main_connect W fl D a =
     (let ready = ap_say (''Node Ready. Use '/discover' to find peers or '/help' for commands.'') in
      case fl_args fl of
        [] \<Rightarrow> (ready a, Running D)
      | address # _ \<Rightarrow>
          (case ConnectToPeer (w_env W) (w_net W) address (ap_sm a) of
             (s, Inl _) \<Rightarrow> (a\<lparr>ap_sm := s\<rparr>, Panicked)
           | (s, Inr p) \<Rightarrow>
               (case NewStream (w_net W) p of
                  None \<Rightarrow> (ap_say ''Failed to open chat stream:'' (a\<lparr>ap_sm := s\<rparr>), Stopped)
                | Some c \<Rightarrow>
                    (ready (ap_say ''Chat started. Type your messages or use /help for commands''
                       (lift_sm W (AddStream (w_env W) c) (a\<lparr>ap_sm := s\<rparr>))), Running D))))"

definition main_network :: "world \<Rightarrow> host_lib \<Rightarrow> flags \<Rightarrow> nat list \<Rightarrow> pid \<Rightarrow> app \<Rightarrow> app \<times> start_result" where
  "main_network W H fl sched p a =
     (let a1 = ap_say ''Initializing DHT...'' a in
      case NewDHTService H p of
        Inl e \<Rightarrow> (ap_say (''Failed to create DHT: '' @ e) a1, Stopped)
      | Inr D \<Rightarrow>
          (case Bootstrap (w_env W) D sched of
             (ls, None) \<Rightarrow> (fold ap_say ls a1, Bootstrapping)
           | (ls, Some (Some e)) \<Rightarrow> (ap_say (''Failed to bootstrap DHT: '' @ e) (fold ap_say ls a1), Stopped)
           | (ls, Some None) \<Rightarrow>
               (let a2 = fold ap_say ls a1 in
                case AddrInfoToP2pAddrs D \<lparr>ai_ID = p, ai_Addrs = host_Addrs H p\<rparr> of
                  Inl e \<Rightarrow> (a2, Panicked)
                | Inr [] \<Rightarrow> (a2, Panicked)
                | Inr (addr # _) \<Rightarrow>
                    main_connect W fl D
                      (fold ap_say
                        [''======= '' @ (if fl_identity fl \<noteq> [] then fl_identity fl else ''default'') @ '' ======='',
                         ''Listening Peer Address:'', addr] a2))))"

text \<open>
  \<open>main\<close> on a disk, under a schedule of the goroutines of \<open>Bootstrap\<close> (\<open>Bootstrapping\<close> as long as they have
  not finished), with the start of the retransmission loop (its ticks are steps of a run) and of the
  advertising (\<open>AdvertiseContinuously\<close>, which changes no state) left out. The world's DHT is not used.
\<close>

definition blank_app :: "flags \<Rightarrow> disk \<Rightarrow> app" where
  "blank_app fl d =
     \<lparr>ap_sm = (newStreamManager None)\<lparr>localNick := if fl_identity fl = [] then ''anon'' else fl_identity fl\<rparr>,
      ap_disk = d, ap_peers = None, ap_verif = None, ap_hist = None, ap_keys = None, ap_web = None\<rparr>"

definition main ::
  "world \<Rightarrow> key_lib \<Rightarrow> host_lib \<Rightarrow> flags \<Rightarrow> nat list \<Rightarrow> disk \<Rightarrow> app \<times> start_result"
where
  "main W L H fl sched d =
     (let a0 = blank_app fl d in
      case with_disk (CreateNode L (w_os W) H (fl_identity fl) (fl_datadir fl) (fl_listenip fl)) a0 of
        (a1, Inl e) \<Rightarrow> (ap_say ''Failed to create node'' a1, Stopped)
      | (a1, Inr (priv, p)) \<Rightarrow>
          main_network W H fl sched p
            (main_services (w_os W) L H fl priv (a1\<lparr>ap_sm := (ap_sm a1)\<lparr>node := Some p\<rparr>, ap_keys := Some (host_keys H)\<rparr>)))"

text \<open>The end of \<open>main\<close>, when the signal has come.\<close>

definition waitForExitSignal :: "app \<Rightarrow> app" where
  "waitForExitSignal a = ap_say ([CHR 0x0A] @ ''Received exit signal, shutting down...'' @ [CHR 0x0A]) a"

section \<open>The web client under input\<close>

lemma web_frame_say [simp]: "web_frame a (ap_say l a)"
  by (simp add: ap_say_def)

lemma web_frame_says [simp]: "web_frame a (fold ap_say ls a)"
  by (rule web_frame_fold) simp

lemma web_frame_sayD: "web_frame a b \<Longrightarrow> web_frame a (ap_say l b)"
  using web_frame_trans web_frame_say by blast

lemma web_frame_saysD: "web_frame a b \<Longrightarrow> web_frame a (fold ap_say ls b)"
  using web_frame_trans web_frame_says by blast

lemma web_frame_saved_peers [simp]:
  "web_frame a (listSavedPeers W a)" "web_frame a (savePeer W p n a)"
  "web_frame a (renameSavedPeer W k n a)" "web_frame a (removeSavedPeer W k a)"
proof -
  have d2: "web_frame a c" if "with_disk f a = (b, r)" "with_disk g b = (c, q)" for f g b c r q
    by (rule web_frame_trans [OF web_frame_with_disk [OF that(1)] web_frame_with_disk [OF that(2)]])
  show "web_frame a (listSavedPeers W a)"
    by (auto simp: listSavedPeers_def split: option.split prod.split sum.split dest: web_frame_with_disk
        intro!: web_frame_sayD web_frame_saysD)
  show "web_frame a (savePeer W p n a)" "web_frame a (removeSavedPeer W k a)"
    by (auto simp: savePeer_def removeSavedPeer_def Let_def split: option.split prod.split sum.split
        dest: web_frame_with_disk intro: web_frame_then(3) web_frame_sayD)
  show "web_frame a (renameSavedPeer W k n a)"
    by (auto simp: renameSavedPeer_def split: option.split prod.split sum.split
        dest: web_frame_with_disk d2 intro!: web_frame_then(3) web_frame_sayD)
qed

lemma change_marker_frame: "change_marker W p v a = (b, st) \<Longrightarrow> web_frame a b"
  by (auto simp: change_marker_def NotifyVerifiedPeersUpdate_def split: option.splits prod.splits sum.splits if_splits
      dest: web_frame_with_disk intro: web_frame_sayD web_frame_then(5))

lemma verify_action_frame: "verify_action W p args v a = (b, st) \<Longrightarrow> web_frame a b"
  by (auto simp: verify_action_def split: list.splits if_splits dest: change_marker_frame)

lemma current_marker_frame: "current_marker W p a = (b, v) \<Longrightarrow> web_frame a b"
  by (auto simp: current_marker_def split: option.splits dest: web_frame_with_disk)

lemma web_frame_safety [simp]: "web_frame a (showSafetyNumber W args a)"
proof -
  have "web_frame a c" if "current_marker W p a = (b, v)" "verify_action W p args v b = (c, st)" for p b v c st
    using that current_marker_frame verify_action_frame web_frame_trans by blast
  moreover from this have "web_frame a (fold ap_say ls c)"
    if "current_marker W p a = (b, v)" "verify_action W p args v b = (c, st)" for p b v c st ls
    using that web_frame_says web_frame_trans by blast
  ultimately show ?thesis
    by (auto simp: showSafetyNumber_def Let_def displayName_def split: sum.split prod.split option.split)
qed

lemma handleCommand_frame: "handleCommand W cmd a = Some a' \<Longrightarrow> web_frame a a'"
  by (auto simp: handleCommand_def on_sm_def answer_request_def split: list.splits if_splits)

lemma input_line_frame: "input_line W ct a = Some a' \<Longrightarrow> web_frame a a'"
proof -
  have l: "web_frame a (lift_sm W g (ap_say t (lift_sm W f a)))" for f g t
    by (rule web_frame_trans [OF web_frame_trans [OF web_frame_lift web_frame_say] web_frame_lift])
  have n: "web_frame a (web_notify W c (save_history W p m (lift_sm W f a)))" for c p m f
    by (rule web_frame_trans [OF web_frame_trans [OF web_frame_lift web_frame_save_history] web_frame_notify])
  show "input_line W ct a = Some a' \<Longrightarrow> web_frame a a'"
    using l n
    by (auto simp: input_line_def Let_def simp del: web_notify.simps split: if_splits sum.splits dest: handleCommand_frame)
qed

lemma web_frame_histories [simp]: "web_frame a (send_histories W a)"
proof -
  have h: "web_frame a (fold (\<lambda>(p, msgs). if 0 < length msgs then NotifyPeerHistory p msgs else (\<lambda>x. x)) m b)"
    if "web_frame a b" for m b
    by (rule web_frame_trans [OF that web_frame_fold]) (simp add: NotifyPeerHistory_def split: prod.split)
  show ?thesis
  proof (cases "ap_hist a")
    case (Some hs)
    obtain b r where b: "with_disk (LoadAllHistories (kex (w_env W)) (aead (w_env W)) (w_os W) hs) a = (b, r)" by fastforce
    note web_frame_with_disk [OF b]
    with Some b h show ?thesis by (cases r) (simp_all only: send_histories_def option.case prod.case sum.case)
  qed (simp add: send_histories_def)
qed

lemma web_frame_initial [simp]: "web_frame a (sendInitialState W c a)"
proof -
  have f: "web_frame a (fold (\<lambda>r. sendToClient c t (g r)) rs b)" if "web_frame a b" for t g rs b
    by (rule web_frame_trans [OF that web_frame_fold]) simp
  have s: "web_frame a (sendToClient c t p b)" if "web_frame a b" for t p b
    using that web_frame_sendToClient by (rule web_frame_trans)
  have v: "web_frame a b" if "verifiedPeerIDs W e = (b, ids)" "web_frame a e" for b e ids
    by (rule web_frame_trans [OF that(2) web_frame_verified [OF that(1)]])
  have h: "web_frame a (send_histories W b)" if "web_frame a b" for b
    using that web_frame_histories by (rule web_frame_trans)
  let ?a1 = "sendToClient c ''node_info'' (PNodeInfo (local_id W a) (w_addrs W) (localNick (ap_sm a))) a"
  obtain a3 ids where a3: "verifiedPeerIDs W (sendToClient c ''peers_list'' (PPeers (getPeersList W ?a1)) ?a1) = (a3, ids)"
    by fastforce
  let ?a4 = "sendToClient c ''verified_peers_list'' (PIds ids) a3"
  let ?a6 = "send_histories W (fold (\<lambda>r. sendToClient c ''connection_request'' (PRequest r))
      (case ap_web ?a4 of None \<Rightarrow> [] | Some wc \<Rightarrow> wcPending wc) ?a4)"
  have "web_frame a ?a6"
    by (rule h, rule f, rule s, rule v [OF a3], rule s) simp
  moreover have "sendInitialState W c a =
      (case ap_peers ?a6 of None \<Rightarrow> ?a6 | Some ps \<Rightarrow> NotifyTrustedPeersUpdate W (Some ps) ?a6)"
    by (simp only: sendInitialState_def Let_def a3 prod.case)
  ultimately show ?thesis
    by (cases "ap_peers ?a6") (simp_all only: option.case web_frame_then(3))
qed

section \<open>The state after a start\<close>

definition started_ok :: "app \<Rightarrow> bool" where
  "started_ok a \<longleftrightarrow> sm_ok (ap_sm a) \<and> (\<forall>wc. ap_web a = Some wc \<longrightarrow> wcClients wc = [] \<and> wcSent wc = [])"

lemma started_frame: "started_ok a \<Longrightarrow> web_frame a b \<Longrightarrow> sm_ok (ap_sm b) \<Longrightarrow> started_ok b"
  by (cases "ap_web a"; cases "ap_web b") (auto simp: started_ok_def web_frame_def web_grows_def)

lemma started_disk: "with_disk f a = (b, r) \<Longrightarrow> started_ok b = started_ok a"
  by (auto simp: started_ok_def with_disk_def split: prod.splits)

lemma started_say: "started_ok a \<Longrightarrow> started_ok (ap_say l a)"
  by (simp add: started_ok_def ap_say_def say_ok)

lemma started_says: "started_ok a \<Longrightarrow> started_ok (fold ap_say ls a)"
  by (induction ls arbitrary: a) (simp_all add: started_say)

lemma started_fields [simp]:
  "started_ok (a\<lparr>ap_peers := x\<rparr>) = started_ok a" "started_ok (a\<lparr>ap_verif := y\<rparr>) = started_ok a"
  "started_ok (a\<lparr>ap_hist := z\<rparr>) = started_ok a" "started_ok (a\<lparr>ap_keys := k\<rparr>) = started_ok a"
  by (simp_all add: started_ok_def)

lemma started_sm: "started_ok a \<Longrightarrow> sm_ok s \<Longrightarrow> started_ok (a\<lparr>ap_sm := s\<rparr>)"
  by (simp add: started_ok_def)

lemma startedD: "started_ok a \<Longrightarrow> sm_ok (ap_sm a)"
  by (simp add: started_ok_def)

lemma blank_app_ok: "started_ok (blank_app fl d)"
  by (simp add: started_ok_def blank_app_def sm_ok_fields newStreamManager_ok)

lemma started_web: "started_ok a \<Longrightarrow> started_ok (a\<lparr>ap_web := Some (new_web_client t)\<rparr>)"
  by (simp add: started_ok_def new_web_client_def)

lemma started_lift: "started_ok a \<Longrightarrow> (\<And>s. sm_ok s \<Longrightarrow> sm_ok (f s)) \<Longrightarrow> started_ok (lift_sm W f a)"
  using started_frame [OF _ web_frame_lift] startedD by (simp add: sm_of)

lemma open_stores_ok: "started_ok a \<Longrightarrow> started_ok (open_stores I dir raw a)"
  by (auto simp: open_stores_def Let_def split: prod.split sum.split
      intro!: started_say started_sm sm_ok_fields startedD dest!: started_disk)

lemma StartWebServer_ok: "started_ok a \<Longrightarrow> started_ok (fst (StartWebServer I H dir ui a))"
  by (auto simp: StartWebServer_def started_web split: sum.split prod.split option.split
      intro!: started_say dest!: started_disk)

lemma ConnectToPeer_ok: "sm_ok s \<Longrightarrow> ConnectToPeer E N addr s = (s', r) \<Longrightarrow> sm_ok s'"
  by (auto simp: ConnectToPeer_def say_ok ticked_ok split: if_splits option.splits)

lemma main_connect_ok:
  assumes "started_ok a"
  shows "started_ok (fst (main_connect W fl D a))"
  using assms ConnectToPeer_ok [OF startedD [OF assms]]
  by (auto simp: main_connect_def Let_def AddStream_ok split: list.split prod.split sum.split option.split
      intro!: started_say started_sm started_lift)

lemma main_network_ok:
  assumes "started_ok a"
  shows "started_ok (fst (main_network W H fl sched p a))"
  using assms
  by (auto simp: main_network_def Let_def simp del: fold_simps split: sum.split prod.split list.split option.split
      intro!: started_say started_says main_connect_ok)

lemma main_services_ok: "started_ok a \<Longrightarrow> started_ok (main_services I L H fl priv a)"
  by (simp add: main_services_def StartWebServer_ok open_stores_ok split: sum.split)

lemma main_ok: "started_ok (fst (main W L H fl sched d))"
proof -
  obtain a1 r where c: "with_disk (CreateNode L (w_os W) H (fl_identity fl) (fl_datadir fl) (fl_listenip fl)) (blank_app fl d) = (a1, r)"
    by fastforce
  have a1: "started_ok a1" using started_disk [OF c] blank_app_ok by simp
  then have "started_ok (a1\<lparr>ap_sm := (ap_sm a1)\<lparr>node := Some p\<rparr>, ap_keys := Some (host_keys H)\<rparr>)" for p
    by (simp add: started_sm startedD sm_ok_fields)
  with a1 c show ?thesis
    by (cases r) (auto simp: main_def started_say intro!: main_network_ok main_services_ok)
qed

section \<open>Runs\<close>

text \<open>
  A run of the application after its start \<open>a0\<close>: websocket requests, messages and ends of websocket
  connections, lines of input, and steps of the network side of the node. The list collects the
  requests made, whatever became of them.
\<close>

inductive app_run :: "world \<Rightarrow> int \<Rightarrow> app \<Rightarrow> (nat \<times> http_request) list \<Rightarrow> app \<Rightarrow> bool" for W port a0 where
  start: "app_run W port a0 [] a0"
| request: "app_run W port a0 rs a \<Longrightarrow> app_run W port a0 (rs @ [(c, r)]) (fst (handleWebSocket W port r c a))"
| message: "app_run W port a0 rs a \<Longrightarrow> handleWSMessage W ty pl a = Some a' \<Longrightarrow> app_run W port a0 rs a'"
| closed: "app_run W port a0 rs a \<Longrightarrow> app_run W port a0 rs (web_disconnected c a)"
| input: "app_run W port a0 rs a \<Longrightarrow> input_line W l a = Some a' \<Longrightarrow> app_run W port a0 rs a'"
| net: "app_run W port a0 rs a \<Longrightarrow> sm_step (w_env W) (ap_sm a) (f (ap_sm a)) \<Longrightarrow> app_run W port a0 rs (lift_sm W f a)"

text \<open>A websocket connection read to its end is part of a run.\<close>

lemma readWebSocket_run:
  "app_run W port a0 rs a \<Longrightarrow> readWebSocket W c msgs a = Some a' \<Longrightarrow> app_run W port a0 rs a'"
  by (induction W c msgs a rule: readWebSocket.induct) (auto split: option.splits intro: app_run.intros)

definition served :: "nat set \<Rightarrow> app \<Rightarrow> bool" where
  "served S a \<longleftrightarrow> (\<forall>wc. ap_web a = Some wc \<longrightarrow> set (wcClients wc) \<subseteq> S \<and> fst ` set (wcSent wc) \<subseteq> S)"

lemma served_frame:
  assumes "served S a" and "web_frame a b"
  shows "served S b"
proof (cases "ap_web b")
  case (Some w')
  then obtain w where w: "ap_web a = Some w" "web_grows w w'"
    using assms(2) by (cases "ap_web a") (simp_all add: web_frame_def)
  then obtain new where "wcSent w' = wcSent w @ new" "fst ` set new \<subseteq> set (wcClients w)" "wcClients w' = wcClients w"
    by (auto simp: web_grows_def)
  moreover have "set (wcClients w) \<subseteq> S" "fst ` set (wcSent w) \<subseteq> S" using assms(1) w(1) by (simp_all add: served_def)
  ultimately have "set (wcClients w') \<subseteq> S" "fst ` set (wcSent w') \<subseteq> S" by (simp_all only: set_append image_Un) blast+
  with Some show ?thesis by (simp add: served_def)
qed (simp add: served_def)

lemma served_mono: "served S a \<Longrightarrow> S \<subseteq> T \<Longrightarrow> served T a"
  unfolding served_def by (meson order_trans)

lemma served_clients:
  "served S a \<Longrightarrow> S \<subseteq> T \<Longrightarrow> (\<And>cs. set cs \<subseteq> S \<Longrightarrow> set (f cs) \<subseteq> T) \<Longrightarrow>
     served T (on_web (\<lambda>wc. wc\<lparr>wcClients := f (wcClients wc)\<rparr>) a)"
  unfolding served_def on_web_def by (cases "ap_web a") (simp_all, meson order_trans)

lemma served_request:
  assumes "served S a" and "S \<subseteq> T" and "authorized (ap_web a) r \<Longrightarrow> originAllowed r port \<Longrightarrow> c \<in> T"
  shows "served T (fst (handleWebSocket W port r c a))"
proof (cases "authorized (ap_web a) r \<and> originAllowed r port \<and> hr_upgrade r")
  case True
  let ?b = "on_web (\<lambda>wc. wc\<lparr>wcClients := List.insert c (wcClients wc)\<rparr>) a"
  have "served T ?b" using assms(1,2) by (rule served_clients) (use True assms(2,3) in auto)
  then have "served T (sendInitialState W c ?b)" by (rule served_frame) simp
  with True show ?thesis by (simp add: handleWebSocket_def)
next
  case False
  then have "fst (handleWebSocket W port r c a) = a" by (auto simp: handleWebSocket_def)
  with served_mono [OF assms(1,2)] show ?thesis by simp
qed

lemma handleWebSocket_sm [sm_of]: "ap_sm (fst (handleWebSocket W port r c a)) = ap_sm a"
  by (simp add: handleWebSocket_def sm_of)

text \<open>The token of the web interface, which no step of a run changes.\<close>

definition api_token :: "app \<Rightarrow> string option" where
  "api_token a = map_option wcToken (ap_web a)"

lemma token_frame: "web_frame a b \<Longrightarrow> api_token b = api_token a"
  by (cases "ap_web a"; cases "ap_web b") (auto simp: web_frame_def web_grows_def api_token_def)

lemma token_clients: "api_token (on_web (\<lambda>wc. wc\<lparr>wcClients := f (wcClients wc)\<rparr>) a) = api_token a"
  by (cases "ap_web a") (simp_all add: api_token_def on_web_def)

lemma token_request: "api_token (fst (handleWebSocket W port r c a)) = api_token a"
proof -
  have "web_frame b (sendInitialState W c b)" for b by simp
  from token_frame [OF this] show ?thesis by (simp add: handleWebSocket_def token_clients)
qed

text \<open>What a request has to carry to be let in: the token \<open>T\<close>, and no origin or one of the two local ones.\<close>

definition admissible :: "string \<Rightarrow> int \<Rightarrow> http_request \<Rightarrow> bool" where
  "admissible T port r \<longleftrightarrow>
     T \<noteq> [] \<and> hr_token r = T \<and>
     hr_origin r \<in> {[], ''http://127.0.0.1:'' @ dec_int port, ''http://localhost:'' @ dec_int port}"

definition let_in :: "int \<Rightarrow> string option \<Rightarrow> (nat \<times> http_request) list \<Rightarrow> nat set" where
  "let_in port tok rs = {c. \<exists>r T. tok = Some T \<and> (c, r) \<in> set rs \<and> admissible T port r}"

lemma checks_admit:
  "authorized (ap_web a) r \<Longrightarrow> originAllowed r port \<Longrightarrow> \<exists>T. api_token a = Some T \<and> admissible T port r"
  by (cases "ap_web a") (auto simp: authorized_def originAllowed_def api_token_def admissible_def)

lemma let_in_more: "let_in port tok rs \<subseteq> let_in port tok (rs @ rs')"
  "tok = Some T \<Longrightarrow> admissible T port r \<Longrightarrow> c \<in> let_in port tok (rs @ [(c, r)])"
  by (auto simp: let_in_def)

lemma app_run_safe:
  assumes "app_run W port a0 rs a" and "started_ok a0"
  shows "sm_ok (ap_sm a) \<and> served (let_in port (api_token a0) rs) a \<and> api_token a = api_token a0"
  using assms
proof induction
  case start
  then show ?case by (simp add: started_ok_def served_def)
next
  case (request rs a c r)
  then have "served (let_in port (api_token a0) (rs @ [(c, r)])) (fst (handleWebSocket W port r c a))"
    using checks_admit [of a r port] let_in_more by (intro served_request [of "let_in port (api_token a0) rs"]) auto
  then show ?case using request by (simp add: sm_of token_request)
next
  case (message rs a ty pl a')
  then show ?case using handleWSMessage_ok served_frame handleWSMessage_frame token_frame by metis
next
  case (closed rs a c)
  then have "served (let_in port (api_token a0) rs) (web_disconnected c a)"
    unfolding web_disconnected_def by (intro served_clients) (use set_remove1_subset in fast)+
  moreover have "api_token (web_disconnected c a) = api_token a" unfolding web_disconnected_def by (rule token_clients)
  ultimately show ?case using closed by (simp add: web_disconnected_def sm_of)
next
  case (input rs a l a')
  then show ?case using input_line_ok served_frame input_line_frame token_frame by metis
next
  case (net rs a f)
  then show ?case using served_frame [OF _ web_frame_lift] token_frame [OF web_frame_lift] sm_step_ok by (simp add: sm_of)
qed

lemma main_connect_frame: "web_frame a (fst (main_connect W fl D a))"
proof -
  have "web_frame a (lift_sm W f (a\<lparr>ap_sm := s\<rparr>))" for f s
    using web_frame_sm web_frame_lift by (rule web_frame_trans)
  then show ?thesis
    by (auto simp: main_connect_def Let_def split: list.split prod.split sum.split option.split intro!: web_frame_sayD)
qed

lemma main_network_frame: "web_frame a (fst (main_network W H fl sched p a))"
  by (auto simp: main_network_def Let_def simp del: fold_simps split: sum.split prod.split list.split option.split
      intro!: web_frame_sayD web_frame_saysD web_frame_trans [OF _ main_connect_frame])

text \<open>The token is made of 32 random bytes drawn at the start.\<close>

lemma StartWebServer_token:
  assumes "api_token a = None"
  shows "api_token (fst (StartWebServer I H dir ui a)) = None \<or>
    (\<exists>t raw. os_rand I t 32 = Some raw \<and> api_token (fst (StartWebServer I H dir ui a)) = Some (raw_url_encode raw))"
  using assms
  by (auto simp: StartWebServer_def api_token_def with_disk_def newAPIToken_def rand_Read_def ap_say_def new_web_client_def
      split: sum.split prod.split option.split)

lemma main_token:
  assumes "api_token (fst (main W L H fl sched d)) = Some tok"
  obtains t raw where "os_rand (w_os W) t 32 = Some raw" "tok = raw_url_encode raw"
proof -
  obtain a1 r where c: "with_disk (CreateNode L (w_os W) H (fl_identity fl) (fl_datadir fl) (fl_listenip fl)) (blank_app fl d) = (a1, r)"
    by fastforce
  have blank: "ap_web a1 = None" using c by (auto simp: with_disk_def blank_app_def split: prod.splits)
  have "isl r \<Longrightarrow> api_token (fst (main W L H fl sched d)) = None"
    using c blank by (cases r) (simp_all add: main_def ap_say_def api_token_def)
  then obtain priv p where r: "r = Inr (priv, p)" using assms by (cases r) auto
  let ?a2 = "a1\<lparr>ap_sm := (ap_sm a1)\<lparr>node := Some p\<rparr>, ap_keys := Some (host_keys H)\<rparr>"
  have "api_token (fst (main W L H fl sched d)) = api_token (main_services (w_os W) L H fl priv ?a2)"
    using token_frame [OF main_network_frame] c r by (simp add: main_def)
  moreover have "ap_web (open_stores I dir raw a) = ap_web a" for I dir raw a
    by (auto simp: open_stores_def Let_def with_disk_def ap_say_def split: prod.split sum.split)
  then have "api_token (open_stores I dir raw ?a2) = None" "api_token ?a2 = None" for I dir raw
    using blank by (simp_all add: api_token_def)
  then have "api_token (main_services (w_os W) L H fl priv ?a2) = None \<or>
      (\<exists>t raw. os_rand (w_os W) t 32 = Some raw \<and> api_token (main_services (w_os W) L H fl priv ?a2) = Some (raw_url_encode raw))"
    using StartWebServer_token unfolding main_services_def Let_def by (auto split: sum.split)
  ultimately show thesis using assms that by auto
qed

text \<open>
  C7. Over every run of the program, from the start of \<open>main\<close> through any interleaving of websocket
  requests, messages and ends of connections, typed lines and network events: the tables of the node
  keep their invariant, the token of the web interface stays the one of the start, and every connection that is a
  client, or to which the web interface ever sent anything, belongs to a request that carried this
  token, which is not empty, and had no origin or one of the two local origins with the port of the
  server. The token is the encoding of 32 random bytes drawn at the start. Each step is a whole operation;
  a \<open>/switch\<close> interrupted by the end of the stream it switches to is not a step here and does break the
  first part (\<open>switch_races_forget\<close>).
\<close>

theorem runs_stay_safe:
  assumes "app_run W port (fst (main W L H fl sched d)) rs a" and "ap_web a = Some wc"
  shows "sm_ok (ap_sm a) \<and>
    (\<exists>w0. ap_web (fst (main W L H fl sched d)) = Some w0 \<and> wcToken wc = wcToken w0 \<and>
      (\<exists>t raw. os_rand (w_os W) t 32 = Some raw \<and> wcToken w0 = raw_url_encode raw) \<and>
      (\<forall>c \<in> set (wcClients wc) \<union> fst ` set (wcSent wc). \<exists>r. (c, r) \<in> set rs \<and>
         wcToken w0 \<noteq> [] \<and> hr_token r = wcToken w0 \<and>
         hr_origin r \<in> {[], ''http://127.0.0.1:'' @ dec_int port, ''http://localhost:'' @ dec_int port}))"
proof -
  let ?a0 = "fst (main W L H fl sched d)"
  have safe: "sm_ok (ap_sm a)" "served (let_in port (api_token ?a0) rs) a" "api_token a = api_token ?a0"
    using app_run_safe [OF assms(1) main_ok] by simp_all
  then obtain w0 where w0: "ap_web ?a0 = Some w0" "wcToken wc = wcToken w0"
    using assms(2) by (cases "ap_web ?a0") (simp_all add: api_token_def)
  have "set (wcClients wc) \<union> fst ` set (wcSent wc) \<subseteq> let_in port (api_token ?a0) rs"
    using safe(2) assms(2) by (simp add: served_def)
  then have "c \<in> let_in port (Some (wcToken w0)) rs" if "c \<in> set (wcClients wc) \<union> fst ` set (wcSent wc)" for c
    using that w0(1) by (auto simp: api_token_def)
  moreover have "\<exists>t raw. os_rand (w_os W) t 32 = Some raw \<and> wcToken w0 = raw_url_encode raw"
    using main_token [of W L H fl sched d "wcToken w0"] w0(1) by (metis api_token_def option.map(2))
  ultimately show ?thesis using safe(1) w0 unfolding let_in_def admissible_def by blast
qed

definition demo_host :: host_lib where
  "demo_host = \<lparr>libp2p_New = (\<lambda>k a. Inr ''A''), PrivKeyRaw = Inr, Listen = Inr 9090, host_keys = demo_keys,
     NewDHT = (\<lambda>p. Inr demo_dht), host_Addrs = (\<lambda>p. [''/ip4/127.0.0.1/tcp/1''])\<rparr>"

definition demo_flags :: flags where
  "demo_flags = \<lparr>fl_identity = ''ada'', fl_datadir = ''data'', fl_listenip = [], fl_web = False, fl_args = []\<rparr>"

section \<open>Restarting\<close>

lemma StartWebServer_hist: "ap_hist (fst (StartWebServer I H dir ui a)) = ap_hist a"
  by (auto simp: StartWebServer_def with_disk_def ap_say_def split: sum.split prod.split option.split)

lemma open_stores_hist:
  "ap_hist (open_stores I dir raw a) =
     (if os_ok I (io_step (ap_disk a) + 2) then Some (history_store dir raw) else ap_hist a)"
  by (auto simp: open_stores_def Let_def with_disk_def NewHistoryStore_def NewPeerStore_def NewVerificationStore_def
      MkdirAll_def io_guard_def stepped_def ap_say_def split: prod.split sum.split)

text \<open>The history store of a started program: the storage directory and the raw identity key.\<close>

lemma main_hist_services:
  assumes "with_disk (CreateNode L (w_os W) H (fl_identity fl) (fl_datadir fl) (fl_listenip fl)) (blank_app fl d) = (a1, Inr (priv, p))"
  shows "ap_hist (fst (main W L H fl sched d)) =
    (case PrivKeyRaw H priv of
       Inl _ \<Rightarrow> None
     | Inr raw \<Rightarrow> if os_ok (w_os W) (io_step (ap_disk a1) + 2) then Some (history_store (storage_dir L fl) raw) else None)"
proof -
  have "ap_hist a1 = None" using assms by (auto simp: with_disk_def blank_app_def split: prod.splits)
  then show ?thesis
    using main_network_frame [of _ W H fl sched p] assms
    by (simp add: main_def web_frame_def main_services_def StartWebServer_hist open_stores_hist split: sum.split)
qed

lemma main_hist:
  assumes "ap_hist (fst (main W L H fl sched d)) = Some h"
  obtains priv raw where "snd (loadOrGenerateKey L (w_os W) (fl_identity fl) (fl_datadir fl) d) = Inr priv"
    "PrivKeyRaw H priv = Inr raw" "h = history_store (storage_dir L fl) raw"
proof -
  obtain a1 r where c: "with_disk (CreateNode L (w_os W) H (fl_identity fl) (fl_datadir fl) (fl_listenip fl)) (blank_app fl d) = (a1, r)"
    by fastforce
  have "isl r \<Longrightarrow> ap_hist (fst (main W L H fl sched d)) = None"
    using c by (cases r) (auto simp: main_def ap_say_def with_disk_def blank_app_def split: prod.splits)
  then obtain priv p where r: "r = Inr (priv, p)" using assms by (cases r) auto
  obtain raw where "PrivKeyRaw H priv = Inr raw" "h = history_store (storage_dir L fl) raw"
    using assms main_hist_services [OF c [unfolded r]] by (auto split: sum.splits if_splits)
  moreover have "snd (loadOrGenerateKey L (w_os W) (fl_identity fl) (fl_datadir fl) d) = Inr priv"
    using c r by (auto simp: with_disk_def CreateNode_def blank_app_def Let_def split: prod.splits sum.splits)
  ultimately show thesis using that by blast
qed

text \<open>
  C10. A restart can read the old messages: two starts with the same identity name and data directory,
  the second on a disk that still has the identity file the first one left and with its \<open>os.Stat\<close>
  succeeding, open the same history store, directory and key, whatever else happened to the disk.
\<close>

theorem restart_opens_same_history:
  assumes "ap_hist (fst (main W L H fl sched d)) = Some h" and "ap_hist (fst (main W' L H fl sched' d2)) = Some h2"
    and "keys_roundtrip L" and "key_path L (fl_identity fl) (fl_datadir fl) = Some p"
    and "content d2 p = content (fst (loadOrGenerateKey L (w_os W) (fl_identity fl) (fl_datadir fl) d)) p"
    and "os_ok (w_os W') (Suc (io_step d2))"
  shows "h2 = h"
proof -
  obtain k raw where k: "snd (loadOrGenerateKey L (w_os W) (fl_identity fl) (fl_datadir fl) d) = Inr k"
      "PrivKeyRaw H k = Inr raw" "h = history_store (storage_dir L fl) raw"
    using main_hist [OF assms(1)] .
  obtain k2 raw2 where k2: "snd (loadOrGenerateKey L (w_os W') (fl_identity fl) (fl_datadir fl) d2) = Inr k2"
      "PrivKeyRaw H k2 = Inr raw2" "h2 = history_store (storage_dir L fl) raw2"
    using main_hist [OF assms(2)] .
  obtain d1 where d1: "loadOrGenerateKey L (w_os W) (fl_identity fl) (fl_datadir fl) d = (d1, Inr k)"
    using k(1) by (metis prod.collapse)
  obtain d3 where d3: "loadOrGenerateKey L (w_os W') (fl_identity fl) (fl_datadir fl) d2 = (d3, Inr k2)"
    using k2(1) by (metis prod.collapse)
  obtain x where x: "content d1 p = Some x" "UnmarshalPrivateKey L x = Inr k"
    using loadOrGenerate_saved [OF d1 assms(3,4)] by blast
  then have "UnmarshalPrivateKey L x = Inr k2"
    using loadOrGenerate_existing [OF assms(4) _ assms(6) d3] assms(5) d1 by simp
  with x k k2 show ?thesis by simp
qed

lemma demo_key_file: "path_Join [''data'', identity_file ''ada''] = ''data/identity_ada.key''"
  by (simp add: path_Join_def path_Clean_def path_stack_def Let_def identity_file_def rooted_def slash_def clean_step_def unstack_def)

lemma demo_key:
  assumes "set (dirs d) \<subseteq> {''data''}"
  shows "\<exists>d1 k. loadOrGenerateKey demo_key_lib demo_os ''ada'' ''data'' d = (d1, Inr k) \<and> set (dirs d1) \<subseteq> {''data''}"
proof -
  have "set (dirs (stepped d)) \<subseteq> {''data''}" using assms by (simp add: stepped_def)
  then have "''data/identity_ada.key'' \<notin> set (dirs (stepped d))" by auto
  with assms show ?thesis
    by (auto simp: loadOrGenerateKey_def getIdentityPath_def config_dir_def MkdirAll_def io_guard_def stat_ok_def demo_key_file
        demo_key_lib_def loadKey_def ReadFile_def generateAndSaveKey_def WriteFile_def write_open_def set_file_def stepped_def content_def
        split: option.splits)
qed

lemma demo_main_hist:
  assumes "set (dirs d) \<subseteq> {''data''}"
  shows "ap_hist (fst (main demo_world demo_key_lib demo_host demo_flags sched d)) \<noteq> None"
proof -
  obtain d1 k where "loadOrGenerateKey demo_key_lib demo_os ''ada'' ''data'' d = (d1, Inr k)"
    using demo_key [OF assms] by blast
  then have "\<exists>a1. with_disk (CreateNode demo_key_lib demo_os demo_host ''ada'' ''data'' []) (blank_app demo_flags d) = (a1, Inr (k, ''A''))"
    by (simp add: with_disk_def CreateNode_def blank_app_def demo_host_def Let_def)
  then obtain a1 where "with_disk (CreateNode demo_key_lib (w_os demo_world) demo_host (fl_identity demo_flags) (fl_datadir demo_flags)
      (fl_listenip demo_flags)) (blank_app demo_flags d) = (a1, Inr (k, ''A''))"
    by (auto simp: demo_flags_def)
  from main_hist_services [OF this] show ?thesis by (simp add: demo_host_def)
qed

text \<open>A client with the token is let in, one with another token is not.\<close>

lemma demo_main_web: "\<exists>w0. ap_web (fst (main demo_world demo_key_lib demo_host demo_flags sched empty_disk)) = Some w0 \<and>
    wcClients w0 = [] \<and> wcToken w0 = raw_url_encode (replicate 32 (CHR ''r''))"
proof -
  obtain d1 k where "loadOrGenerateKey demo_key_lib demo_os ''ada'' ''data'' empty_disk = (d1, Inr k)"
    using demo_key [of empty_disk] by (auto simp: empty_disk_def)
  then obtain a1 where c: "with_disk (CreateNode demo_key_lib (w_os demo_world) demo_host (fl_identity demo_flags) (fl_datadir demo_flags)
      (fl_listenip demo_flags)) (blank_app demo_flags empty_disk) = (a1, Inr (k, ''A''))"
    by (simp add: with_disk_def CreateNode_def blank_app_def demo_host_def Let_def demo_flags_def)
  let ?a = "fst (main demo_world demo_key_lib demo_host demo_flags sched empty_disk)"
  let ?s = "main_services demo_os demo_key_lib demo_host demo_flags k
    (a1\<lparr>ap_sm := (ap_sm a1)\<lparr>node := Some ''A''\<rparr>, ap_keys := Some (host_keys demo_host)\<rparr>)"
  have "web_frame ?s ?a" using main_network_frame c by (simp add: main_def)
  moreover have "\<exists>w. ap_web ?s = Some w \<and> wcToken w = raw_url_encode (replicate 32 (CHR ''r''))"
    by (auto simp: main_services_def demo_host_def StartWebServer_def with_disk_def newAPIToken_def rand_Read_def demo_os_def
        writeAPIConfig_def ap_say_def new_web_client_def Let_def split: sum.split prod.split option.split)
  ultimately obtain w0 where "ap_web ?a = Some w0" "wcToken w0 = raw_url_encode (replicate 32 (CHR ''r''))"
    by (auto simp: web_frame_def web_grows_def option_rel_Some1)
  moreover have "started_ok ?a" by (rule main_ok)
  ultimately show ?thesis by (simp add: started_ok_def)
qed

theorem runs_stay_safe_witness:
  "\<exists>a w rs. app_run demo_world 9090 (fst (main demo_world demo_key_lib demo_host demo_flags [] empty_disk)) rs a \<and>
     ap_web a = Some w \<and> wcClients w = [1] \<and> map fst rs = [1, 2] \<and>
     (\<forall>r. (1, r) \<in> set rs \<longrightarrow> hr_token r = raw_url_encode (replicate 32 (CHR ''r''))) \<and> sm_ok (ap_sm a)"
proof -
  let ?a0 = "fst (main demo_world demo_key_lib demo_host demo_flags [] empty_disk)"
  define T where "T = raw_url_encode (replicate 32 (CHR ''r''))"
  let ?r1 = "\<lparr>hr_origin = ''http://localhost:'' @ dec_int 9090, hr_token = T, hr_upgrade = True\<rparr>"
  let ?r2 = "\<lparr>hr_origin = [], hr_token = ''guess'', hr_upgrade = True\<rparr>"
  obtain w0 where w0: "ap_web ?a0 = Some w0" "wcClients w0 = []" "wcToken w0 = T" using demo_main_web [of "[]"] unfolding T_def by blast
  have len: "length T = 43" unfolding T_def by (simp add: raw_url_encode_length)
  then have T: "T \<noteq> []" "T \<noteq> ''guess''" by auto
  let ?a1 = "fst (handleWebSocket demo_world 9090 ?r1 1 ?a0)"
  let ?b = "on_web (\<lambda>wc. wc\<lparr>wcClients := List.insert 1 (wcClients wc)\<rparr>) ?a0"
  have a1: "?a1 = sendInitialState demo_world 1 ?b"
    using w0 T by (simp add: handleWebSocket_def authorized_def originAllowed_def)
  have "ap_web ?b = Some (w0\<lparr>wcClients := [1]\<rparr>)" using w0 by (simp add: on_web_def)
  moreover have "web_frame ?b (sendInitialState demo_world 1 ?b)" by simp
  ultimately obtain w1 where w1: "ap_web ?a1 = Some w1" "wcClients w1 = [1]" "wcToken w1 = T"
    unfolding a1 using w0(3) by (auto simp: web_frame_def web_grows_def option_rel_Some1)
  have a2: "fst (handleWebSocket demo_world 9090 ?r2 2 ?a1) = ?a1"
    using w1 T(2) by (simp add: handleWebSocket_def authorized_def)
  have "app_run demo_world 9090 ?a0 [(1, ?r1)] ?a1" using app_run.request [OF app_run.start, of demo_world 9090 ?a0 1 ?r1] by simp
  from app_run.request [OF this, of 2 ?r2] have run: "app_run demo_world 9090 ?a0 [(1, ?r1), (2, ?r2)] ?a1" unfolding a2 by simp
  from runs_stay_safe [OF run w1(1)] have "sm_ok (ap_sm ?a1)" by blast
  with run w1 show ?thesis by (intro exI [of _ ?a1] exI [of _ w1] exI [of _ "[(1, ?r1), (2, ?r2)]"]) (simp add: T_def)
qed

theorem restart_opens_same_history_witness:
  "ap_hist (fst (main demo_world demo_key_lib demo_host demo_flags []
      (fst (loadOrGenerateKey demo_key_lib demo_os ''ada'' ''data'' empty_disk)))) =
   ap_hist (fst (main demo_world demo_key_lib demo_host demo_flags [] empty_disk))"
proof -
  let ?d2 = "fst (loadOrGenerateKey demo_key_lib demo_os ''ada'' ''data'' empty_disk)"
  obtain h h2 where h: "ap_hist (fst (main demo_world demo_key_lib demo_host demo_flags [] empty_disk)) = Some h"
    "ap_hist (fst (main demo_world demo_key_lib demo_host demo_flags [] ?d2)) = Some h2"
    using demo_main_hist [of empty_disk] demo_main_hist [of ?d2] demo_key [of empty_disk] by (force simp: empty_disk_def)
  have "keys_roundtrip demo_key_lib" by (simp add: keys_roundtrip_def demo_key_lib_def)
  moreover obtain p where "key_path demo_key_lib (fl_identity demo_flags) (fl_datadir demo_flags) = Some p"
    by (simp add: key_path_def config_dir_def demo_flags_def)
  ultimately have "h2 = h"
    using restart_opens_same_history [OF h] by (simp add: demo_flags_def)
  with h show ?thesis by simp
qed

end
