(* ===== verification/Approval.thy ===== *)
theory Approval
  imports Node_Invariant
begin

text \<open>
  The approval of incoming requests while the rest of the node runs (\<open>HandleIncomingStream\<close>,
  \<open>RespondToConnectionRequest\<close>, \<open>RespondToConnectionRequestByNum\<close> of \<open>main.go\<close>): what a refusal and a
  timeout change, and how an answer finds the handler that waits for it whatever goes on about other
  peers between the request, the answer and the moment the handler wakes up.
\<close>

section \<open>What leaves the requests alone\<close>

definition keeps_asks :: "stream_manager \<Rightarrow> stream_manager \<Rightarrow> bool" where
  "keeps_asks s s' \<longleftrightarrow>
     pendingApprovals s' = pendingApprovals s \<and> pendingRequestNums s' = pendingRequestNums s \<and>
     nextRequestNum s' = nextRequestNum s \<and> chans s' = chans s \<and> nextAddr s \<le> nextAddr s'"

named_theorems asks_intros

lemma keeps_asks_refl [asks_intros]: "keeps_asks s s"
  by (simp add: keeps_asks_def)

lemma keeps_asks_trans: "keeps_asks s s' \<Longrightarrow> keeps_asks s' s'' \<Longrightarrow> keeps_asks s s''"
  by (simp add: keeps_asks_def)

lemma keeps_asks_basic [asks_intros]:
  assumes "keeps_asks s0 s"
  shows "keeps_asks s0 (emit ev s)" "keeps_asks s0 (ticked s)" "keeps_asks s0 (s\<lparr>sendSeq := x1\<rparr>)"
    "keeps_asks s0 (s\<lparr>peerNicks := x2\<rparr>)" "keeps_asks s0 (s\<lparr>concurrentTestReceived := x3\<rparr>)"
    "keeps_asks s0 (s\<lparr>sessions := x4\<rparr>)" "keeps_asks s0 (register p st ses s)"
  using assms by (simp_all add: keeps_asks_def emit_def ticked_def register_def)

lemma keeps_asks_tables [asks_intros]:
  assumes "keeps_asks s0 s"
  shows "keeps_asks s0 (ackPending p i s)" "keeps_asks s0 (trackPending E p e s)" "keeps_asks s0 (settle now p m err s)"
    "keeps_asks s0 (forgetPeer E p s)"
  using assms
  by (auto simp: ackPending_def trackPending_def settle_def drop_pending_def forgetPeer_def clearPending_def keeps_asks_def
      emit_def ticked_def Let_def split_def split: option.split)

lemma keeps_asks_sends:
  assumes "keeps_asks s0 s" and "only_sends r s s'"
  shows "keeps_asks s0 s'"
  using assms(1) same_core_fields [OF only_sends_core [OF assms(2)]] by (simp add: keeps_asks_def)

lemma keeps_asks_send [asks_intros]:
  assumes "keeps_asks s0 s"
  shows "keeps_asks s0 (fst (sendControl E p body s))" "keeps_asks s0 (fst (build_envelope E p ty n b s))"
  by (rule keeps_asks_sends [OF assms], rule sendControl_only_sends build_envelope_only_sends)+

lemma keeps_asks_sendEnvelope [asks_intros]: "keeps_asks s0 s \<Longrightarrow> keeps_asks s0 (fst (sendEnvelope E p st ses e s))"
  by (auto simp: sendEnvelope_def Let_def split: sum.split prod.split intro!: asks_intros)

lemma keeps_asks_or_print:
  "keeps_asks s0 (fst x) \<Longrightarrow> keeps_asks s0 (case x of (s', None) \<Rightarrow> s' | (s', Some err) \<Rightarrow> emit (Console c) s')"
  by (auto split: prod.split option.split intro!: asks_intros)

lemma keeps_asks_chat [asks_intros]:
  assumes "keeps_asks s0 s"
  shows "keeps_asks s0 (handleChat E p e t s)"
proof -
  have "pendingApprovals (rcore s) = pendingApprovals s" "pendingRequestNums (rcore s) = pendingRequestNums s"
    "nextRequestNum (rcore s) = nextRequestNum s" "chans (rcore s) = chans s" for s :: stream_manager
    by (simp_all add: rcore_def core_def)
  then have "keeps_asks s (handleChat E p e t s)"
    using recv_frame_fields(6) [OF recv_frame_chat [of s E p e t]] recv_frame_chat [of s E p e t]
    unfolding keeps_asks_def recv_frame_def by (metis order_refl)
  then show ?thesis by (rule keeps_asks_trans [OF assms])
qed

lemma keeps_asks_control [asks_intros]: "keeps_asks s0 s \<Longrightarrow> keeps_asks s0 (handleControl E p body s)"
  unfolding handleControl_def Let_def by (auto intro!: keeps_asks_or_print asks_intros)

lemma keeps_asks_line: "readLoop_line E p l s = Some s' \<Longrightarrow> keeps_asks s s'"
  by (auto simp: readLoop_line_def handleEnvelope_def Let_def split: option.splits prod.splits sum.splits if_splits
      intro!: asks_intros)

lemma keeps_asks_sendChat [asks_intros]: "keeps_asks s (fst (sendChat E p t s))"
proof -
  have "keeps_asks s (fst (newChatEnvelope E p n t (s\<lparr>sendSeq := x\<rparr>)))" for n x
    unfolding newChatEnvelope_def by (intro asks_intros)
  moreover have "keeps_asks s (fst (sendEnvelope E p st ses e (trackPending E p e s2)))" if "keeps_asks s s2" for st ses e s2
    using that by (intro asks_intros)
  ultimately show ?thesis
    unfolding sendChat_def Let_def
    by (auto split: option.split sum.split prod.split intro!: asks_intros) (metis fst_conv)+
qed

lemma keeps_asks_resend [asks_intros]: "keeps_asks s (resend E now item s)"
proof -
  have "keeps_asks s s1" if "sendEnvelope E p st ses e s = (s1, err)" for p st ses e s1 err
    using keeps_asks_sendEnvelope [OF keeps_asks_refl] that by (metis fst_conv)
  then show ?thesis by (auto simp: resend_def split: option.split prod.split intro!: asks_intros)
qed

lemma keeps_asks_retransmit [asks_intros]: "keeps_asks s (retransmitDue E s)"
proof -
  have "keeps_asks s0 s \<Longrightarrow> keeps_asks s0 (fold (resend E now) items s)" for now items s0 s
    by (induction items arbitrary: s) (auto intro: keeps_asks_trans [OF _ keeps_asks_resend] simp del: split_paired_All)
  then show ?thesis by (simp add: retransmitDue_def Let_def asks_intros)
qed

lemma keeps_asks_nickname [asks_intros]: "keeps_asks s0 s \<Longrightarrow> keeps_asks s0 (send_nickname E q s)"
  unfolding send_nickname_def by (auto intro!: keeps_asks_or_print asks_intros)

lemma keeps_asks_add [asks_intros]: "keeps_asks s0 s \<Longrightarrow> keeps_asks s0 (AddStream E c s)"
  unfolding AddStream_def Let_def by (auto split: option.split prod.split sum.split intro!: asks_intros)

section \<open>What a request and its decision change\<close>

text \<open>A decision that opens nothing: only the entry of the request itself goes.\<close>

definition dismissed :: "env \<Rightarrow> conn \<Rightarrow> request \<Rightarrow> stream_manager \<Rightarrow> stream_manager \<Rightarrow> bool" where
  "dismissed E c rq s s' \<longleftrightarrow>
     (\<exists>ch evs. (\<forall>k. k \<noteq> rq_chan rq \<longrightarrow> mget [] ch k = mget [] (chans s) k) \<and>
        s' = s\<lparr>chans := ch, pendingApprovals := mdel (c_peer c) (pendingApprovals s),
               pendingRequestNums := mdel (rq_num rq) (pendingRequestNums s),
               nextRequestNum := if mdel (rq_num rq) (pendingRequestNums s) = [] then 0 else nextRequestNum s,
               out := out s @ evs @ refused E c rq\<rparr>)"

text \<open>A request that is shown enters its own tables and nothing else.\<close>

definition entered :: "conn \<Rightarrow> request \<Rightarrow> stream_manager \<Rightarrow> stream_manager \<Rightarrow> bool" where
  "entered c rq s s' \<longleftrightarrow>
     (\<exists>evs. s' = s\<lparr>nextRequestNum := rq_num rq, nextAddr := Suc (rq_chan rq), chans := mput (rq_chan rq) [] (chans s),
        pendingApprovals := mput (c_peer c) (rq_chan rq) (pendingApprovals s),
        pendingRequestNums := mput (rq_num rq) (c_peer c) (pendingRequestNums s), out := out s @ evs\<rparr>)"

lemma incoming_request_entered:
  "incoming_request E c s = (s', Some rq) \<Longrightarrow> entered c rq s s'"
  by (auto simp: incoming_request_def Let_def emit_def entered_def split: option.splits if_splits)
    (rule exI, rule refl)+

lemma incoming_request_refused: "incoming_request E c s = (s', None) \<Longrightarrow> s' = emit (Closed (c_stream c)) s"
  by (auto simp: incoming_request_def Let_def split: option.splits if_splits)

lemma incoming_decision_dismissed:
  assumes "incoming_decision E c rq timed_out s = Some s'" and "timed_out \<or> mget [] (chans s) (rq_chan rq) = False # bs"
  shows "dismissed E c rq s s'"
proof (cases timed_out)
  case True
  then show ?thesis using assms(1) unfolding dismissed_def
    by (intro exI [of _ "chans s"] exI [of _ "[Console (ConnectionTimedOut (rq_num rq) (rq_nick rq))]"])
      (auto simp: incoming_decision_def Let_def emit_def refused_def cleanup_request_def)
next
  case False
  then show ?thesis using assms unfolding dismissed_def
    by (intro exI [of _ "mput (rq_chan rq) bs (chans s)"] exI [of _ "[]"])
      (auto simp: incoming_decision_def Let_def emit_def refused_def cleanup_request_def gomap_simps)
qed

lemma AddStream_streams:
  "streams (AddStream E c s) =
     (case (node s, Handshake (kex E) (c_flush c) (c_random c) (c_privkey c) (c_pubkey c) (c_input c)) of
        (Some local, written, Inr (session, rest)) \<Rightarrow> mput (c_peer c) (c_stream c) (streams s)
      | _ \<Rightarrow> streams s)"
proof -
  have "streams (send_nickname E p s) = streams s" for p s
    using same_core_fields(1) [OF only_sends_core [OF sendControl_only_sends]]
    by (auto simp: send_nickname_def split: prod.split option.split) (simp_all add: emit_def, (metis fst_conv)+)
  then show ?thesis
    by (simp add: AddStream_def Let_def split: option.split prod.split sum.split) (simp add: emit_def register_def)
qed

lemma incoming_decision_opens:
  assumes "incoming_decision E c rq timed_out s = Some s'" and "streams s' \<noteq> streams s"
  shows "\<not> timed_out" "\<exists>bs. mget [] (chans s) (rq_chan rq) = True # bs"
    "\<exists>written ses rest. Handshake (kex E) (c_flush c) (c_random c) (c_privkey c) (c_pubkey c) (rq_rest rq)
       = (written, Inr (ses, rest))" "streams s' = mput (c_peer c) (c_stream c) (streams s)"
proof -
  from assms obtain bs where acc: "\<not> timed_out" "mget [] (chans s) (rq_chan rq) = True # bs"
    using incoming_decision_dismissed [OF assms(1)]
    by (cases timed_out; cases "mget [] (chans s) (rq_chan rq)"; cases "hd (mget [] (chans s) (rq_chan rq))")
      (auto simp: dismissed_def incoming_decision_def Let_def)
  then show "\<not> timed_out" "\<exists>bs. mget [] (chans s) (rq_chan rq) = True # bs" by simp_all
  have s': "s' = cleanup_request (c_peer c) (rq_num rq) (AddStream E (c\<lparr>c_input := rq_rest rq\<rparr>)
      (emit (Wire (c_stream c) (ConnAcceptMsg @ [CHR 0x0A])) (s\<lparr>chans := mput (rq_chan rq) bs (chans s)\<rparr>)))"
    using assms(1) acc by (simp add: incoming_decision_def Let_def)
  have e: "streams (emit ev (s\<lparr>chans := x\<rparr>)) = streams s" for ev x by (simp add: emit_def)
  show "\<exists>written ses rest. Handshake (kex E) (c_flush c) (c_random c) (c_privkey c) (c_pubkey c) (rq_rest rq)
       = (written, Inr (ses, rest))" "streams s' = mput (c_peer c) (c_stream c) (streams s)"
    using assms(2) s' e by (auto simp: AddStream_streams split: option.splits prod.splits sum.splits)
qed

section \<open>Requests in a run\<close>

text \<open>Channels are made once: none that is not made yet stands in the table of approvals.\<close>

definition asks_ok :: "stream_manager \<Rightarrow> bool" where
  "asks_ok s \<longleftrightarrow> (\<forall>p ch. mlookup (pendingApprovals s) p = Some ch \<longrightarrow> ch < nextAddr s)"

lemma keeps_asks_ok: "keeps_asks s s' \<Longrightarrow> asks_ok s \<Longrightarrow> asks_ok s'"
  unfolding keeps_asks_def asks_ok_def using less_le_trans by metis

lemma entered_ok: "entered c rq s s' \<Longrightarrow> rq_chan rq = nextAddr s \<Longrightarrow> asks_ok s \<Longrightarrow> asks_ok s'"
  by (auto simp: entered_def asks_ok_def gomap_simps less_Suc_eq split: if_splits)

lemma request_cases:
  obtains s' rq where "incoming_request E c s = (s', Some rq)" "entered c rq s s'" "rq_chan rq = nextAddr s"
    "rq_num rq = nextRequestNum s + 1"
  | "incoming_request E c s = (emit (Closed (c_stream c)) s, None)"
  using incoming_request_entered incoming_request_refused incoming_request_Some(1,2)
  by (cases "incoming_request E c s"; cases "snd (incoming_request E c s)") fastforce+

text \<open>
  The end of a request: what it takes from its channel and the tables, around steps that leave the
  requests alone.
\<close>

lemma decision_asks:
  assumes "incoming_decision E c rq t s = Some s'"
  shows "k \<noteq> rq_chan rq \<Longrightarrow> mget [] (chans s') k = mget [] (chans s) k"
    "pendingApprovals s' = mdel (c_peer c) (pendingApprovals s)" "nextAddr s \<le> nextAddr s'"
    "pendingRequestNums s' = mdel (rq_num rq) (pendingRequestNums s)"
    "pendingRequestNums s' \<noteq> [] \<Longrightarrow> nextRequestNum s' = nextRequestNum s"
proof -
  have e: "keeps_asks (s\<lparr>chans := x\<rparr>) (AddStream E d (emit ev (s\<lparr>chans := x\<rparr>)))" for x d ev
    by (intro asks_intros)
  have "(\<forall>k. k \<noteq> rq_chan rq \<longrightarrow> mget [] (chans s') k = mget [] (chans s) k) \<and>
    pendingApprovals s' = mdel (c_peer c) (pendingApprovals s) \<and> nextAddr s \<le> nextAddr s' \<and>
    pendingRequestNums s' = mdel (rq_num rq) (pendingRequestNums s) \<and>
    (pendingRequestNums s' \<noteq> [] \<longrightarrow> nextRequestNum s' = nextRequestNum s)"
  proof (cases "t \<or> (\<exists>bs. mget [] (chans s) (rq_chan rq) = False # bs)")
    case True
    then have "dismissed E c rq s s'" using incoming_decision_dismissed [OF assms] by blast
    then show ?thesis by (auto simp: dismissed_def)
  next
    case False
    then obtain bs where "mget [] (chans s) (rq_chan rq) = True # bs" "\<not> t"
      using assms by (auto simp: incoming_decision_def Let_def split: list.splits if_splits)
    then have "s' = cleanup_request (c_peer c) (rq_num rq) (AddStream E (c\<lparr>c_input := rq_rest rq\<rparr>)
        (emit (Wire (c_stream c) (ConnAcceptMsg @ [CHR 0x0A])) (s\<lparr>chans := mput (rq_chan rq) bs (chans s)\<rparr>)))"
      using assms by (simp add: incoming_decision_def Let_def)
    then show ?thesis
      using e [of "mput (rq_chan rq) bs (chans s)" "c\<lparr>c_input := rq_rest rq\<rparr>" "Wire (c_stream c) (ConnAcceptMsg @ [CHR 0x0A])"]
      by (auto simp: keeps_asks_def cleanup_request_def Let_def gomap_simps)
  qed
  then show "k \<noteq> rq_chan rq \<Longrightarrow> mget [] (chans s') k = mget [] (chans s) k"
    "pendingApprovals s' = mdel (c_peer c) (pendingApprovals s)" "nextAddr s \<le> nextAddr s'"
    "pendingRequestNums s' = mdel (rq_num rq) (pendingRequestNums s)"
    "pendingRequestNums s' \<noteq> [] \<Longrightarrow> nextRequestNum s' = nextRequestNum s" by blast+
qed

text \<open>An answer writes into one channel.\<close>

lemma chan_send_cases:
  assumes "chan_send ch b s = Some s'"
  shows "mget [] (chans s) ch = []" "s' = s\<lparr>chans := mput ch [b] (chans s)\<rparr>"
  using assms by (auto simp: chan_send_def split: list.splits)

lemma respond_asks:
  assumes "RespondToConnectionRequest E i b s = Some s'"
  shows "s' = s \<or> (\<exists>p ch. peer_Decode E i = Some p \<and> mlookup (pendingApprovals s) p = Some ch \<and>
    mget [] (chans s) ch = [] \<and> s' = s\<lparr>chans := mput ch [b] (chans s)\<rparr>)"
  using assms chan_send_cases [of _ b s s'] by (auto simp: RespondToConnectionRequest_def split: option.splits)

lemma respond_num_asks:
  assumes "RespondToConnectionRequestByNum n b s = Some s'"
  shows "keeps_asks s s' \<or> (\<exists>p ch. mlookup (pendingRequestNums s) n = Some p \<and> mlookup (pendingApprovals s) p = Some ch \<and>
    mget [] (chans s) ch = [] \<and> s' = s\<lparr>chans := mput ch [b] (chans s)\<rparr>)"
  using assms chan_send_cases [of _ b s s']
  by (auto simp: RespondToConnectionRequestByNum_def asks_intros split: option.splits)

lemma asks_ok_step:
  assumes "sm_step E s s'" and ok: "asks_ok s"
  shows "asks_ok s'"
  using assms(1)
proof cases
  case (request c)
  then show ?thesis using ok
    by (cases rule: request_cases [of E c s]) (auto intro: entered_ok keeps_asks_ok asks_intros)
next
  case (decision c rq t)
  then have "pendingApprovals s' = mdel (c_peer c) (pendingApprovals s)" "nextAddr s \<le> nextAddr s'"
    by (rule decision_asks)+
  then show ?thesis using ok by (auto simp: asks_ok_def gomap_simps intro: less_le_trans split: if_splits)
next
  case (respond i b)
  then show ?thesis using respond_asks ok by (fastforce simp: asks_ok_def)
next
  case (respond_num n b)
  then show ?thesis using respond_num_asks [OF respond_num] ok keeps_asks_ok by (auto simp: asks_ok_def)
qed (use ok in \<open>auto intro: keeps_asks_ok asks_intros keeps_asks_line\<close>)

interpretation asks_run: run_invariant "sm_step E" asks_ok for E
  by unfold_locales (rule asks_ok_step)

lemma reachable_asks_ok: "reachable E nd s \<Longrightarrow> asks_ok s"
  unfolding reachable_def by (erule asks_run.run_good) (simp add: newStreamManager_def asks_ok_def gomap_simps)

text \<open>
  What may go on while the request \<open>rq\<close> of the connection \<open>c\<close> waits: everything about messages,
  streams and sessions, with any peer; requests of other peers, their answers and their decisions.
\<close>

inductive meanwhile :: "env \<Rightarrow> conn \<Rightarrow> request \<Rightarrow> stream_manager \<Rightarrow> stream_manager \<Rightarrow> bool" for E c rq where
  send_chat: "meanwhile E c rq s (fst (sendChat E p text s))"
| send_control: "meanwhile E c rq s (fst (sendControl E p body s))"
| line: "readLoop_line E p l s = Some s' \<Longrightarrow> meanwhile E c rq s s'"
| forget: "meanwhile E c rq s (forgetPeer E p s)"
| add: "meanwhile E c rq s (AddStream E d s)"
| retransmit: "meanwhile E c rq s (retransmitDue E s)"
| resend_one: "meanwhile E c rq s (resend E now item s)"
| request: "c_peer d \<noteq> c_peer c \<Longrightarrow> meanwhile E c rq s (fst (incoming_request E d s))"
| decision: "incoming_decision E d rq' t s = Some s' \<Longrightarrow> c_peer d \<noteq> c_peer c \<Longrightarrow> rq_num rq' \<noteq> rq_num rq \<Longrightarrow>
    rq_chan rq' \<noteq> rq_chan rq \<Longrightarrow> meanwhile E c rq s s'"
| respond: "RespondToConnectionRequest E i b s = Some s' \<Longrightarrow> peer_Decode E i \<noteq> Some (c_peer c) \<Longrightarrow> meanwhile E c rq s s'"
| respond_num: "RespondToConnectionRequestByNum n b s = Some s' \<Longrightarrow>
    mlookup (pendingRequestNums s) n \<noteq> Some (c_peer c) \<Longrightarrow> meanwhile E c rq s s'"

text \<open>The request waits, with \<open>xs\<close> in its channel.\<close>

definition asked :: "conn \<Rightarrow> request \<Rightarrow> bool list \<Rightarrow> stream_manager \<Rightarrow> bool" where
  "asked c rq xs s \<longleftrightarrow>
     mlookup (pendingRequestNums s) (rq_num rq) = Some (c_peer c) \<and> rq_num rq \<le> nextRequestNum s \<and>
     mlookup (pendingApprovals s) (c_peer c) = Some (rq_chan rq) \<and> mget [] (chans s) (rq_chan rq) = xs \<and>
     rq_chan rq < nextAddr s \<and> (\<forall>q. q \<noteq> c_peer c \<longrightarrow> mlookup (pendingApprovals s) q \<noteq> Some (rq_chan rq))"

lemma keeps_asks_asked: "keeps_asks s s' \<Longrightarrow> asked c rq xs s \<Longrightarrow> asked c rq xs s'"
  by (simp add: keeps_asks_def asked_def)

lemma asked_first:
  assumes "asks_ok s" and "incoming_request E c s = (s1, Some rq)"
  shows "asked c rq [] s1"
  using assms incoming_request_Some [OF assms(2)] by (fastforce simp: asked_def asks_ok_def gomap_simps)

lemma asked_meanwhile:
  assumes "meanwhile E c rq s s'" and a: "asked c rq xs s"
  shows "asked c rq xs s'"
  using assms(1)
proof cases
  case (request d)
  show ?thesis
  proof (cases rule: request_cases [of E d s])
    case (1 s'' rq')
    then show ?thesis using a request by (auto simp: asked_def entered_def gomap_simps split: if_splits)
  qed (use a request in \<open>auto intro: keeps_asks_asked asks_intros\<close>)
next
  case (decision d rq' t)
  note d = decision_asks [OF decision(1)]
  have "mlookup (pendingRequestNums s') (rq_num rq) \<noteq> None" using a decision d(4) by (simp add: asked_def gomap_simps)
  then have "pendingRequestNums s' \<noteq> []" by (auto simp: gomap_simps)
  then show ?thesis using a decision d d(5) by (auto simp: asked_def gomap_simps)
next
  case (respond i b)
  then show ?thesis using respond_asks [OF respond(1)] a by (auto simp: asked_def gomap_simps)
next
  case (respond_num n b)
  then show ?thesis using respond_num_asks [OF respond_num(1)] a keeps_asks_asked
    by (fastforce simp: asked_def gomap_simps)
qed (use a in \<open>auto intro: keeps_asks_asked asks_intros keeps_asks_line\<close>)

lemma asked_run: "(meanwhile E c rq)\<^sup>*\<^sup>* s s' \<Longrightarrow> asked c rq xs s \<Longrightarrow> asked c rq xs s'"
  by (induction rule: rtranclp_induct) (auto intro: asked_meanwhile)

section \<open>Properties\<close>

text \<open>
  C37. No connection without approval: a request that is shown enters its own number, channel and
  entries into the tables of requests and changes nothing else, one that is not shown changes no table;
  when the wait for the user ends, a stream enters the tables only if this request's own channel held an
  acceptance, the time had not run out and the handshake succeeded, and then it is this request's stream
  under this request's peer; a refusal and a timeout tell the other side, close the stream, take
  the request out of the tables of requests and change no other part of the state.
\<close>

theorem no_stream_without_approval:
  "(case incoming_request E c s of
      (s', None) \<Rightarrow> s' = emit (Closed (c_stream c)) s
    | (s', Some rq') \<Rightarrow> entered c rq' s s' \<and> streams s' = streams s) \<and>
   (\<forall>s'. incoming_decision E c rq timed_out s = Some s' \<longrightarrow> streams s' \<noteq> streams s \<longrightarrow>
      \<not> timed_out \<and> (\<exists>bs. mget [] (chans s) (rq_chan rq) = True # bs) \<and>
      (\<exists>written ses rest. Handshake (kex E) (c_flush c) (c_random c) (c_privkey c) (c_pubkey c) (rq_rest rq)
         = (written, Inr (ses, rest))) \<and> streams s' = mput (c_peer c) (c_stream c) (streams s)) \<and>
   (\<forall>s'. incoming_decision E c rq timed_out s = Some s' \<longrightarrow>
      timed_out \<or> (\<exists>bs. mget [] (chans s) (rq_chan rq) = False # bs) \<longrightarrow>
      dismissed E c rq s s' \<and> streams s' = streams s \<and> (\<exists>evs. out s' = out s @ evs @ refused E c rq))"
proof -
  have "case incoming_request E c s of (s', None) \<Rightarrow> s' = emit (Closed (c_stream c)) s
      | (s', Some rq') \<Rightarrow> entered c rq' s s' \<and> streams s' = streams s"
  proof (cases rule: request_cases [of E c s])
    case (1 s' rq')
    then show ?thesis using incoming_request_streams [of E c s] by simp
  qed simp
  moreover have "\<forall>s'. incoming_decision E c rq timed_out s = Some s' \<longrightarrow> streams s' \<noteq> streams s \<longrightarrow>
      \<not> timed_out \<and> (\<exists>bs. mget [] (chans s) (rq_chan rq) = True # bs) \<and>
      (\<exists>written ses rest. Handshake (kex E) (c_flush c) (c_random c) (c_privkey c) (c_pubkey c) (rq_rest rq)
         = (written, Inr (ses, rest))) \<and> streams s' = mput (c_peer c) (c_stream c) (streams s)"
    by (intro allI impI conjI; elim incoming_decision_opens)
  moreover have "dismissed E c rq s s' \<and> streams s' = streams s \<and> (\<exists>evs. out s' = out s @ evs @ refused E c rq)"
    if "incoming_decision E c rq timed_out s = Some s'" "timed_out \<or> (\<exists>bs. mget [] (chans s) (rq_chan rq) = False # bs)" for s'
  proof -
    have "dismissed E c rq s s'" using incoming_decision_dismissed [OF that(1)] that(2) by blast
    then show ?thesis by (auto simp: dismissed_def)
  qed
  ultimately show ?thesis by blast
qed

text \<open>Bob, whom Alice asks for a connection.\<close>

definition asking_conn :: "bytes \<Rightarrow> conn" where
  "asking_conn hello = \<lparr>c_stream = 1, c_peer = ''A'', c_privkey = Some ''bob'', c_pubkey = Some (GetPublic toy_kex ''alice''),
     c_random = Inr ''b'', c_flush = (\<lambda>_. True), c_input = hello\<rparr>"

lemma asking_handshake:
  obtains hello written ses where
    "Handshake toy_kex (\<lambda>_. True) (Inr ''b'') (Some ''bob'') (Some (GetPublic toy_kex ''alice'')) hello = (written, Inr (ses, []))"
  using Handshake_pair [OF toy_kex_correct toy_handshake_hyps, of "[]" "[]"] by auto

theorem no_stream_without_approval_witness:
  "(\<exists>s'. incoming_decision demo_env demo_conn demo_request True demo_node = Some s' \<and>
      dismissed demo_env demo_conn demo_request demo_node s') \<and>
   (\<exists>c rq s s'. incoming_decision demo_env c rq False s = Some s' \<and> streams s = [] \<and> streams s' = mput ''A'' 1 (streams s))"
proof -
  obtain s' where "incoming_decision demo_env demo_conn demo_request True demo_node = Some s'"
    by (simp add: incoming_decision_def Let_def)
  moreover from this have "dismissed demo_env demo_conn demo_request demo_node s'"
    using no_stream_without_approval [where E = demo_env and c = demo_conn and s = demo_node and rq = demo_request and timed_out = True]
    by blast
  moreover obtain hello written ses where h: "Handshake toy_kex (\<lambda>_. True) (Inr ''b'') (Some ''bob'')
      (Some (GetPublic toy_kex ''alice'')) hello = (written, Inr (ses, []))" by (rule asking_handshake)
  define s where "s = (newStreamManager (Some ''B''))\<lparr>chans := mput 0 [True] []\<rparr>"
  define rq where "rq = demo_request\<lparr>rq_rest := hello\<rparr>"
  obtain s2 where s2: "incoming_decision demo_env (asking_conn []) rq False s = Some s2"
    by (simp add: incoming_decision_def Let_def s_def rq_def demo_request_def gomap_simps)
  have n: "streams s = []" "node (emit ev (s\<lparr>chans := x\<rparr>)) = Some ''B''" "streams (emit ev (s\<lparr>chans := x\<rparr>)) = []" for ev x
    by (simp_all add: s_def newStreamManager_def emit_def)
  have "streams s2 \<noteq> streams s"
    using s2 h n by (auto simp: incoming_decision_def Let_def s_def rq_def demo_request_def gomap_simps asking_conn_def
        AddStream_streams demo_env_def)
  then have "streams s2 = mput ''A'' 1 (streams s)"
    using s2 no_stream_without_approval [where E = demo_env and c = "asking_conn []" and s = s and rq = rq and timed_out = False] by (auto simp: asking_conn_def)
  ultimately show ?thesis using s2 n(1) by blast
qed

text \<open>
  C38. The answer decides: let a request be shown in a state a run reaches, and let anything go on
  about messages, streams and other peers' requests (\<open>meanwhile\<close>: not a second request of the same
  peer, which takes the entry over, see \<open>second_request_takes_answer\<close>, and no other answer to this one).
  Until an answer comes the handler waits. Answering the number, on the console, or naming the peer, on
  the page, puts exactly that answer into the request's channel; and whatever goes on until the handler
  wakes up, it goes on with that answer: an acceptance is written to the stream before the handshake
  starts, a refusal opens nothing and takes only this request out of the tables.
\<close>

theorem answer_reaches_request:
  assumes "reachable E nd s" and "incoming_request E c s = (s1, Some rq)" and "(meanwhile E c rq)\<^sup>*\<^sup>* s1 t"
  shows "incoming_decision E c rq False t = None \<and>
    (\<exists>s2. RespondToConnectionRequestByNum (rq_num rq) b t = Some s2 \<and>
       (\<forall>i. peer_Decode E i = Some (c_peer c) \<longrightarrow> RespondToConnectionRequest E i b t = Some s2) \<and>
       mget [] (chans s2) (rq_chan rq) = [b] \<and>
       (\<forall>u. (meanwhile E c rq)\<^sup>*\<^sup>* s2 u \<longrightarrow>
          (\<exists>s3. incoming_decision E c rq False u = Some s3 \<and>
            (if b then s3 = cleanup_request (c_peer c) (rq_num rq) (AddStream E (c\<lparr>c_input := rq_rest rq\<rparr>)
                (emit (Wire (c_stream c) (ConnAcceptMsg @ [CHR 0x0A])) (u\<lparr>chans := mput (rq_chan rq) [] (chans u)\<rparr>)))
             else dismissed E c rq u s3))))"
proof -
  have a: "asked c rq [] t" by (rule asked_run [OF assms(3) asked_first [OF reachable_asks_ok [OF assms(1)] assms(2)]])
  let ?s2 = "t\<lparr>chans := mput (rq_chan rq) [b] (chans t)\<rparr>"
  have a2: "asked c rq [b] ?s2" using a by (simp add: asked_def gomap_simps)
  have "\<exists>s3. incoming_decision E c rq False u = Some s3 \<and>
      (if b then s3 = cleanup_request (c_peer c) (rq_num rq) (AddStream E (c\<lparr>c_input := rq_rest rq\<rparr>)
          (emit (Wire (c_stream c) (ConnAcceptMsg @ [CHR 0x0A])) (u\<lparr>chans := mput (rq_chan rq) [] (chans u)\<rparr>)))
       else dismissed E c rq u s3)" if run: "(meanwhile E c rq)\<^sup>*\<^sup>* ?s2 u" for u
  proof -
    have m: "mget [] (chans u) (rq_chan rq) = [b]" using asked_run [OF run a2] by (simp add: asked_def)
    then obtain s3 where s3: "incoming_decision E c rq False u = Some s3" by (simp add: incoming_decision_def Let_def)
    show ?thesis
    proof (cases b)
      case True
      then show ?thesis using m by (simp add: incoming_decision_def Let_def)
    next
      case False
      then show ?thesis using s3 incoming_decision_dismissed [OF s3] m by simp
    qed
  qed
  moreover have "incoming_decision E c rq False t = None" using a by (simp add: asked_def incoming_decision_def Let_def)
  moreover have "RespondToConnectionRequestByNum (rq_num rq) b t = Some ?s2"
    "\<forall>i. peer_Decode E i = Some (c_peer c) \<longrightarrow> RespondToConnectionRequest E i b t = Some ?s2"
    using a by (simp_all add: asked_def RespondToConnectionRequestByNum_def RespondToConnectionRequest_def chan_send_def)
  moreover have "mget [] (chans ?s2) (rq_chan rq) = [b]" by (simp add: gomap_simps)
  ultimately show ?thesis by blast
qed

text \<open>Between Bob's request and the answer, Carol asks and a message is sent to Bob.\<close>

theorem answer_reaches_request_witness:
  "\<exists>s1 rq t s2. incoming_request demo_env demo_conn (newStreamManager (Some ''A'')) = (s1, Some rq) \<and>
     t = fst (incoming_request demo_env (demo_conn\<lparr>c_peer := ''C''\<rparr>) (fst (sendChat demo_env ''B'' ''hi'' s1))) \<and>
     RespondToConnectionRequestByNum (rq_num rq) True t = Some s2 \<and> mget [] (chans s2) (rq_chan rq) = [True]"
proof -
  let ?s = "newStreamManager (Some ''A'')"
  have rs: "readLine (c_input demo_conn) = Some (''__CONNREQ__:bob'', [])"
    using ReadString_line [of "''__CONNREQ__:bob''" "[]"]
    by (simp add: readLine_def demo_conn_def) (simp add: TrimSpace_graphic graphic_def)
  obtain s1 rq where r: "incoming_request demo_env demo_conn ?s = (s1, Some rq)"
    by (simp add: incoming_request_def rs HasPrefix_def ConnReqPrefix_def Let_def)
  let ?t = "fst (incoming_request demo_env (demo_conn\<lparr>c_peer := ''C''\<rparr>) (fst (sendChat demo_env ''B'' ''hi'' s1)))"
  have "c_peer (demo_conn\<lparr>c_peer := ''C''\<rparr>) \<noteq> c_peer demo_conn" by (simp add: demo_conn_def)
  then have m2: "meanwhile demo_env demo_conn rq (fst (sendChat demo_env ''B'' ''hi'' s1)) ?t" by (rule meanwhile.request)
  have m1: "meanwhile demo_env demo_conn rq s1 (fst (sendChat demo_env ''B'' ''hi'' s1))" by (rule meanwhile.send_chat)
  have "(meanwhile demo_env demo_conn rq)\<^sup>*\<^sup>* s1 ?t"
    by (rule converse_rtranclp_into_rtranclp [where r = "meanwhile demo_env demo_conn rq", OF m1
        r_into_rtranclp [where r = "meanwhile demo_env demo_conn rq", OF m2]])
  moreover have "reachable demo_env (Some ''A'') ?s" by (simp add: reachable_def)
  ultimately show ?thesis using r answer_reaches_request [of demo_env "Some ''A''" ?s demo_conn s1 rq ?t True] by metis
qed

end
