(* ===== verification/Isolation.thy ===== *)
theory Isolation
  imports Conversation
begin

text \<open>
  A node talks to many peers at once. The steps that concern other peers, whatever those peers send,
  leave the conversation with one peer alone: its session, its numbers and tables, the bytes on its
  stream, and what the user sees from it.
\<close>

section \<open>Steps about other peers\<close>

text \<open>The stream \<open>st\<close> belongs to the peer \<open>p\<close> alone.\<close>

definition owns :: "pid \<Rightarrow> nat \<Rightarrow> stream_manager \<Rightarrow> bool" where
  "owns p st s \<longleftrightarrow> (\<forall>q. mlookup (streams s) q = Some st \<longrightarrow> q = p)"

text \<open>The two states agree on everything about the peer \<open>p\<close> and its stream \<open>st\<close>.\<close>

definition apart :: "env \<Rightarrow> pid \<Rightarrow> nat \<Rightarrow> stream_manager \<Rightarrow> stream_manager \<Rightarrow> bool" where
  "apart E p st s s' \<longleftrightarrow>
     tick s \<le> tick s' \<and> node s' = node s \<and>
     mlookup (streams s') p = mlookup (streams s) p \<and> mlookup (sessions s') p = mlookup (sessions s) p \<and>
     mlookup (sendSeq s') p = mlookup (sendSeq s) p \<and> mlookup (recvSeq s') p = mlookup (recvSeq s) p \<and>
     mlookup (recvBuffer s') p = mlookup (recvBuffer s) p \<and> mlookup (pending s') p = mlookup (pending s) p \<and>
     lines_on st s' = lines_on st s \<and> delivered E p s' = delivered E p s \<and>
     (owns p st s \<longrightarrow> owns p st s')"

text \<open>
  Everything a node does about other peers \<open>q\<close>: sending, reading any line from them, sending again,
  forgetting them, opening connections and answering requests on other streams.
\<close>

inductive other_step :: "env \<Rightarrow> pid \<Rightarrow> nat \<Rightarrow> stream_manager \<Rightarrow> stream_manager \<Rightarrow> bool" for E p st where
  send_chat: "q \<noteq> p \<Longrightarrow> other_step E p st s (fst (sendChat E q text s))"
| send_control: "q \<noteq> p \<Longrightarrow> other_step E p st s (fst (sendControl E q body s))"
| line: "q \<noteq> p \<Longrightarrow> readLoop_line E q l s = Some s' \<Longrightarrow> other_step E p st s s'"
| forget: "q \<noteq> p \<Longrightarrow> other_step E p st s (forgetPeer E q s)"
| add: "c_peer c \<noteq> p \<Longrightarrow> c_stream c \<noteq> st \<Longrightarrow> other_step E p st s (AddStream E c s)"
| resend_one: "fst item \<noteq> p \<Longrightarrow> other_step E p st s (resend E now item s)"
| request: "other_step E p st s (fst (incoming_request E c s))"
| decision: "c_peer c \<noteq> p \<Longrightarrow> c_stream c \<noteq> st \<Longrightarrow> incoming_decision E c rq t s = Some s' \<Longrightarrow> other_step E p st s s'"
| respond: "RespondToConnectionRequest E i b s = Some s' \<Longrightarrow> other_step E p st s s'"
| respond_num: "RespondToConnectionRequestByNum n b s = Some s' \<Longrightarrow> other_step E p st s s'"

lemma other_step_ok: "other_step E p st s s' \<Longrightarrow> sm_ok s \<Longrightarrow> sm_ok s'"
  by (rule sm_step_ok [of E]) (auto elim!: other_step.cases intro: sm_step.intros)

section \<open>What they leave alone\<close>

named_theorems apart_intros

lemma apart_refl [apart_intros]: "apart E p st s s"
  by (simp add: apart_def)

lemma apart_trans: "apart E p st s s' \<Longrightarrow> apart E p st s' s'' \<Longrightarrow> apart E p st s s''"
  by (simp add: apart_def)

lemma apart_owns: "apart E p st s s' \<Longrightarrow> owns p st s \<Longrightarrow> owns p st s'"
  by (simp add: apart_def)

lemma apart_ticked [apart_intros]: "apart E p st s0 s \<Longrightarrow> apart E p st s0 (ticked s)"
  by (erule apart_trans) (simp add: apart_def, simp add: ticked_def lines_on_def owns_def)

lemma apart_emit:
  assumes "apart E p st s0 s" and "written st ev = []" and "incoming E p ev = []"
  shows "apart E p st s0 (emit ev s)"
proof -
  have "lines_on st (emit ev s) = lines_on st s" using assms(2) by (simp add: lines_on_def emit_def)
  moreover have "delivered E p (emit ev s) = delivered E p s" using assms(3) by (simp add: delivered_emit)
  ultimately have "apart E p st s (emit ev s)" by (simp add: apart_def) (simp add: emit_def owns_def)
  then show ?thesis by (rule apart_trans [OF assms(1)])
qed

lemma apart_emits [apart_intros]:
  assumes "apart E p st s0 s"
  shows "apart E p st s0 (emit (Console c) s)" "apart E p st s0 (emit (Closed st') s)" "apart E p st s0 (emit (StartReader st' b) s)"
    "apart E p st s0 (emit (SendHistory i) s)" "st' \<noteq> st \<Longrightarrow> apart E p st s0 (emit (Wire st' b) s)"
    "apart E p st s0 (emit (Web NotifyWebPeerUpdate) s)" "apart E p st s0 (emit (Web (NotifyWebError t)) s)"
    "apart E p st s0 (emit (Web (NotifyPeerDisconnected i n h)) s)" "apart E p st s0 (emit (Web (NotifyConnectionRequest i n h)) s)"
  by (rule apart_emit [OF assms]; simp add: written_def incoming_def)+

text \<open>Updates of tables at other peers.\<close>

lemma apart_tables [apart_intros]:
  assumes "apart E p st s0 s"
  shows "mlookup x1 p = mlookup (sessions s) p \<Longrightarrow> apart E p st s0 (s\<lparr>sessions := x1\<rparr>)"
    "mlookup x2 p = mlookup (sendSeq s) p \<Longrightarrow> apart E p st s0 (s\<lparr>sendSeq := x2\<rparr>)"
    "mlookup x3 p = mlookup (recvSeq s) p \<Longrightarrow> apart E p st s0 (s\<lparr>recvSeq := x3\<rparr>)"
    "mlookup x4 p = mlookup (recvBuffer s) p \<Longrightarrow> apart E p st s0 (s\<lparr>recvBuffer := x4\<rparr>)"
    "mlookup x5 p = mlookup (pending s) p \<Longrightarrow> apart E p st s0 (s\<lparr>pending := x5\<rparr>)"
    "apart E p st s0 (s\<lparr>peerNicks := x6\<rparr>)" "apart E p st s0 (s\<lparr>concurrentTestReceived := x7\<rparr>)"
    "apart E p st s0 (s\<lparr>nextAddr := x8\<rparr>)" "apart E p st s0 (s\<lparr>chans := x9\<rparr>)"
    "apart E p st s0 (s\<lparr>pendingApprovals := x10\<rparr>)" "apart E p st s0 (s\<lparr>pendingRequestNums := x11\<rparr>)"
    "apart E p st s0 (s\<lparr>nextRequestNum := x12\<rparr>)"
  using assms by (simp_all add: apart_def lines_on_def delivered_def owns_def)

lemma apart_pending [apart_intros]:
  assumes "apart E p st s0 s" and "q \<noteq> p"
  shows "apart E p st s0 (ackPending q i s)" "apart E p st s0 (trackPending E q e s)" "apart E p st s0 (settle now q m err s)"
  using assms
  by (auto simp: ackPending_def trackPending_def settle_def drop_pending_def Let_def gomap_simps split: option.split
      intro!: apart_intros)

lemma apart_sendEnvelope [apart_intros]:
  "apart E p st s0 s \<Longrightarrow> q \<noteq> p \<Longrightarrow> st' \<noteq> st \<Longrightarrow> apart E p st s0 (fst (sendEnvelope E q st' ses e s))"
  by (auto simp: sendEnvelope_def Let_def gomap_simps split: sum.split prod.split intro!: apart_intros)

text \<open>From here on the stream belongs to the peer, and the others go by other names.\<close>

definition others :: "env \<Rightarrow> pid \<Rightarrow> nat \<Rightarrow> stream_manager \<Rightarrow> bool" where
  "others E p st s \<longleftrightarrow> owns p st s \<and> (\<forall>q. q \<noteq> p \<longrightarrow> peer_String E q \<noteq> peer_String E p)"

lemma apart_others: "apart E p st s s' \<Longrightarrow> others E p st s \<Longrightarrow> others E p st s'"
  by (simp add: others_def apart_owns)

lemma others_stream: "others E p st s \<Longrightarrow> q \<noteq> p \<Longrightarrow> mlookup (streams s) q = Some st' \<Longrightarrow> st' \<noteq> st"
  by (auto simp: others_def owns_def)

lemma apart_build [apart_intros]: "apart E p st s0 s \<Longrightarrow> apart E p st s0 (fst (build_envelope E q typ n b s))"
  by (auto simp: build_envelope_def split: option.split intro!: apart_intros)

lemma apart_sendBuilt:
  assumes o: "others E p st s0" and a: "apart E p st s0 s" and q: "q \<noteq> p"
    and build: "\<And>s. apart E p st s0 s \<Longrightarrow> apart E p st s0 (fst (build s))"
  shows "apart E p st s0 (fst (sendBuilt E q build s))"
proof -
  obtain s1 r where b: "build s = (s1, r)" by (cases "build s")
  then have "apart E p st s0 s1" using build [OF a] by simp
  moreover have "st' \<noteq> st" if "mlookup (streams s) q = Some st'" for st'
    by (rule others_stream [OF apart_others [OF a o] q that])
  ultimately show ?thesis
    using a q b by (auto simp: sendBuilt_def split: option.split sum.split intro!: apart_intros)
qed

lemma apart_send [apart_intros]:
  assumes "others E p st s0" and "apart E p st s0 s" and "q \<noteq> p"
  shows "apart E p st s0 (fst (sendAck E q i s))" "apart E p st s0 (fst (sendControl E q body s))"
  unfolding sendAck_def sendControl_def
  by (intro apart_sendBuilt assms; simp add: newAckEnvelope_def newControlEnvelope_def apart_build)+

lemma apart_or_print:
  "apart E p st s0 (fst x) \<Longrightarrow> apart E p st s0 (case x of (s', None) \<Rightarrow> s' | (s', Some err) \<Rightarrow> emit (Console c) s')"
  by (auto split: prod.split option.split intro!: apart_intros)

lemma apart_ack [apart_intros]:
  "others E p st s0 \<Longrightarrow> apart E p st s0 s \<Longrightarrow> q \<noteq> p \<Longrightarrow> apart E p st s0 (ack_or_print E q i s)"
  unfolding ack_or_print_def by (intro apart_or_print apart_intros)

lemma apart_deliver [apart_intros]:
  assumes "others E p st s0" and "apart E p st s0 s" and "q \<noteq> p"
  shows "apart E p st s0 (deliverChat E q t s)"
proof -
  have "incoming E p (Web (NotifyWebMessage (peer_String E q) d t False (peer_String E q) True)) = []" for d
    using assms(1,3) by (auto simp: incoming_def others_def)
  then show ?thesis
    using assms(2) unfolding deliverChat_def Let_def split_def
    by (intro apart_emit) (auto simp: written_def incoming_def intro!: apart_intros)
qed

lemma apart_drain [apart_intros]:
  assumes "others E p st s0" and "q \<noteq> p" and "apart E p st s0 s"
  shows "apart E p st s0 (drainReceiveBuffer E q s)"
  using assms
proof (induction E q s rule: drainReceiveBuffer.induct)
  case (1 E q s)
  show ?case
  proof (cases "drain_step E q s")
    case None
    then show ?thesis using 1 by (subst drainReceiveBuffer.simps) simp
  next
    case (Some s')
    then have "apart E p st s0 s'"
      using 1 by (auto simp: drain_step_def Let_def gomap_simps split: option.splits if_splits intro!: apart_intros)
    then show ?thesis using 1 Some by (subst drainReceiveBuffer.simps) simp
  qed
qed

lemma apart_chat [apart_intros]:
  "others E p st s0 \<Longrightarrow> q \<noteq> p \<Longrightarrow> apart E p st s0 s \<Longrightarrow> apart E p st s0 (handleChat E q e t s)"
  by (auto simp: handleChat_def Let_def gomap_simps intro!: apart_intros)

lemma apart_control [apart_intros]:
  assumes "others E p st s0" and "q \<noteq> p" and "apart E p st s0 s"
  shows "apart E p st s0 (handleControl E q body s)"
  using assms unfolding handleControl_def Let_def
  by (auto intro!: apart_or_print apart_intros)

lemma apart_envelope [apart_intros]:
  assumes "others E p st s0" and "q \<noteq> p" and "apart E p st s0 s"
  shows "apart E p st s0 (handleEnvelope E q e s)"
  using assms unfolding handleEnvelope_def
  by (auto split: option.split intro!: apart_intros)

lemma apart_line:
  assumes "others E p st s" and "q \<noteq> p" and "readLoop_line E q l s = Some s'"
  shows "apart E p st s s'"
  using assms
  by (auto simp: readLoop_line_def Let_def gomap_simps split: option.splits prod.splits sum.splits intro!: apart_intros)

lemma apart_sendChat:
  assumes o: "others E p st s" and q: "q \<noteq> p"
  shows "apart E p st s (fst (sendChat E q t s))"
proof -
  have st: "st' \<noteq> st" if "mlookup (streams s) q = Some st'" for st' by (rule others_stream [OF o q that])
  let ?n = "mget 0 (sendSeq s) q + 1"
  obtain s2 r where b: "newChatEnvelope E q ?n t (s\<lparr>sendSeq := mput q ?n (sendSeq s)\<rparr>) = (s2, r)"
    by (cases "newChatEnvelope E q ?n t (s\<lparr>sendSeq := mput q ?n (sendSeq s)\<rparr>)")
  have "apart E p st s (fst (newChatEnvelope E q ?n t (s\<lparr>sendSeq := mput q ?n (sendSeq s)\<rparr>)))"
    using q unfolding newChatEnvelope_def by (auto simp: gomap_simps intro!: apart_intros)
  then have s2: "apart E p st s s2" using b by simp
  have s3: "apart E p st s s3" if "sendEnvelope E q st' ses e (trackPending E q e s2) = (s3, r')" "st' \<noteq> st" for st' ses e s3 r'
    using apart_sendEnvelope [OF apart_pending(2) [OF s2 q] q that(2)] that(1) by (metis fst_conv)
  show ?thesis
    using b s2 s3 st q by (auto simp: sendChat_def Let_def split: option.split sum.split prod.split intro!: apart_intros)
qed

lemma apart_forget:
  "q \<noteq> p \<Longrightarrow> apart E p st s (forgetPeer E q s)"
  unfolding forgetPeer_def clearPending_def Let_def split_def
  by (intro apart_intros) (auto simp: apart_def gomap_simps lines_on_def delivered_def owns_def)

lemma apart_register [apart_intros]:
  "apart E p st s0 s \<Longrightarrow> q \<noteq> p \<Longrightarrow> st' \<noteq> st \<Longrightarrow> apart E p st s0 (register q st' ses s)"
  by (erule apart_trans) (auto simp: apart_def register_def gomap_simps lines_on_def delivered_def owns_def)

lemma apart_nickname [apart_intros]:
  "others E p st s0 \<Longrightarrow> apart E p st s0 s \<Longrightarrow> q \<noteq> p \<Longrightarrow> apart E p st s0 (send_nickname E q s)"
  unfolding send_nickname_def by (auto intro!: apart_or_print apart_intros)

lemma apart_add [apart_intros]:
  assumes "others E p st s0" and "c_peer c \<noteq> p" and "c_stream c \<noteq> st" and "apart E p st s0 s"
  shows "apart E p st s0 (AddStream E c s)"
  using assms unfolding AddStream_def Let_def
  by (auto split: option.split prod.split sum.split intro!: apart_intros)

lemma apart_cleanup [apart_intros]: "apart E p st s0 s \<Longrightarrow> apart E p st s0 (cleanup_request q n s)"
  unfolding cleanup_request_def Let_def by (erule apart_trans) (simp add: apart_def lines_on_def delivered_def owns_def)

lemma apart_request: "apart E p st s (fst (incoming_request E c s))"
  unfolding incoming_request_def Let_def
  by (auto split: option.split prod.split intro!: apart_intros apart_emits)

lemma apart_decision:
  assumes "others E p st s" and "c_peer c \<noteq> p" and "c_stream c \<noteq> st" and "incoming_decision E c rq t s = Some s'"
  shows "apart E p st s s'"
  using assms
  by (auto simp: incoming_decision_def Let_def split: if_splits list.splits intro!: apart_intros)

lemma apart_resend:
  assumes o: "others E p st s" and q: "fst item \<noteq> p"
  shows "apart E p st s (resend E now item s)"
proof -
  have "st' \<noteq> st" if "mlookup (streams s) (fst item) = Some st'" for st' by (rule others_stream [OF o q that])
  moreover have "apart E p st s s1" if "sendEnvelope E (fst item) st' ses e s = (s1, err)" "st' \<noteq> st" for st' ses e s1 err
    using apart_sendEnvelope [OF apart_refl q that(2)] that(1) by (metis fst_conv)
  ultimately show ?thesis using q by (auto simp: resend_def split: option.split prod.split intro!: apart_intros)
qed

lemma apart_respond:
  "RespondToConnectionRequest E i b s = Some s' \<Longrightarrow> apart E p st s s'"
  "RespondToConnectionRequestByNum n b s = Some s' \<Longrightarrow> apart E p st s s'"
  by (auto simp: RespondToConnectionRequest_def RespondToConnectionRequestByNum_def chan_send_def
      split: option.splits list.splits intro!: apart_intros)

lemma other_step_apart: "other_step E p st s s' \<Longrightarrow> others E p st s \<Longrightarrow> apart E p st s s'"
  by (erule other_step.cases)
    (simp_all add: apart_sendChat apart_send apart_refl apart_line apart_forget apart_add apart_resend apart_request
      apart_decision apart_respond)

interpretation other_run: run_invariant "other_step E p st" "\<lambda>s. others E p st s \<and> apart E p st s0 s" for E p st s0
  by unfold_locales (blast intro: other_step_apart apart_others apart_trans)

section \<open>Properties\<close>

text \<open>
  C5. Conversations do not interfere: whatever a node does about other peers, in any number and
  order of steps (lines with any content read from them, messages sent, acknowledged and sent again,
  connections opened, accepted, refused and lost), the conversation with the peer \<open>p\<close> stays exactly as
  it was: its stream and session with all counters, its sequence numbers, the messages that wait in
  either direction, the bytes on its stream, and the texts the user has seen from it.
\<close>

theorem conversations_isolated:
  assumes "(other_step E p st)\<^sup>*\<^sup>* s s'"
    and "\<forall>q. q \<noteq> p \<longrightarrow> peer_String E q \<noteq> peer_String E p"
    and "\<forall>q. mlookup (streams s) q = Some st \<longrightarrow> q = p"
  shows "mlookup (streams s') p = mlookup (streams s) p \<and> mlookup (sessions s') p = mlookup (sessions s) p \<and>
    mlookup (sendSeq s') p = mlookup (sendSeq s) p \<and> mlookup (recvSeq s') p = mlookup (recvSeq s) p \<and>
    mlookup (recvBuffer s') p = mlookup (recvBuffer s) p \<and> mlookup (pending s') p = mlookup (pending s) p \<and>
    lines_on st s' = lines_on st s \<and> delivered E p s' = delivered E p s"
proof -
  have "others E p st s \<and> apart E p st s s" using assms(2,3) by (simp add: others_def owns_def apart_refl)
  then have "others E p st s' \<and> apart E p st s s'" by (rule other_run.run_good [OF assms(1)])
  then show ?thesis by (simp add: apart_def)
qed

text \<open>The node of the example with a second connection, on which it sends a message before it is lost.\<close>

definition demo_two_peers :: stream_manager where
  "demo_two_peers = register ''C'' 2 high_session demo_A"

theorem conversations_isolated_witness:
  "mlookup (streams demo_two_peers) ''C'' = Some 2 \<and> mlookup (sessions demo_two_peers) ''B'' = Some low_session \<and>
    mlookup (sessions (forgetPeer still_env ''C'' (fst (sendChat still_env ''C'' ''hi'' demo_two_peers)))) ''B'' = Some low_session"
proof -
  let ?start = demo_two_peers
  let ?s = "forgetPeer still_env ''C'' (fst (sendChat still_env ''C'' ''hi'' ?start))"
  have "other_step still_env ''B'' 1 ?start (fst (sendChat still_env ''C'' ''hi'' ?start))" by (rule other_step.send_chat) simp
  moreover have "other_step still_env ''B'' 1 (fst (sendChat still_env ''C'' ''hi'' ?start)) ?s" by (rule other_step.forget) simp
  ultimately have "(other_step still_env ''B'' 1)\<^sup>*\<^sup>* ?start ?s" by (meson r_into_rtranclp rtranclp_trans)
  moreover have st: "mlookup (streams ?start) q = Some 1 \<longrightarrow> q = ''B''" "mlookup (streams ?start) ''C'' = Some 2"
      "mlookup (sessions ?start) ''B'' = Some low_session" for q
    by (auto simp: demo_two_peers_def register_def demo_A_def newStreamManager_def gomap_simps) (simp_all add: mlookup_def split: if_splits)
  ultimately have "mlookup (sessions ?s) ''B'' = mlookup (sessions ?start) ''B''"
    using conversations_isolated [of still_env "''B''" 1 ?start ?s] by (simp add: still_env_def demo_env_def)
  then show ?thesis using st by simp
qed

end
