(* ===== verification/Node_Effects.thy ===== *)
theory Node_Effects
  imports Isolation
begin

text \<open>
  What one step of a node puts on the stream to a peer and what it changes: the effects of
  \<open>sendEnvelope\<close>, \<open>sendChat\<close>, \<open>sendAck\<close>, \<open>sendControl\<close>, of a message sent again, and of a line
  read, each as a list of posted envelopes. The theory of two nodes rests on these lemmas alone.
\<close>

section \<open>Links and posted envelopes\<close>

text \<open>One end of a connection: the environment of the node, its own and the remote identifier, the stream.\<close>

record link =
  l_env :: env
  l_self :: pid
  l_peer :: pid
  l_stream :: nat

text \<open>An envelope this end may have on the wire at the given time.\<close>

definition sound_envelope :: "link \<Rightarrow> int \<Rightarrow> Envelope \<Rightarrow> bool" where
  "sound_envelope L now e \<longleftrightarrow>
     v2_rules now e \<and> wire_exact e \<and> eTimestamp e \<le> now \<and> eType e \<in> {TypeChat, TypeAck, TypeControl} \<and>
     eConversation e = conversationID (l_env L) (l_self L) (l_peer L) \<and>
     eSender e = peer_String (l_env L) (l_self L)"

text \<open>The lines of consecutive packets, after the counter \<open>c\<close>.\<close>

fun packets :: "aead_lib \<Rightarrow> bytes \<Rightarrow> char \<Rightarrow> u64 \<Rightarrow> Envelope list \<Rightarrow> string list" where
  "packets A k d c [] = []"
| "packets A k d c (e # es) =
     (sealed_packet A k d (c + 1) (json_object (envelope_members e)) @ [CHR 0x0A]) # packets A k d (c + 1) es"

lemma packets_append: "packets A k d c (es @ fs) = packets A k d c es @ packets A k d (c + of_nat (length es)) fs"
  by (induction es arbitrary: c) (simp_all add: ac_simps)

lemma packets_length [simp]: "length (packets A k d c es) = length es"
  by (induction es arbitrary: c) simp_all

definition ready :: "link \<Rightarrow> stream_manager \<Rightarrow> bool" where
  "ready L s \<longleftrightarrow>
     node s = Some (l_self L) \<and> mlookup (streams s) (l_peer L) = Some (l_stream L) \<and> owns (l_peer L) (l_stream L) s \<and>
     (\<exists>ses k. mlookup (sessions s) (l_peer L) = Some ses \<and> sendAEAD ses = Some k)"

definition posts :: "link \<Rightarrow> Envelope list \<Rightarrow> stream_manager \<Rightarrow> stream_manager \<Rightarrow> bool" where
  "posts L es s s' \<longleftrightarrow>
     tick s \<le> tick s' \<and> node s' = node s \<and> mlookup (streams s') (l_peer L) = mlookup (streams s) (l_peer L) \<and>
     (owns (l_peer L) (l_stream L) s \<longrightarrow> owns (l_peer L) (l_stream L) s') \<and>
     (\<forall>e \<in> set es. sound_envelope L (now_ms (l_env L) (tick s')) e) \<and>
     (\<forall>ses k. mlookup (sessions s) (l_peer L) = Some ses \<longrightarrow> sendAEAD ses = Some k \<longrightarrow>
        mlookup (sessions s') (l_peer L) = Some (ses\<lparr>sendCtr := sendCtr ses + of_nat (length es)\<rparr>) \<and>
        lines_on (l_stream L) s' = lines_on (l_stream L) s
          @ packets (aead (l_env L)) k (sendDir ses) (sendCtr ses) es)"

text \<open>The tables a step about something else keeps.\<close>

definition kept :: "link \<Rightarrow> stream_manager \<Rightarrow> stream_manager \<Rightarrow> bool" where
  "kept L s s' \<longleftrightarrow>
     sendSeq s' = sendSeq s \<and> pending s' = pending s \<and> recvSeq s' = recvSeq s \<and> recvBuffer s' = recvBuffer s \<and>
     delivered (l_env L) (l_peer L) s' = delivered (l_env L) (l_peer L) s"

lemma now_ms_mono: "healthy E \<Longrightarrow> t \<le> t' \<Longrightarrow> now_ms E t \<le> now_ms E t'"
  by (rule lift_Suc_mono_le) (rule healthy_mono)

lemma sound_later: "sound_envelope L now e \<Longrightarrow> now \<le> now' \<Longrightarrow> sound_envelope L now' e"
  by (auto simp: sound_envelope_def intro: v2_rules_later)

lemma posts_trans:
  assumes "healthy (l_env L)" and "posts L es s s'" and "posts L fs s' s''"
  shows "posts L (es @ fs) s s''"
proof -
  have "now_ms (l_env L) (tick s') \<le> now_ms (l_env L) (tick s'')"
    using assms by (intro now_ms_mono) (simp_all add: posts_def)
  then have "\<forall>e \<in> set es. sound_envelope L (now_ms (l_env L) (tick s'')) e"
    using assms(2) unfolding posts_def by (blast intro: sound_later)
  then show ?thesis
    using assms(2,3) by (simp add: posts_def packets_append ball_Un add.assoc)
qed

lemma posts_ready: "posts L es s s' \<Longrightarrow> ready L s \<Longrightarrow> ready L s'"
  by (auto simp: posts_def ready_def)

lemma posts_quiet:
  assumes "tick s \<le> tick s'" "node s' = node s" "streams s' = streams s" "sessions s' = sessions s"
    "lines_on (l_stream L) s' = lines_on (l_stream L) s"
  shows "posts L [] s s'"
  using assms by (simp add: posts_def owns_def)

lemma kept_trans: "kept L s s' \<Longrightarrow> kept L s' s'' \<Longrightarrow> kept L s s''"
  by (simp add: kept_def)

lemma kept_sends:
  assumes "only_sends r s s'"
  shows "kept L s s'"
  using only_sends_fields [OF assms] delivered_only_sends [OF assms] by (simp add: kept_def)

lemma kept_ticked [simp]: "kept L s (ticked s)"
  by (rule kept_sends) (rule only_sends_ticked)

lemma lines_emit: "lines_on st (emit ev s) = lines_on st s @ written st ev"
  by (simp add: lines_on_def emit_def)

lemma lines_same: "out s' = out s \<Longrightarrow> lines_on st s' = lines_on st s"
  by (simp add: lines_on_def)

lemma written_other [simp]: "written st (Console c) = []" "written st (Web w) = []"
  by (simp_all add: written_def)

lemma posts_ticked [simp]: "posts L [] s (ticked s)"
  by (rule posts_quiet) (simp_all add: ticked_def lines_on_def)

lemma posts_console [simp]: "posts L [] s (emit (Console c) s)" "posts L [] s (emit (Web w) s)"
proof -
  have *: "posts L [] s (emit ev s)" if "written (l_stream L) ev = []" for ev
    using that by (intro posts_quiet) (simp_all add: lines_emit, simp_all add: emit_def)
  show "posts L [] s (emit (Console c) s)" "posts L [] s (emit (Web w) s)" by (simp_all add: *)
qed

section \<open>Sending\<close>

text \<open>An end on which nothing fails, and where no other peer goes by the name of the remote one.\<close>

definition fit :: "link \<Rightarrow> bool" where
  "fit L \<longleftrightarrow> healthy (l_env L) \<and> good_name (peer_String (l_env L) (l_self L)) \<and>
     (\<forall>q. q \<noteq> l_peer L \<longrightarrow> peer_String (l_env L) q \<noteq> peer_String (l_env L) (l_peer L))"

definition good_body :: "bytes \<Rightarrow> bool" where
  "good_body b \<longleftrightarrow> settled inner_nesting b \<and> json_Valid b \<and> length b \<le> 49152"

lemma good_bodyI: "(\<And>d. settled (Suc d) b) \<Longrightarrow> length b \<le> 49152 \<Longrightarrow> good_body b"
proof -
  assume b: "\<And>d. settled (Suc d) b" "length b \<le> 49152"
  have "inner_nesting = Suc (inner_nesting - 1)" by (simp add: inner_nesting_def max_nesting_def)
  then have "settled inner_nesting b" using b(1) by metis
  moreover have "json_Valid b" using settled_valid b(1) [of inner_nesting] by (simp add: Suc_inner)
  ultimately show ?thesis using b(2) by (simp add: good_body_def)
qed

lemma build_good:
  assumes f: "fit L" and r: "ready L s" and ty: "typ \<in> {TypeChat, TypeAck, TypeControl}" and b: "good_body b"
    and q: "typ = TypeChat \<Longrightarrow> q \<noteq> 0"
  obtains e where "build_envelope (l_env L) (l_peer L) typ q b s = (ticked (ticked s), Inr e)"
    "eType e = typ" "eBody e = b" "eSequence e = q" "sound_envelope L (now_ms (l_env L) (tick s)) e"
proof -
  let ?E = "l_env L" and ?t = "tick s"
  obtain raw where raw: "rand_read ?E ?t 16 = Some raw" "length raw = 16"
    using f unfolding fit_def healthy_def by metis
  let ?e = "\<lparr>eVersion = 2, eType = typ, eID = raw_url_encode raw, eConversation = conversationID ?E (l_self L) (l_peer L),
    eSender = peer_String ?E (l_self L), eTimestamp = now_ms ?E ?t, eSequence = q, eBody = b\<rparr>"
  have len: "length (raw_url_encode raw) = 22" using raw by (simp add: raw_url_encode_length)
  have ne: "conversationID ?E (l_self L) (l_peer L) \<noteq> []" using conversationID_len [of ?E "l_self L" "l_peer L"] by auto
  have ts: "0 < now_ms ?E ?t" "now_ms ?E ?t < 2 ^ 63" and nm: "good_name (peer_String ?E (l_self L))"
    using f by (auto simp: fit_def healthy_def)
  have rules: "v2_rules now ?e" if "now_ms ?E ?t \<le> now + 300000" for now
    using that ty q b ts nm ne
    by (auto simp: v2_rules_def Valid_def good_name_def good_body_def len conversationID_len word_neq_0_conv)
  have "wire_exact ?e"
    using ty b ts nm
    by (auto simp: wire_exact_def good_name_def good_body_def graphic_ascii raw_url_encode_graphic conversationID_graphic
        message_type_defs to_valid_ascii)
  then have s: "sound_envelope L (now_ms ?E ?t) ?e"
    using rules ty by (simp add: sound_envelope_def)
  have "now_ms ?E ?t \<le> now_ms ?E (Suc ?t) + 300000" using f healthy_mono [of ?E ?t] by (simp add: fit_def)
  then have "Validate (now_ms ?E (Suc ?t)) (Some ?e) = None" using rules by (simp add: Validate_None_iff)
  then have "build_envelope ?E (l_peer L) typ q b s = (ticked (ticked s), Inr ?e)"
    using r raw by (simp add: build_envelope_def newEnvelope_def NewID_def Let_def Version_def ready_def)
  then show thesis using s that [of ?e] by simp
qed

lemma send_posts:
  assumes f: "fit L" and r: "ready L s" and ses: "mlookup (sessions s) (l_peer L) = Some ses"
    and e: "sound_envelope L (now_ms (l_env L) (tick s)) e"
  shows "snd (sendEnvelope (l_env L) (l_peer L) (l_stream L) ses e s) = None"
    "posts L [e] s (fst (sendEnvelope (l_env L) (l_peer L) (l_stream L) ses e s))"
    "only_sends (l_peer L) s (fst (sendEnvelope (l_env L) (l_peer L) (l_stream L) ses e s))"
proof -
  obtain k where k: "sendAEAD ses = Some k" using r ses by (auto simp: ready_def)
  have w: "write_ok (l_env L) (Suc (tick s))" using f by (simp add: fit_def healthy_def)
  have v: "v2_rules (now_ms (l_env L) (tick s)) e" "wire_exact e" using e by (simp_all add: sound_envelope_def)
  note send = sendEnvelope_ok [OF v k w, of "l_peer L" "l_stream L"]
  show "snd (sendEnvelope (l_env L) (l_peer L) (l_stream L) ses e s) = None" by (simp add: send)
  let ?s = "fst (sendEnvelope (l_env L) (l_peer L) (l_stream L) ses e s)"
  have t: "tick ?s = Suc (Suc (tick s))" "node ?s = node s" "streams ?s = streams s"
    "mlookup (sessions ?s) (l_peer L) = Some (ses\<lparr>sendCtr := sendCtr ses + 1\<rparr>)"
    by (simp_all add: send emit_def) (simp_all add: ticked_def gomap_simps)
  have "lines_on (l_stream L) ?s = lines_on (l_stream L) s
      @ packets (aead (l_env L)) k (sendDir ses) (sendCtr ses) [e]"
    by (simp add: send lines_emit written_def) (simp add: lines_on_def ticked_def)
  moreover have "sound_envelope L (now_ms (l_env L) (tick ?s)) e"
    by (rule sound_later [OF e]) (use f t in \<open>simp add: fit_def now_ms_mono\<close>)
  ultimately show "posts L [e] s ?s" using ses k t by (simp add: posts_def owns_def)
  show "only_sends (l_peer L) s ?s" by (rule sendEnvelope_only_sends) (simp add: ses)
qed

lemma sendBuilt_posts:
  assumes f: "fit L" and r: "ready L s" and ty: "typ \<in> {TypeAck, TypeControl}" and b: "good_body b"
    and build: "build = build_envelope (l_env L) (l_peer L) typ 0 b"
  obtains e s' where "sendBuilt (l_env L) (l_peer L) build s = (s', None)" "eType e = typ" "eBody e = b"
    "posts L [e] s s'" "kept L s s'"
proof -
  obtain ses where ses: "mlookup (streams s) (l_peer L) = Some (l_stream L)" "mlookup (sessions s) (l_peer L) = Some ses"
    using r by (auto simp: ready_def)
  have "typ \<in> {TypeChat, TypeAck, TypeControl}" "typ = TypeChat \<Longrightarrow> (0::u64) \<noteq> 0"
    using ty by (auto simp: message_type_defs)
  from build_good [OF f r this(1) b this(2)] obtain e where
    e: "build_envelope (l_env L) (l_peer L) typ 0 b s = (ticked (ticked s), Inr e)" "eType e = typ" "eBody e = b"
      "sound_envelope L (now_ms (l_env L) (tick s)) e" by metis
  let ?s = "ticked (ticked s)"
  have p2: "posts L [] s ?s" using posts_trans [OF _ posts_ticked posts_ticked] f by (simp add: fit_def)
  have t: "sound_envelope L (now_ms (l_env L) (tick ?s)) e"
    by (rule sound_later [OF e(4)]) (use f in \<open>simp add: fit_def now_ms_mono ticked_def\<close>)
  have ses': "mlookup (sessions ?s) (l_peer L) = Some ses" using ses by (simp add: ticked_def)
  note sp = send_posts [OF f posts_ready [OF p2 r] ses' t]
  let ?s' = "fst (sendEnvelope (l_env L) (l_peer L) (l_stream L) ses e ?s)"
  have eq: "sendBuilt (l_env L) (l_peer L) build s = (?s', None)"
    using ses e(1) sp(1) unfolding build by (cases "sendEnvelope (l_env L) (l_peer L) (l_stream L) ses e ?s") (simp add: sendBuilt_def)
  have "posts L ([] @ [e]) s ?s'" using posts_trans [OF _ p2 sp(2)] f by (simp add: fit_def)
  moreover have "kept L s ?s'"
    by (rule kept_trans [OF kept_trans [OF kept_ticked kept_ticked] kept_sends [OF sp(3)]])
  ultimately show thesis using that [OF eq e(2,3)] by simp
qed

definition ack_for :: "string \<Rightarrow> Envelope \<Rightarrow> bool" where
  "ack_for i e \<longleftrightarrow> eType e = TypeAck \<and> unmarshal_ack (eBody e) = Some i"

lemma good_ackBody: "length i \<le> 128 \<Longrightarrow> good_body (ackBody i)"
  using json_quote_length [of i] json_member_length [of "''id''" "json_quote i"]
  by (intro good_bodyI settled_chatBody) (simp add: ackBody_def json_object_def)

lemma sendAck_posts:
  assumes "fit L" and "ready L s" and "length i \<le> 128" and "to_valid i = i"
  obtains e s' where "sendAck (l_env L) (l_peer L) i s = (s', None)" "ack_for i e" "posts L [e] s s'" "kept L s s'"
proof -
  have "newAckEnvelope (l_env L) (l_peer L) i = build_envelope (l_env L) (l_peer L) TypeAck 0 (ackBody i)"
    by (rule ext) (simp add: newAckEnvelope_def)
  from sendBuilt_posts [OF assms(1,2) _ good_ackBody [OF assms(3)] this]
  obtain e s' where "sendBuilt (l_env L) (l_peer L) (newAckEnvelope (l_env L) (l_peer L) i) s = (s', None)"
    "eType e = TypeAck" "eBody e = ackBody i" "posts L [e] s s'" "kept L s s'" by blast
  then show thesis
    using that [of s' e] assms(4) by (simp add: sendAck_def ack_for_def unmarshal_ackBody)
qed

definition good_control :: "controlBody \<Rightarrow> bool" where
  "good_control b \<longleftrightarrow> length (marshal_control b) \<le> 49152"

lemma good_control_body: "good_control b \<Longrightarrow> good_body (marshal_control b)"
  unfolding good_control_def marshal_control_def
  by (rule good_bodyI, rule settled_object) (auto simp: omitempty_def settled_quote settled_int split: if_splits)

lemma sendControl_posts:
  assumes "fit L" and "ready L s" and "good_control b"
  obtains e s' where "sendControl (l_env L) (l_peer L) b s = (s', None)" "eType e = TypeControl" "eBody e = marshal_control b"
    "posts L [e] s s'" "kept L s s'"
proof -
  have "newControlEnvelope (l_env L) (l_peer L) b = build_envelope (l_env L) (l_peer L) TypeControl 0 (marshal_control b)"
    by (rule ext) (simp add: newControlEnvelope_def)
  moreover have "good_body (marshal_control b)" using assms(3) by (rule good_control_body)
  ultimately obtain e s' where "sendBuilt (l_env L) (l_peer L) (newControlEnvelope (l_env L) (l_peer L) b) s = (s', None)"
    "eType e = TypeControl" "eBody e = marshal_control b" "posts L [e] s s'" "kept L s s'"
    using sendBuilt_posts [OF assms(1,2), of TypeControl "marshal_control b"] by blast
  then show thesis using that by (simp add: sendControl_def)
qed


text \<open>A message of the user: the next number, tracked as waiting under its identifier.\<close>

lemma sendChat_posts:
  assumes f: "fit L" and r: "ready L s" and q: "mget 0 (sendSeq s) (l_peer L) + 1 \<noteq> 0" and tx: "length (chatBody t) \<le> 49152"
  obtains e s' where "sendChat (l_env L) (l_peer L) t s = (s', Inr e)" "posts L [e] s s'"
    "eType e = TypeChat" "eBody e = chatBody t" "eSequence e = mget 0 (sendSeq s) (l_peer L) + 1"
    "sendSeq s' = mput (l_peer L) (mget 0 (sendSeq s) (l_peer L) + 1) (sendSeq s)"
    "recvSeq s' = recvSeq s" "recvBuffer s' = recvBuffer s"
    "delivered (l_env L) (l_peer L) s' = delivered (l_env L) (l_peer L) s"
    "\<forall>p j m. waiting s' p j = Some m \<longrightarrow> (p = l_peer L \<and> j = eID e \<and> pc_envelope m = e) \<or> waiting s p j = Some m"
proof -
  let ?E = "l_env L" and ?p = "l_peer L"
  let ?q = "mget 0 (sendSeq s) ?p + 1"
  let ?s1 = "s\<lparr>sendSeq := mput ?p ?q (sendSeq s)\<rparr>"
  have h: "healthy ?E" using f by (simp add: fit_def)
  obtain ses where ses: "mlookup (streams s) ?p = Some (l_stream L)" "mlookup (sessions s) ?p = Some ses"
    using r by (auto simp: ready_def)
  have b: "good_body (chatBody t)" using tx settled_chatBody(1) by (intro good_bodyI)
  have r1: "ready L ?s1" using r by (simp add: ready_def owns_def)
  from build_good [OF f r1 _ b, of TypeChat ?q] q obtain e where
    e: "build_envelope ?E ?p TypeChat ?q (chatBody t) ?s1 = (ticked (ticked ?s1), Inr e)" "eType e = TypeChat"
      "eBody e = chatBody t" "eSequence e = ?q" "sound_envelope L (now_ms ?E (tick ?s1)) e" by (metis insertI1)
  let ?s2 = "trackPending ?E ?p e (ticked (ticked ?s1))"
  have p2: "posts L [] s ?s2"
    by (rule posts_quiet) (simp_all add: trackPending_def ticked_def Let_def lines_on_def)
  have ses2: "mlookup (sessions ?s2) ?p = Some ses" using ses by (simp add: trackPending_def ticked_def Let_def)
  have "sound_envelope L (now_ms ?E (tick ?s2)) e"
    by (rule sound_later [OF e(5)]) (use h in \<open>simp add: now_ms_mono trackPending_def ticked_def Let_def\<close>)
  note sp = send_posts [OF f posts_ready [OF p2 r] ses2 this]
  let ?s' = "fst (sendEnvelope ?E ?p (l_stream L) ses e ?s2)"
  note same = only_sends_fields [OF sp(3)]
  have 1: "sendChat ?E ?p t s = (?s', Inr e)"
    using ses e(1) sp(1)
    by (cases "sendEnvelope ?E ?p (l_stream L) ses e ?s2") (simp add: sendChat_def newChatEnvelope_def Let_def)
  have 2: "posts L [e] s ?s'" using posts_trans [OF h p2 sp(2)] by simp
  have 3: "sendSeq ?s' = mput ?p ?q (sendSeq s)" "recvSeq ?s' = recvSeq s" "recvBuffer ?s' = recvBuffer s"
    unfolding same by (simp_all add: trackPending_def ticked_def Let_def)
  have 4: "delivered ?E ?p ?s' = delivered ?E ?p s"
    by (simp add: delivered_only_sends [OF sp(3)]) (simp add: delivered_def trackPending_def ticked_def Let_def)
  have "waiting ?s' = waiting ?s2" by (rule waiting_same) (rule same)
  moreover have "waiting (ticked (ticked ?s1)) = waiting s" by (rule waiting_same) (simp add: ticked_def)
  ultimately have 5: "\<forall>p j m. waiting ?s' p j = Some m \<longrightarrow> (p = ?p \<and> j = eID e \<and> pc_envelope m = e) \<or> waiting s p j = Some m"
    by (auto simp: trackPending_entry split: if_splits)
  show thesis by (rule that [OF 1 2 e(2,3,4) 3 4 5])
qed

text \<open>A message of the user that does not fit into an envelope only uses up its number.\<close>

lemma sendChat_refused:
  assumes f: "fit L" and r: "ready L s" and tx: "49152 < length (chatBody t)"
  obtains err where "sendChat (l_env L) (l_peer L) t s
    = (ticked (ticked (s\<lparr>sendSeq := mput (l_peer L) (mget 0 (sendSeq s) (l_peer L) + 1) (sendSeq s)\<rparr>)), Inl err)"
proof -
  let ?q = "mget 0 (sendSeq s) (l_peer L) + 1"
  let ?s = "s\<lparr>sendSeq := mput (l_peer L) ?q (sendSeq s)\<rparr>"
  obtain raw where "rand_read (l_env L) (tick s) 16 = Some raw" using f unfolding fit_def healthy_def by metis
  then have "\<exists>err. newChatEnvelope (l_env L) (l_peer L) ?q t ?s = (ticked (ticked ?s), Inl err)"
    using tx r by (auto simp: newChatEnvelope_def build_envelope_def newEnvelope_def NewID_def Let_def ready_def
        Validate_def MaxBodySize_def split: option.split)
  then show thesis using that r by (auto simp: sendChat_def Let_def ready_def)
qed

text \<open>A waiting message sent again.\<close>

lemma settle_kept:
  "tick (settle now p m err s) = tick s" "node (settle now p m err s) = node s" "streams (settle now p m err s) = streams s"
  "sessions (settle now p m err s) = sessions s" "lines_on st (settle now p m err s) = lines_on st s"
  "sendSeq (settle now p m err s) = sendSeq s" "recvSeq (settle now p m err s) = recvSeq s"
  "recvBuffer (settle now p m err s) = recvBuffer s" "delivered E q (settle now p m err s) = delivered E q s"
  by (auto simp: settle_def drop_pending_def Let_def emit_def lines_on_def delivered_def incoming_def split: option.split)

lemma resend_posts:
  fixes now :: int
  assumes f: "fit L" and r: "ready L s" and e: "sound_envelope L (now_ms (l_env L) (tick s)) (pc_envelope m)"
  defines "s' \<equiv> resend (l_env L) now (l_peer L, m) s"
  shows "posts L [pc_envelope m] s s'" "sendSeq s' = sendSeq s" "recvSeq s' = recvSeq s" "recvBuffer s' = recvBuffer s"
    "delivered (l_env L) (l_peer L) s' = delivered (l_env L) (l_peer L) s"
proof -
  let ?E = "l_env L" and ?p = "l_peer L"
  obtain ses where ses: "mlookup (streams s) ?p = Some (l_stream L)" "mlookup (sessions s) ?p = Some ses"
    using r by (auto simp: ready_def)
  note sp = send_posts [OF f r ses(2) e]
  let ?s = "fst (sendEnvelope ?E ?p (l_stream L) ses (pc_envelope m) s)"
  have s': "s' = settle now ?p m None ?s"
    using ses sp(1) unfolding s'_def
    by (cases "sendEnvelope ?E ?p (l_stream L) ses (pc_envelope m) s") (simp add: resend_def)
  have "posts L [] ?s s'" unfolding s' by (rule posts_quiet) (simp_all add: settle_kept)
  from posts_trans [OF _ sp(2) this] show "posts L [pc_envelope m] s s'" using f by (simp add: fit_def)
  show "sendSeq s' = sendSeq s" "recvSeq s' = recvSeq s" "recvBuffer s' = recvBuffer s"
    "delivered ?E ?p s' = delivered ?E ?p s"
    using only_sends_fields [OF sp(3)] delivered_only_sends [OF sp(3)] unfolding s' by (simp_all add: settle_kept)
qed

text \<open>What the node does about other peers posts nothing here.\<close>

lemma apart_posts: "apart (l_env L) (l_peer L) (l_stream L) s s' \<Longrightarrow> posts L [] s s'"
  by (simp add: apart_def posts_def)

lemma apart_tables_same:
  assumes "apart E p st s s'"
  shows "mget 0 (sendSeq s') p = mget 0 (sendSeq s) p" "mget 0 (recvSeq s') p = mget 0 (recvSeq s) p"
    "mget [] (recvBuffer s') p = mget [] (recvBuffer s) p" "waiting s' p i = waiting s p i" "delivered E p s' = delivered E p s"
  using assms by (simp_all add: apart_def mget_def waiting_def)

section \<open>Reading\<close>

text \<open>Two ends of the same connection.\<close>

definition facing :: "link \<Rightarrow> link \<Rightarrow> bool" where
  "facing L M \<longleftrightarrow>
     l_peer L = l_self M \<and> l_peer M = l_self L \<and> aead (l_env L) = aead (l_env M) \<and>
     peer_String (l_env L) = peer_String (l_env M)"

lemma facing_sym: "facing L M \<Longrightarrow> facing M L"
  by (simp add: facing_def)

text \<open>An envelope from the other end, sent at a time at most five minutes ahead of the own clock.\<close>

definition arrives :: "link \<Rightarrow> link \<Rightarrow> stream_manager \<Rightarrow> Envelope \<Rightarrow> bool" where
  "arrives L M s e \<longleftrightarrow> (\<exists>t. sound_envelope M t e \<and> t \<le> now_ms (l_env L) (tick s) + 300000)"

lemma arrivesD:
  assumes "arrives L M s e"
  shows "v2_rules (now_ms (l_env L) (tick s)) e" "wire_exact e" "length (eID e) \<le> 128" "to_valid (eID e) = eID e"
    "eType e \<in> {TypeChat, TypeAck, TypeControl}"
  using assms by (auto simp: arrives_def sound_envelope_def v2_rules_def wire_exact_def)

lemma arrives_from:
  assumes "facing L M" and "arrives L M s e"
  shows "eConversation e = conversationID (l_env L) (l_self L) (l_peer L)" "eSender e = peer_String (l_env L) (l_peer L)"
  using assms conversationID_swap [of "l_env L" "l_env M" "l_self L" "l_self M"]
  by (auto simp: arrives_def sound_envelope_def facing_def)

lemma read_line:
  assumes "facing L M" and ar: "arrives L M s e" and cor: "aead_correct (aead (l_env L))"
    and ses: "mlookup (sessions s) (l_peer L) = Some ses" "recvAEAD ses = Some k" and acc: "snd (acceptCounter ses c)"
  shows "readLoop_line (l_env L) (l_peer L)
      (sealed_packet (aead (l_env L)) k (recvDir ses) c (json_object (envelope_members e)) @ [CHR 0x0A]) s =
    Some (handleEnvelope (l_env L) (l_peer L) e
      (ticked (s\<lparr>sessions := mput (l_peer L) (fst (acceptCounter ses c)) (sessions s)\<rparr>)))"
  using ses acc Decode_exact [OF arrivesD(1,2) [OF ar]]
    Decrypt_sealed [OF cor ses(2), of "recvDir ses" c "json_object (envelope_members e)"]
  by (simp add: readLoop_line_def trim_packet Let_def)

text \<open>A chat message that has been delivered before is acknowledged again and not delivered.\<close>

lemma handle_old_chat:
  assumes f: "fit L" and r: "ready L s" and fc: "facing L M" and ar: "arrives L M s e" and ty: "eType e = TypeChat"
    and tx: "unmarshal_chat (eBody e) = Some t" "TrimSpace t \<noteq> []" and old: "eSequence e \<le> mget 0 (recvSeq s) (l_peer L)"
  obtains a where "ack_for (eID e) a" "posts L [a] s (handleEnvelope (l_env L) (l_peer L) e s)"
    "kept L s (handleEnvelope (l_env L) (l_peer L) e s)"
proof -
  obtain a s' where a: "sendAck (l_env L) (l_peer L) (eID e) s = (s', None)" "ack_for (eID e) a" "posts L [a] s s'" "kept L s s'"
    by (rule sendAck_posts [OF f r arrivesD(3,4) [OF ar]])
  have "handleEnvelope (l_env L) (l_peer L) e s = s'"
    using arrives_from [OF fc ar] ty tx old a(1) r by (simp add: handleEnvelope_def handleChat_def Let_def ready_def)
  then show thesis using that a by simp
qed

text \<open>The next chat message is delivered and acknowledged.\<close>

lemma handle_next_chat:
  assumes f: "fit L" and r: "ready L s" and fc: "facing L M" and ar: "arrives L M s e" and ty: "eType e = TypeChat"
    and tx: "unmarshal_chat (eBody e) = Some t" "TrimSpace t \<noteq> []"
    and q: "eSequence e = mget 0 (recvSeq s) (l_peer L) + 1" "mget 0 (recvSeq s) (l_peer L) < eSequence e"
    and buf: "mget [] (recvBuffer s) (l_peer L) = []"
  defines "s' \<equiv> handleEnvelope (l_env L) (l_peer L) e s"
  obtains a where "ack_for (eID e) a" "posts L [a] s s'"
    "delivered (l_env L) (l_peer L) s' = delivered (l_env L) (l_peer L) s @ [t]"
    "mget 0 (recvSeq s') (l_peer L) = mget 0 (recvSeq s) (l_peer L) + 1"
    "mget [] (recvBuffer s') (l_peer L) = []" "sendSeq s' = sendSeq s" "pending s' = pending s"
proof -
  let ?E = "l_env L" and ?p = "l_peer L"
  let ?s1 = "deliverChat ?E ?p t (s\<lparr>recvSeq := mput ?p (eSequence e) (recvSeq s)\<rparr>)"
  have p1: "posts L [] s ?s1"
    by (rule posts_quiet; simp add: deliverChat_def Let_def split_def lines_emit;
        simp add: emit_def ticked_def lines_on_def)
  have ar1: "length (eID e) \<le> 128" "to_valid (eID e) = eID e" by (rule arrivesD [OF ar])+
  obtain a s2 where a: "sendAck ?E ?p (eID e) ?s1 = (s2, None)" "ack_for (eID e) a" "posts L [a] ?s1 s2" "kept L ?s1 s2"
    by (rule sendAck_posts [OF f posts_ready [OF p1 r] ar1])
  have k: "recvSeq s2 = recvSeq ?s1" "recvBuffer s2 = recvBuffer ?s1" "sendSeq s2 = sendSeq ?s1" "pending s2 = pending ?s1"
    "delivered ?E ?p s2 = delivered ?E ?p ?s1" using a(4) by (simp_all add: kept_def)
  have "s' = drainReceiveBuffer ?E ?p s2"
    unfolding s'_def using arrives_from [OF fc ar] ty tx q a(1) r
    by (simp add: handleEnvelope_def handleChat_def Let_def ready_def ack_or_print_def)
  also have "\<dots> = s2" using buf by (intro drain_empty) (simp add: k)
  finally have s': "s' = s2" .
  have "posts L ([] @ [a]) s s2" using f by (intro posts_trans [OF _ p1 a(3)]) (simp add: fit_def)
  then show thesis
    using a(2) buf q(1) k unfolding s'
    by (intro that [of a]) (simp_all add: delivered_deliver gomap_simps, simp_all add: s' k delivered_deliver gomap_simps,
      simp_all add: deliverChat_def Let_def split_def emit_def ticked_def)
qed

lemma handle_ack:
  assumes r: "ready L s" and fc: "facing L M" and ar: "arrives L M s e" and a: "ack_for i e"
  shows "handleEnvelope (l_env L) (l_peer L) e s = ackPending (l_peer L) i s"
  using arrives_from [OF fc ar] a r
  by (simp add: handleEnvelope_def ready_def ack_for_def message_type_defs)

lemma ackPending_kept:
  "posts L [] s (ackPending p i s)" "sendSeq (ackPending p i s) = sendSeq s" "recvSeq (ackPending p i s) = recvSeq s"
  "recvBuffer (ackPending p i s) = recvBuffer s" "delivered E q (ackPending p i s) = delivered E q s"
proof -
  show "posts L [] s (ackPending p i s)"
    by (rule posts_quiet) (auto simp: ackPending_def Let_def lines_on_def split: option.split)
qed (auto simp: ackPending_def Let_def delivered_def split: option.split)


text \<open>
  A control message changes nicknames, counters and the screen only; a latency ping, and nothing
  else, is answered, by one control message that is not a ping.
\<close>

definition asks :: "Envelope \<Rightarrow> bool" where
  "asks e \<longleftrightarrow>
     eType e = TypeControl \<and>
     (case unmarshal_control (eBody e) of None \<Rightarrow> False | Some b \<Rightarrow> cbKind b = controlLatencyPing)"

lemma dec_int64_range: "dec_int64 z raw = Some i \<Longrightarrow> int64_range z \<Longrightarrow> int64_range i"
  by (auto simp: dec_int64_def int64_range_def split: if_splits list.splits option.splits)

lemma set_controls_range:
  "set_controls kvs b = Some b' \<Longrightarrow> int64_range (cbTimestamp b) \<Longrightarrow> int64_range (cbTimestamp b')"
proof (induction kvs arbitrary: b)
  case (Cons kv kvs)
  then obtain b1 where b1: "set_control kv b = Some b1" "set_controls kvs b1 = Some b'" by (auto split: option.splits)
  then have "int64_range (cbTimestamp b1)"
    using Cons.prems(2) by (auto simp: set_control_def Let_def dec_int64_range split: if_splits)
  with Cons.IH [OF b1(2)] show ?case .
qed simp

lemma unmarshal_control_range: "unmarshal_control data = Some b \<Longrightarrow> int64_range (cbTimestamp b)"
  by (auto simp: unmarshal_control_def control_zero_def int64_range_def bind_eq_Some_conv
      dest!: set_controls_range [unfolded int64_range_def])

lemma json_sum: "length (json_object kvs) \<le> 2 + sum_list (map (\<lambda>kv. length (json_member kv) + 1) kvs)"
  using Join_length [of "map json_member kvs" "'',''"] by (simp add: json_object_def comp_def)

lemma pong_good:
  assumes "0 < ts" and "int64_range ts"
  shows "good_control (control_zero\<lparr>cbKind := controlLatencyPong, cbTimestamp := ts\<rparr>)"
    "unmarshal_control (marshal_control (control_zero\<lparr>cbKind := controlLatencyPong, cbTimestamp := ts\<rparr>))
      = Some (control_zero\<lparr>cbKind := controlLatencyPong, cbTimestamp := ts\<rparr>)"
proof -
  let ?b = "control_zero\<lparr>cbKind := controlLatencyPong, cbTimestamp := ts\<rparr>"
  have "length (dec_int ts) \<le> 19" using assms by (intro dec_int_length_64) (simp_all add: int64_range_def)
  then show "good_control ?b"
    using assms(1) member_bound [of "''timestamp''" "dec_int ts"] member_bound [of "''kind''" "json_quote controlLatencyPong"]
      json_quote_length [of controlLatencyPong]
      json_sum [of "[(''kind'', json_quote controlLatencyPong), (''timestamp'', dec_int ts)]"]
    by (simp add: good_control_def marshal_control_def control_zero_def omitempty_def)
      (simp add: controlLatencyPong_def)
  show "unmarshal_control (marshal_control ?b) = Some ?b"
    using bodies_roundtrip [of ?b] assms(2)
    by (simp add: control_zero_def int64_range_def controlLatencyPong_def to_valid_ascii)
qed

text \<open>Steps that write nothing and keep the tables.\<close>

definition silent :: "link \<Rightarrow> stream_manager \<Rightarrow> stream_manager \<Rightarrow> bool" where
  "silent L s s' \<longleftrightarrow> posts L [] s s' \<and> kept L s s'"

lemma silent_refl: "silent L s s"
  by (simp add: silent_def kept_def posts_def)

lemma silent_trans: "healthy (l_env L) \<Longrightarrow> silent L s s' \<Longrightarrow> silent L s' s'' \<Longrightarrow> silent L s s''"
  unfolding silent_def using posts_trans [of L "[]" s s' "[]" s''] kept_trans by auto

lemma silent_step:
  "silent L s (emit (Console c) s)" "silent L s (emit (Web NotifyWebPeerUpdate) s)" "silent L s (ticked s)"
  "silent L s (s\<lparr>peerNicks := x\<rparr>)" "silent L s (s\<lparr>concurrentTestReceived := n\<rparr>)"
proof -
  have e: "kept L s (emit ev s)" if "incoming (l_env L) (l_peer L) ev = []" for ev
    using that by (simp add: kept_def delivered_emit) (simp add: emit_def)
  show "silent L s (emit (Console c) s)" "silent L s (emit (Web NotifyWebPeerUpdate) s)"
    by (simp_all add: silent_def e incoming_def)
  show "silent L s (ticked s)" by (simp add: silent_def)
  show "silent L s (s\<lparr>peerNicks := x\<rparr>)" "silent L s (s\<lparr>concurrentTestReceived := n\<rparr>)"
    by (simp_all add: silent_def kept_def delivered_def posts_quiet lines_on_def)
qed

lemma handleControl_silent:
  assumes "healthy (l_env L)" and "\<not> (cbKind b = controlLatencyPing \<and> 0 < cbTimestamp b)"
  shows "silent L s (handleControl E p b s)"
proof -
  note t = silent_trans [OF assms(1)]
  have 1: "silent L s (emit (Web NotifyWebPeerUpdate) (emit (Console c) (s\<lparr>peerNicks := x\<rparr>)))" for c x
    by (rule t [OF t [OF silent_step(4) silent_step(1)] silent_step(2)])
  have 2: "silent L s (emit (Console c) (ticked s))" for c by (rule t [OF silent_step(3) silent_step(1)])
  have 3: "silent L s (emit (Console c) (s\<lparr>concurrentTestReceived := n\<rparr>))" for c n
    by (rule t [OF silent_step(5) silent_step(1)])
  show ?thesis using assms(2) unfolding handleControl_def Let_def
    by (auto simp: 1 2 3 silent_step silent_refl)
qed

lemma handle_control:
  assumes f: "fit L" and r: "ready L s" and fc: "facing L M" and ar: "arrives L M s e" and ty: "eType e = TypeControl"
  obtains es where "posts L es s (handleEnvelope (l_env L) (l_peer L) e s)"
    "kept L s (handleEnvelope (l_env L) (l_peer L) e s)" "length es \<le> (if asks e then 1 else 0)"
    "\<forall>a \<in> set es. eType a = TypeControl \<and> \<not> asks a"
proof -
  let ?E = "l_env L" and ?p = "l_peer L"
  note result = that
  have quiet: thesis if "posts L [] s (handleEnvelope ?E ?p e s)" "kept L s (handleEnvelope ?E ?p e s)"
    using that by (intro result [of "[]"]) simp_all
  show thesis
  proof (cases "unmarshal_control (eBody e)")
    case None
    then have "handleEnvelope ?E ?p e s = emit (Console (InvalidControlBody ?p)) s"
      using arrives_from [OF fc ar] r ty by (simp add: handleEnvelope_def ready_def message_type_defs)
    then show thesis using silent_step(1) [of L s] by (intro quiet) (simp_all add: silent_def)
  next
    case (Some b)
    then have eq: "handleEnvelope ?E ?p e s = handleControl ?E ?p b s"
      using arrives_from [OF fc ar] r ty by (simp add: handleEnvelope_def ready_def message_type_defs)
    show thesis
    proof (cases "cbKind b = controlLatencyPing \<and> 0 < cbTimestamp b")
      case True
      let ?pong = "control_zero\<lparr>cbKind := controlLatencyPong, cbTimestamp := cbTimestamp b\<rparr>"
      note good = pong_good [OF conjunct2 [OF True] unmarshal_control_range [OF Some]]
      obtain a s' where a: "sendControl ?E ?p ?pong s = (s', None)" "eType a = TypeControl" "eBody a = marshal_control ?pong"
        "posts L [a] s s'" "kept L s s'"
        by (rule sendControl_posts [OF f r good(1)])
      have "handleEnvelope ?E ?p e s = s'"
        using eq a(1) True by (simp add: handleControl_def controlLatencyPing_def controlNickname_def)
      moreover have "\<not> asks a" using a(3) good(2) by (simp add: asks_def controlLatencyPing_def controlLatencyPong_def)
      moreover have "asks e" using ty Some True by (simp add: asks_def)
      ultimately show thesis using a(2,4,5) by (intro result [of "[a]"]) simp_all
    next
      case False
      then have "silent L s (handleControl ?E ?p b s)" using f by (intro handleControl_silent) (simp add: fit_def)
      then show thesis using eq by (intro quiet) (simp_all add: silent_def)
    qed
  qed
qed

end
