(* ===== verification/Network.thy ===== *)
theory Network
  imports Node_Effects
begin

text \<open>
  Two nodes and the two directions of the stream between them, under any interleaving of what they
  do: sending messages and control messages, collecting and sending again the messages that wait
  for an acknowledgement, reading the next line of the other side, and dealing with other peers. The theorems say what the
  users see in every reachable state, and that reading on always completes the conversation.
\<close>

section \<open>The state of the network\<close>

text \<open>
  One side: the node, the lines it has written that the other side has not read yet (with the time
  of writing), the pass over the pending messages in progress (\<open>retransmitDue\<close> with the messages it
  has collected and not yet handled), and, for the theorems, the texts its user typed and the
  envelopes made of them. Nothing is asked of the texts: one that does not fit into an envelope makes
  \<open>sendChat\<close> fail and still uses up a sequence number, and \<open>unsent\<close> stands for it in the list of envelopes.
\<close>

definition unsent :: "nat \<Rightarrow> string \<Rightarrow> Envelope" where
  "unsent n t = \<lparr>eVersion = 2, eType = TypeChat, eID = [], eConversation = [], eSender = [], eTimestamp = 0,
     eSequence = of_nat (Suc n), eBody = chatBody t\<rparr>"

record side =
  sm :: stream_manager
  wire :: "(int \<times> string) list"
  todo :: "int \<times> (pid \<times> pendingChat) list"
  typed :: "string list"
  sent :: "Envelope list"

definition new_lines :: "nat \<Rightarrow> stream_manager \<Rightarrow> stream_manager \<Rightarrow> string list" where
  "new_lines st s s' = drop (length (lines_on st s)) (lines_on st s')"

text \<open>The side after its node went to state \<open>s'\<close>: what it wrote on the stream is on the wire.\<close>

definition act :: "link \<Rightarrow> stream_manager \<Rightarrow> side \<Rightarrow> side" where
  "act L s' x = x\<lparr>sm := s',
     wire := wire x @ map (Pair (now_ms (l_env L) (tick s'))) (new_lines (l_stream L) (sm x) s')\<rparr>"

text \<open>There is room for \<open>k\<close> more packets under the 64-bit counter of the session.\<close>

definition room :: "link \<Rightarrow> nat \<Rightarrow> side \<Rightarrow> bool" where
  "room L k x \<longleftrightarrow>
     (case mlookup (sessions (sm x)) (l_peer L) of
        None \<Rightarrow> True | Some ses \<Rightarrow> unat (sendCtr ses) + k < 2 ^ 64)"

text \<open>
  The steps of the side \<open>x\<close> against the side \<open>y\<close>: its user types any text. A line is read at a moment when the clock of the
  reader is not more than five minutes behind the clock of the writer at the time of writing.
\<close>

inductive side_step :: "link \<Rightarrow> side \<times> side \<Rightarrow> side \<times> side \<Rightarrow> bool" for L where
  send: "room L 1 x \<Longrightarrow> sendChat (l_env L) (l_peer L) t (sm x) = (s', r) \<Longrightarrow>
    side_step L (x, y) ((act L s' x)\<lparr>typed := typed x @ [t],
      sent := sent x @ [case r of Inl err \<Rightarrow> unsent (length (sent x)) t | Inr e \<Rightarrow> e]\<rparr>, y)"
| control: "room L 1 x \<Longrightarrow> good_control b \<Longrightarrow>
    side_step L (x, y) (act L (fst (sendControl (l_env L) (l_peer L) b (sm x))) x, y)"
| collect: "snd (todo x) = [] \<Longrightarrow> now = now_ns (l_env L) (tick (sm x)) \<Longrightarrow>
    side_step L (x, y) (x\<lparr>sm := ticked (sm x),
      todo := (now, filter (\<lambda>item. fst item = l_peer L) (due_items now (sm x)))\<rparr>, y)"
| send_again: "room L 1 x \<Longrightarrow> todo x = (now, item # items) \<Longrightarrow>
    side_step L (x, y) ((act L (resend (l_env L) now item (sm x)) x)\<lparr>todo := (now, items)\<rparr>, y)"
| read: "room L 1 x \<Longrightarrow> wire y = (t, l) # w \<Longrightarrow> t \<le> now_ms (l_env L) (tick (sm x)) + 300000 \<Longrightarrow>
    readLoop_line (l_env L) (l_peer L) l (sm x) = Some s' \<Longrightarrow>
    side_step L (x, y) (act L s' x, y\<lparr>wire := w\<rparr>)"
| other_peers: "other_step (l_env L) (l_peer L) (l_stream L) (sm x) s' \<Longrightarrow> side_step L (x, y) (act L s' x, y)"
| idle: "side_step L (x, y) (x\<lparr>sm := ticked (sm x)\<rparr>, y)"

text \<open>Reading alone: a side reads the next line, or its clock goes on.\<close>

inductive side_read :: "link \<Rightarrow> side \<times> side \<Rightarrow> side \<times> side \<Rightarrow> bool" for L where
  read: "room L 1 x \<Longrightarrow> wire y = (t, l) # w \<Longrightarrow> t \<le> now_ms (l_env L) (tick (sm x)) + 300000 \<Longrightarrow>
    readLoop_line (l_env L) (l_peer L) l (sm x) = Some s' \<Longrightarrow>
    side_read L (x, y) (act L s' x, y\<lparr>wire := w\<rparr>)"
| idle: "side_read L (x, y) (x\<lparr>sm := ticked (sm x)\<rparr>, y)"

inductive net_step :: "link \<Rightarrow> link \<Rightarrow> side \<times> side \<Rightarrow> side \<times> side \<Rightarrow> bool" for L M where
  left: "side_step L n n' \<Longrightarrow> net_step L M n n'"
| right: "side_step M (prod.swap n) (prod.swap n') \<Longrightarrow> net_step L M n n'"

inductive net_read :: "link \<Rightarrow> link \<Rightarrow> side \<times> side \<Rightarrow> side \<times> side \<Rightarrow> bool" for L M where
  left: "side_read L n n' \<Longrightarrow> net_read L M n n'"
| right: "side_read M (prod.swap n) (prod.swap n') \<Longrightarrow> net_read L M n n'"

lemma side_read_step: "side_read L n n' \<Longrightarrow> side_step L n n'"
  by (induction rule: side_read.induct) (auto intro: side_step.intros)

lemma net_read_step: "net_read L M n n' \<Longrightarrow> net_step L M n n'"
  by (induction rule: net_read.induct) (auto intro: net_step.intros side_read_step)

lemma net_reads_run: "(net_read L M)\<^sup>*\<^sup>* n n' \<Longrightarrow> (net_step L M)\<^sup>*\<^sup>* n n'"
  by (induction rule: rtranclp_induct) (auto intro: rtranclp.rtrancl_into_rtrancl net_read_step)

text \<open>Texts that are not blank and fit into an envelope: what both users typed consists of such.\<close>

definition good_texts :: "side \<times> side \<Rightarrow> bool" where
  "good_texts n \<longleftrightarrow> (\<forall>t \<in> set (typed (fst n)) \<union> set (typed (snd n)). good_text t)"

lemma good_texts_swap [simp]: "good_texts (prod.swap n) = good_texts n"
  by (auto simp: good_texts_def)

lemma side_step_texts: "side_step L n n' \<Longrightarrow> good_texts n' \<Longrightarrow> good_texts n"
  by (induction rule: side_step.induct) (auto simp: good_texts_def act_def)

lemma net_step_texts: "net_step L M n n' \<Longrightarrow> good_texts n' \<Longrightarrow> good_texts n"
  by (erule net_step.cases) (metis side_step_texts good_texts_swap)+

section \<open>The channel\<close>

text \<open>
  The wire from \<open>x\<close> to \<open>y\<close> carries the envelopes \<open>es\<close>, as the packets that follow the last counter
  \<open>y\<close> has accepted.
\<close>

definition chan :: "link \<Rightarrow> link \<Rightarrow> side \<Rightarrow> side \<Rightarrow> Envelope list \<Rightarrow> bool" where
  "chan L M x y es \<longleftrightarrow>
     (\<exists>sa sb k. mlookup (sessions (sm x)) (l_peer L) = Some sa \<and> mlookup (sessions (sm y)) (l_peer M) = Some sb \<and>
        sendAEAD sa = Some k \<and> recvAEAD sb = Some k \<and> recvDir sb = sendDir sa \<and>
        map snd (wire x) = packets (aead (l_env L)) k (sendDir sa) (recvMax sb) es \<and>
        sendCtr sa = recvMax sb + of_nat (length es) \<and> unat (recvMax sb) + length es < 2 ^ 64) \<and>
     list_all2 (\<lambda>tl e. sound_envelope L (fst tl) e) (wire x) es"

lemma chanI:
  assumes "mlookup (sessions (sm x)) (l_peer L) = Some sa" "mlookup (sessions (sm y)) (l_peer M) = Some sb"
    "sendAEAD sa = Some k" "recvAEAD sb = Some k" "recvDir sb = sendDir sa"
    "map snd (wire x) = packets (aead (l_env L)) k (sendDir sa) (recvMax sb) es"
    "sendCtr sa = recvMax sb + of_nat (length es)" "unat (recvMax sb) + length es < 2 ^ 64"
    "list_all2 (\<lambda>tl e. sound_envelope L (fst tl) e) (wire x) es"
  shows "chan L M x y es"
  using assms unfolding chan_def by blast

lemma chanE:
  assumes "chan L M x y es"
  obtains sa sb k where "mlookup (sessions (sm x)) (l_peer L) = Some sa" "mlookup (sessions (sm y)) (l_peer M) = Some sb"
    "sendAEAD sa = Some k" "recvAEAD sb = Some k" "recvDir sb = sendDir sa"
    "map snd (wire x) = packets (aead (l_env L)) k (sendDir sa) (recvMax sb) es"
    "sendCtr sa = recvMax sb + of_nat (length es)" "unat (recvMax sb) + length es < 2 ^ 64"
    "list_all2 (\<lambda>tl e. sound_envelope L (fst tl) e) (wire x) es"
  using assms unfolding chan_def by blast

lemma unat_add_of_nat: "unat (c :: u64) + n < 2 ^ 64 \<Longrightarrow> unat (c + of_nat n) = unat c + n"
  by (simp add: unat_word_ariths unat_of_nat)

lemma posts_new_lines:
  assumes "posts L es s s'" and "mlookup (sessions s) (l_peer L) = Some ses" and "sendAEAD ses = Some k"
  shows "new_lines (l_stream L) s s' = packets (aead (l_env L)) k (sendDir ses) (sendCtr ses) es"
  using assms by (simp add: posts_def new_lines_def)

lemma chan_post:
  assumes c: "chan L M x y es" and p: "posts L es' (sm x) s'" and r: "es' \<noteq> [] \<Longrightarrow> room L 1 x" and one: "length es' \<le> 1"
  shows "chan L M (act L s' x) y (es @ es')"
proof -
  from c obtain sa sb k where s: "mlookup (sessions (sm x)) (l_peer L) = Some sa" "mlookup (sessions (sm y)) (l_peer M) = Some sb"
      "sendAEAD sa = Some k" "recvAEAD sb = Some k" "recvDir sb = sendDir sa"
      "map snd (wire x) = packets (aead (l_env L)) k (sendDir sa) (recvMax sb) es"
      "sendCtr sa = recvMax sb + of_nat (length es)" "unat (recvMax sb) + length es < 2 ^ 64"
    and snd: "list_all2 (\<lambda>tl e. sound_envelope L (fst tl) e) (wire x) es" by (rule chanE)
  have u: "unat (recvMax sb) + length (es @ es') < 2 ^ 64"
    using r one s(1,8) unat_add_of_nat [OF s(8)] s(7) by (cases "es' = []") (simp_all add: room_def)
  note nl = posts_new_lines [OF p s(1,3)]
  have ses: "mlookup (sessions s') (l_peer L) = Some (sa\<lparr>sendCtr := sendCtr sa + of_nat (length es')\<rparr>)"
    and sound: "\<forall>e \<in> set es'. sound_envelope L (now_ms (l_env L) (tick s')) e"
    using p s(1,3) unfolding posts_def by blast+
  have "list_all2 (\<lambda>tl e. sound_envelope L (fst tl) e)
      (map (Pair (now_ms (l_env L) (tick s'))) (new_lines (l_stream L) (sm x) s')) es'"
    using sound nl by (simp add: list_all2_conv_all_nth)
  with snd have "list_all2 (\<lambda>tl e. sound_envelope L (fst tl) e) (wire (act L s' x)) (es @ es')"
    by (simp add: act_def list_all2_appendI)
  moreover have "map snd (wire (act L s' x)) = packets (aead (l_env L)) k (sendDir sa) (recvMax sb) (es @ es')"
    using s(6,7) nl by (simp add: act_def packets_append comp_def)
  ultimately show ?thesis
    using s(2-5,7) ses u by (intro chanI [where sa = "sa\<lparr>sendCtr := sendCtr sa + of_nat (length es')\<rparr>"]) (simp_all add: act_def add.assoc)
qed

lemma chan_other:
  assumes c: "chan M L y x fs" and p: "posts L es' (sm x) s'" and r: "ready L (sm x)"
  shows "chan M L y (act L s' x) fs"
proof -
  from r obtain ses k where "mlookup (sessions (sm x)) (l_peer L) = Some ses" "sendAEAD ses = Some k"
    by (auto simp: ready_def)
  with p have "mlookup (sessions s') (l_peer L) = Some (ses\<lparr>sendCtr := sendCtr ses + of_nat (length es')\<rparr>)"
    by (simp add: posts_def)
  then show ?thesis using c \<open>mlookup (sessions (sm x)) (l_peer L) = Some ses\<close>
    by (elim chanE) (rule chanI [where sb = "ses\<lparr>sendCtr := sendCtr ses + of_nat (length es')\<rparr>"], simp_all add: act_def)
qed

text \<open>The state of a node that has accepted the next packet.\<close>

definition accepted :: "link \<Rightarrow> u64 \<Rightarrow> stream_manager \<Rightarrow> stream_manager" where
  "accepted L c s =
     (case mlookup (sessions s) (l_peer L) of
        None \<Rightarrow> s
      | Some ses \<Rightarrow> ticked (s\<lparr>sessions := mput (l_peer L) (fst (acceptCounter ses c)) (sessions s)\<rparr>))"

lemma accepted_fields [simp]:
  "tick s \<le> tick (accepted L c s)" "node (accepted L c s) = node s" "streams (accepted L c s) = streams s"
  "sendSeq (accepted L c s) = sendSeq s" "recvSeq (accepted L c s) = recvSeq s"
  "recvBuffer (accepted L c s) = recvBuffer s" "pending (accepted L c s) = pending s" "out (accepted L c s) = out s"
  by (simp_all add: accepted_def ticked_def split: option.split)

lemma accepted_delivered: "delivered E p (accepted L c s) = delivered E p s"
  by (rule delivered_same) simp

lemma accepted_kept: "kept L s (accepted L' c s)" "lines_on st (accepted L' c s) = lines_on st s"
  by (simp_all add: kept_def delivered_def lines_on_def)

lemma accepted_waiting [simp]: "waiting (accepted L c s) = waiting s"
  by (rule waiting_same) simp

lemma accepted_session:
  "mlookup (sessions s) (l_peer L) = Some ses \<Longrightarrow>
    mlookup (sessions (accepted L c s)) (l_peer L) = Some (fst (acceptCounter ses c))"
  by (simp add: accepted_def ticked_def gomap_simps)

lemma ready_accepted: "ready L s \<Longrightarrow> ready L (accepted L c s)"
proof -
  assume r: "ready L s"
  then obtain ses where "mlookup (sessions s) (l_peer L) = Some ses" by (auto simp: ready_def)
  moreover have "owns p st (accepted L c s) = owns p st s" for p st by (simp add: owns_def)
  ultimately show ?thesis using r accepted_session [of s L ses c] by (auto simp: ready_def acceptCounter_other_fields)
qed

lemma chan_accept:
  assumes c: "chan M L y x (f # fs)" and w: "wire y = (t, l) # w" and f: "fit L" and fc: "facing L M"
    and t: "t \<le> now_ms (l_env L) (tick (sm x)) + 300000"
  obtains c where "readLoop_line (l_env L) (l_peer L) l (sm x)
      = Some (handleEnvelope (l_env L) (l_peer L) f (accepted L c (sm x)))"
    "arrives L M (accepted L c (sm x)) f" "chan M L (y\<lparr>wire := w\<rparr>) (x\<lparr>sm := accepted L c (sm x)\<rparr>) fs"
    "\<And>es. chan L M x y es \<Longrightarrow> chan L M (x\<lparr>sm := accepted L c (sm x)\<rparr>) (y\<lparr>wire := w\<rparr>) es"
    "room L 1 x \<Longrightarrow> room L 1 (x\<lparr>sm := accepted L c (sm x)\<rparr>)"
proof -
  let ?E = "l_env L"
  have a: "aead (l_env M) = aead ?E" and cor: "aead_correct (aead ?E)" using fc f by (simp_all add: facing_def fit_def healthy_def)
  from c obtain sa sb k where s: "mlookup (sessions (sm y)) (l_peer M) = Some sa" "mlookup (sessions (sm x)) (l_peer L) = Some sb"
      "sendAEAD sa = Some k" "recvAEAD sb = Some k" "recvDir sb = sendDir sa"
      "map snd (wire y) = packets (aead ?E) k (sendDir sa) (recvMax sb) (f # fs)"
      "sendCtr sa = recvMax sb + of_nat (length (f # fs))" "unat (recvMax sb) + length (f # fs) < 2 ^ 64"
    and snd: "list_all2 (\<lambda>tl e. sound_envelope M (fst tl) e) (wire y) (f # fs)"
    using chanE [OF c, unfolded a] by metis
  let ?c = "recvMax sb + 1"
  have u: "unat ?c = unat (recvMax sb) + 1" using s(8) by (intro unat_succ) simp
  then have j: "unat (recvMax sb) < unat ?c" by simp
  have l: "l = sealed_packet (aead ?E) k (recvDir sb) ?c (json_object (envelope_members f)) @ [CHR 0x0A]"
    and rest: "map snd w = packets (aead ?E) k (sendDir sa) ?c fs"
    using s(5,6) w by simp_all
  have sound: "sound_envelope M t f" and snd': "list_all2 (\<lambda>tl e. sound_envelope M (fst tl) e) w fs"
    using snd w by simp_all
  let ?s = "accepted L ?c (sm x)"
  have acc: "?s = ticked ((sm x)\<lparr>sessions := mput (l_peer L) (fst (acceptCounter sb ?c)) (sessions (sm x))\<rparr>)"
    by (simp add: accepted_def s(2))
  note ses = accepted_session [OF s(2), of ?c]
  have "now_ms ?E (tick (sm x)) \<le> now_ms ?E (tick ?s)" using f by (intro now_ms_mono) (simp_all add: fit_def)
  then have ar: "arrives L M (sm x) f" "arrives L M ?s f" using sound t by (auto simp: arrives_def intro!: exI [of _ t])
  show thesis
  proof (rule that [of ?c])
    show "readLoop_line ?E (l_peer L) l (sm x) = Some (handleEnvelope ?E (l_peer L) f ?s)"
      unfolding l acc by (rule read_line [OF fc ar(1) cor s(2,4) acceptCounter_jump(1) [OF j]])
    show "arrives L M ?s f" by (rule ar)
    show "chan M L (y\<lparr>wire := w\<rparr>) (x\<lparr>sm := ?s\<rparr>) fs"
      using s rest snd' ses u a
      by (intro chanI [where sa = sa and sb = "fst (acceptCounter sb ?c)" and k = k])
        (simp_all add: acceptCounter_jump(2) [OF j] acceptCounter_other_fields add.assoc)
    show "chan L M (x\<lparr>sm := ?s\<rparr>) (y\<lparr>wire := w\<rparr>) es" if "chan L M x y es" for es
      using that s(1,2) ses by (elim chanE) (rule chanI [where sa = "fst (acceptCounter sb ?c)"], simp_all add: acceptCounter_other_fields)
    show "room L 1 (x\<lparr>sm := ?s\<rparr>)" if "room L 1 x" using that s(2) ses by (simp add: room_def acceptCounter_other_fields)
  qed
qed

lemma act_accepted: "act L s' (x\<lparr>sm := accepted L c (sm x)\<rparr>) = act L s' x"
  by (simp add: act_def new_lines_def accepted_kept)

section \<open>The messages of one direction\<close>

definition text_of :: "Envelope \<Rightarrow> string" where
  "text_of e = (case unmarshal_chat (eBody e) of None \<Rightarrow> [] | Some t \<Rightarrow> t)"

text \<open>
  The chat messages on the wire in terms of the messages \<open>xs\<close> sent so far: each is one of them,
  none is more than one ahead of the \<open>r\<close> messages delivered when its turn comes, and after the last
  one all have been delivered.
\<close>

fun in_turn :: "Envelope list \<Rightarrow> nat \<Rightarrow> Envelope list \<Rightarrow> bool" where
  "in_turn xs r [] \<longleftrightarrow> r = length xs"
| "in_turn xs r (e # es) \<longleftrightarrow>
     (if eType e = TypeChat then \<exists>i \<le> r. i < length xs \<and> e = xs ! i \<and> in_turn xs (max r (Suc i)) es
      else in_turn xs r es)"

lemma in_turn_le: "in_turn xs r es \<Longrightarrow> r \<le> length xs"
  by (induction xs r es rule: in_turn.induct) (auto split: if_splits)

lemma in_turn_new: "eType e = TypeChat \<Longrightarrow> in_turn xs r es \<Longrightarrow> in_turn (xs @ [e]) r (es @ [e])"
proof (induction xs r es rule: in_turn.induct)
  case (1 xs r)
  then show ?case by (simp add: exI [of _ "length xs"])
next
  case (2 xs r e' es)
  show ?case
  proof (cases "eType e' = TypeChat")
    case True
    then obtain i where i: "i \<le> r" "i < length xs" "e' = xs ! i" "in_turn xs (max r (Suc i)) es" using "2.prems"(2) by auto
    have "in_turn (xs @ [e]) (max r (Suc i)) (es @ [e])" by (rule "2.IH"(1) [OF True "2.prems"(1) i(4)])
    then show ?thesis using True i by (auto simp: nth_append intro!: exI [of _ i])
  qed (use 2 in simp)
qed

lemma in_turn_old: "e \<in> set xs \<Longrightarrow> in_turn xs r es \<Longrightarrow> in_turn xs r (es @ [e])"
proof (induction xs r es rule: in_turn.induct)
  case (1 xs r)
  then obtain i where i: "i < length xs" "e = xs ! i" by (metis in_set_conv_nth)
  with 1 show ?case by (auto simp: max_def intro!: exI [of _ i])
qed (auto split: if_splits)

lemma in_turn_other: "\<forall>e \<in> set fs. eType e \<noteq> TypeChat \<Longrightarrow> in_turn xs r (es @ fs) = in_turn xs r es"
proof (induction xs r es rule: in_turn.induct)
  case (1 xs r)
  then show ?case by (induction fs) auto
qed auto

lemma in_turn_empty: "in_turn xs r es \<Longrightarrow> \<forall>e \<in> set es. eType e \<noteq> TypeChat \<Longrightarrow> r = length xs"
  by (induction xs r es rule: in_turn.induct) auto

text \<open>The message number \<open>i\<close> of a side; and one with a text that is not blank, as an envelope that passes.\<close>

definition numbered_text :: "nat \<Rightarrow> Envelope \<Rightarrow> bool" where
  "numbered_text i e \<longleftrightarrow>
     eType e = TypeChat \<and> eSequence e = of_nat (Suc i) \<and> unmarshal_chat (eBody e) = Some (text_of e)"

definition numbered_chat :: "link \<Rightarrow> int \<Rightarrow> nat \<Rightarrow> Envelope \<Rightarrow> bool" where
  "numbered_chat L now i e \<longleftrightarrow> numbered_text i e \<and> TrimSpace (text_of e) \<noteq> [] \<and> sound_envelope L now e"

text \<open>A message that may be written again.\<close>

definition resendable :: "link \<Rightarrow> side \<Rightarrow> Envelope \<Rightarrow> bool" where
  "resendable L x e \<longleftrightarrow> e \<in> set (sent x) \<and> sound_envelope L (now_ms (l_env L) (tick (sm x))) e"

lemma resendable_same [simp]:
  "resendable L (x\<lparr>wire := w\<rparr>) e = resendable L x e" "resendable L (x\<lparr>todo := td\<rparr>) e = resendable L x e"
  by (simp_all add: resendable_def)

definition sender_core :: "link \<Rightarrow> side \<Rightarrow> bool" where
  "sender_core L x \<longleftrightarrow>
     sm_ok (sm x) \<and> mget 0 (sendSeq (sm x)) (l_peer L) = of_nat (length (sent x)) \<and>
     (\<forall>i < length (sent x). numbered_text i (sent x ! i)) \<and>
     map text_of (sent x) = map to_valid (typed x) \<and>
     (\<forall>i m. waiting (sm x) (l_peer L) i = Some m \<longrightarrow> resendable L x (pc_envelope m)) \<and>
     (\<forall>item \<in> set (snd (todo x)). fst item = l_peer L \<and> resendable L x (pc_envelope (snd item))) \<and>
     (\<forall>tl \<in> set (wire x). fst tl \<le> now_ms (l_env L) (tick (sm x)))"

text \<open>
  When all texts are good, each message has used up a packet counter, so the sequence numbers do not
  wrap before the counters.
\<close>

definition sender_ok :: "link \<Rightarrow> side \<Rightarrow> bool" where
  "sender_ok L x \<longleftrightarrow>
     sender_core L x \<and>
     (\<forall>i < length (sent x). numbered_chat L (now_ms (l_env L) (tick (sm x))) i (sent x ! i)) \<and>
     (\<forall>ses. mlookup (sessions (sm x)) (l_peer L) = Some ses \<longrightarrow> length (sent x) \<le> unat (sendCtr ses))"

text \<open>The receiver has delivered the first messages of the other side and nothing else since \<open>D\<close>.\<close>

definition receiver_ok :: "link \<Rightarrow> string list \<Rightarrow> Envelope list \<Rightarrow> stream_manager \<Rightarrow> Envelope list \<Rightarrow> bool" where
  "receiver_ok M D xs s es \<longleftrightarrow>
     (\<exists>r. mget 0 (recvSeq s) (l_peer M) = of_nat r \<and> in_turn xs r es \<and>
        delivered (l_env M) (l_peer M) s = D @ map text_of (take r xs)) \<and>
     mget [] (recvBuffer s) (l_peer M) = []"

text \<open>
  A message that waits is on its way or its acknowledgement is on the way back: \<open>es\<close> and \<open>fs\<close> are
  the envelopes under way in the two directions.
\<close>

definition answered :: "link \<Rightarrow> side \<Rightarrow> Envelope list \<Rightarrow> Envelope list \<Rightarrow> bool" where
  "answered L x es fs \<longleftrightarrow>
     (\<forall>i m. waiting (sm x) (l_peer L) i = Some m \<longrightarrow>
        (\<exists>e \<in> set es. eType e = TypeChat \<and> eID e = i) \<or> (\<exists>a \<in> set fs. ack_for i a))"

definition acks_ok :: "Envelope list \<Rightarrow> bool" where
  "acks_ok es \<longleftrightarrow> (\<forall>e \<in> set es. eType e = TypeAck \<longrightarrow> (\<exists>i. ack_for i e))"

definition half :: "link \<Rightarrow> link \<Rightarrow> string list \<Rightarrow> side \<Rightarrow> side \<Rightarrow> Envelope list \<Rightarrow> Envelope list \<Rightarrow> bool" where
  "half L M D x y es fs \<longleftrightarrow>
     ready L (sm x) \<and> chan L M x y es \<and> acks_ok es \<and> sender_ok L x \<and> receiver_ok M D (sent x) (sm y) es \<and>
     answered L x es fs"

text \<open>The invariant of the network.\<close>

definition joined_by ::
  "link \<Rightarrow> link \<Rightarrow> string list \<Rightarrow> string list \<Rightarrow> side \<times> side \<Rightarrow> Envelope list \<Rightarrow> Envelope list \<Rightarrow> bool"
where
  "joined_by L M D D' n es fs \<longleftrightarrow>
     fit L \<and> fit M \<and> facing L M \<and> half L M D (fst n) (snd n) es fs \<and> half M L D' (snd n) (fst n) fs es"

definition joined :: "link \<Rightarrow> link \<Rightarrow> string list \<Rightarrow> string list \<Rightarrow> side \<times> side \<Rightarrow> bool" where
  "joined L M D D' n \<longleftrightarrow> (\<exists>es fs. joined_by L M D D' n es fs)"

lemma joined_by_swap: "joined_by L M D D' n es fs \<Longrightarrow> joined_by M L D' D (prod.swap n) fs es"
  by (simp add: joined_by_def facing_sym)

lemma joined_swap: "joined L M D D' n \<Longrightarrow> joined M L D' D (prod.swap n)"
  unfolding joined_def using joined_by_swap by blast

text \<open>The acting side with respect to the messages it sends and those it receives.\<close>

lemma act_fields [simp]: "sm (act L s' x) = s'" "todo (act L s' x) = todo x" "typed (act L s' x) = typed x" "sent (act L s' x) = sent x"
  by (simp_all add: act_def)

lemma act_stamps:
  assumes "\<forall>tl \<in> set (wire x). fst tl \<le> now_ms (l_env L) (tick (sm x))"
    and "now_ms (l_env L) (tick (sm x)) \<le> now_ms (l_env L) (tick s')"
  shows "\<forall>tl \<in> set (wire (act L s' x)). fst tl \<le> now_ms (l_env L) (tick s')"
  using assms by (fastforce simp: act_def)

lemma numbered_later: "numbered_chat L now i e \<Longrightarrow> now \<le> now' \<Longrightarrow> numbered_chat L now' i e"
  by (auto simp: numbered_chat_def intro: sound_later)

lemma posts_ctr:
  assumes "posts L es s s'" and "ready L s" and "mlookup (sessions s') (l_peer L) = Some ses'"
    and "mlookup (sessions s) (l_peer L) = Some ses"
  shows "sendCtr ses' = sendCtr ses + of_nat (length es)"
  using assms by (auto simp: posts_def ready_def)

lemma ctr_grows:
  assumes "posts L es (sm x) s'" "ready L (sm x)" "es \<noteq> [] \<Longrightarrow> room L 1 x" "length es \<le> 1" "mlookup (sessions (sm x)) (l_peer L) = Some ses"
    "mlookup (sessions s') (l_peer L) = Some ses'"
  shows "unat (sendCtr ses') = unat (sendCtr ses) + length es"
  using posts_ctr [OF assms(1,2,6,5)] unat_add_of_nat [of "sendCtr ses" "length es"] assms(3,4,5)
  by (cases "es = []") (simp_all add: room_def)

lemma resendable_later:
  "resendable L x e \<Longrightarrow> sent x' = sent x \<Longrightarrow> now_ms (l_env L) (tick (sm x)) \<le> now_ms (l_env L) (tick (sm x')) \<Longrightarrow> resendable L x' e"
  by (auto simp: resendable_def intro: sound_later)

lemma posts_clock: "fit L \<Longrightarrow> posts L es s s' \<Longrightarrow> now_ms (l_env L) (tick s) \<le> now_ms (l_env L) (tick s')"
  by (intro now_ms_mono) (simp_all add: fit_def posts_def)

lemma sender_core_frame:
  assumes s: "sender_core L x" and f: "fit L" and p: "posts L es (sm x) s'"
    and ok: "sm_ok s'" and q: "mget 0 (sendSeq s') (l_peer L) = mget 0 (sendSeq (sm x)) (l_peer L)"
    and w: "\<And>i m. waiting s' (l_peer L) i = Some m \<Longrightarrow> \<exists>m'. waiting (sm x) (l_peer L) i = Some m' \<and> pc_envelope m' = pc_envelope m"
  shows "sender_core L (act L s' x)"
proof -
  note clk = posts_clock [OF f p]
  have later: "resendable L (act L s' x) e" if "resendable L x e" for e
    using that clk by (rule_tac resendable_later) simp_all
  have "resendable L (act L s' x) (pc_envelope m)" if "waiting s' (l_peer L) i = Some m" for i m
    using w [OF that] s later unfolding sender_core_def by metis
  moreover have "\<forall>tl \<in> set (wire (act L s' x)). fst tl \<le> now_ms (l_env L) (tick s')"
    using s clk by (intro act_stamps) (simp_all add: sender_core_def)
  ultimately show ?thesis using s ok q later by (simp add: sender_core_def)
qed

lemma sender_frame:
  assumes s: "sender_ok L x" and f: "fit L" and p: "posts L es (sm x) s'" "ready L (sm x)" "es \<noteq> [] \<Longrightarrow> room L 1 x" "length es \<le> 1"
    and ok: "sm_ok s'" and q: "mget 0 (sendSeq s') (l_peer L) = mget 0 (sendSeq (sm x)) (l_peer L)"
    and w: "\<And>i m. waiting s' (l_peer L) i = Some m \<Longrightarrow> \<exists>m'. waiting (sm x) (l_peer L) i = Some m' \<and> pc_envelope m' = pc_envelope m"
  shows "sender_ok L (act L s' x)"
proof -
  obtain ses where ses: "mlookup (sessions (sm x)) (l_peer L) = Some ses" using p(2) by (auto simp: ready_def)
  then have "length (sent x) \<le> unat (sendCtr ses')" if "mlookup (sessions s') (l_peer L) = Some ses'" for ses'
    using ctr_grows [OF p ses that] s by (simp add: sender_ok_def)
  moreover have "\<forall>i < length (sent x). numbered_chat L (now_ms (l_env L) (tick s')) i (sent x ! i)"
    using s posts_clock [OF f p(1)] by (auto simp: sender_ok_def intro: numbered_later)
  moreover have "sender_core L (act L s' x)"
    using s by (intro sender_core_frame [OF _ f p(1) ok q w]) (simp_all add: sender_ok_def)
  ultimately show ?thesis by (simp add: sender_ok_def)
qed

lemma receiver_frame:
  assumes "receiver_ok L D xs (sm x) fs" and "mget 0 (recvSeq s') (l_peer L) = mget 0 (recvSeq (sm x)) (l_peer L)"
    and "mget [] (recvBuffer s') (l_peer L) = mget [] (recvBuffer (sm x)) (l_peer L)"
    and "delivered (l_env L) (l_peer L) s' = delivered (l_env L) (l_peer L) (sm x)"
  shows "receiver_ok L D xs s' fs"
  using assms by (simp add: receiver_ok_def)

lemma answered_more: "answered L x es fs \<Longrightarrow> answered L x (es @ es') (fs @ fs')"
  unfolding answered_def by auto

lemma in_turn_more:
  assumes "in_turn xs r es" and "\<forall>e \<in> set es'. eType e \<noteq> TypeChat \<or> e \<in> set xs"
  shows "in_turn xs r (es @ es')"
  using assms(2,1)
proof (induction es' rule: rev_induct)
  case (snoc e es')
  then have "in_turn xs r ((es @ es') @ [e])"
    using in_turn_old [of e xs r "es @ es'"] in_turn_other [of "[e]" xs r "es @ es'"] by auto
  then show ?case by simp
qed simp

lemma receiver_more:
  assumes "receiver_ok M D xs s es" and "\<forall>e \<in> set es'. eType e \<noteq> TypeChat \<or> e \<in> set xs"
  shows "receiver_ok M D xs s (es @ es')"
proof -
  from assms(1) obtain r where "mget 0 (recvSeq s) (l_peer M) = of_nat r" "in_turn xs r es"
    "delivered (l_env M) (l_peer M) s = D @ map text_of (take r xs)" "mget [] (recvBuffer s) (l_peer M) = []"
    by (auto simp: receiver_ok_def)
  then show ?thesis using in_turn_more [OF _ assms(2), of r es] by (auto simp: receiver_ok_def)
qed

text \<open>A side posts envelopes that are no new messages: its own direction, and the other one.\<close>

lemma half_own:
  assumes h: "half L M D x y es fs" and f: "fit L" and p: "posts L es' (sm x) s'" and r: "es' \<noteq> [] \<Longrightarrow> room L 1 x" and one: "length es' \<le> 1"
    and old: "\<forall>e \<in> set es'. eType e \<noteq> TypeChat \<or> e \<in> set (sent x)" and a: "acks_ok es'"
    and ok: "sm_ok s'" and q: "mget 0 (sendSeq s') (l_peer L) = mget 0 (sendSeq (sm x)) (l_peer L)"
    and w: "\<And>i m. waiting s' (l_peer L) i = Some m \<Longrightarrow> \<exists>m'. waiting (sm x) (l_peer L) i = Some m' \<and> pc_envelope m' = pc_envelope m"
  shows "half L M D (act L s' x) y (es @ es') fs"
proof -
  have rd: "ready L (sm x)" and c: "chan L M x y es" and s: "sender_ok L x" using h by (simp_all add: half_def)
  have "sender_ok L (act L s' x)" by (rule sender_frame [OF s f p rd r one ok q w])
  moreover have "receiver_ok M D (sent x) (sm y) (es @ es')"
    using h by (intro receiver_more [OF _ old]) (simp add: half_def)
  moreover have "answered L (act L s' x) es fs"
    unfolding answered_def act_fields
  proof (intro allI impI)
    fix i m
    assume "waiting s' (l_peer L) i = Some m"
    from w [OF this] obtain m' where "waiting (sm x) (l_peer L) i = Some m'" by blast
    then show "(\<exists>e \<in> set es. eType e = TypeChat \<and> eID e = i) \<or> (\<exists>a \<in> set fs. ack_for i a)"
      using h unfolding half_def answered_def by blast
  qed
  then have "answered L (act L s' x) (es @ es') fs" using answered_more [of L _ es fs es' "[]"] by simp
  moreover have "acks_ok (es @ es')" using h a unfolding half_def acks_ok_def by auto
  ultimately show ?thesis
    using chan_post [OF c p r one] posts_ready [OF p rd] by (simp add: half_def)
qed

lemma half_other:
  assumes h: "half M L D y x fs es" and p: "posts L es' (sm x) s'" and rd: "ready L (sm x)"
    and q: "mget 0 (recvSeq s') (l_peer L) = mget 0 (recvSeq (sm x)) (l_peer L)"
      "mget [] (recvBuffer s') (l_peer L) = mget [] (recvBuffer (sm x)) (l_peer L)"
      "delivered (l_env L) (l_peer L) s' = delivered (l_env L) (l_peer L) (sm x)"
  shows "half M L D y (act L s' x) fs (es @ es')"
proof -
  have "chan M L y (act L s' x) fs" using h by (intro chan_other [OF _ p rd]) (simp add: half_def)
  moreover have "receiver_ok L D (sent y) s' fs" using h by (intro receiver_frame [OF _ q]) (simp add: half_def)
  moreover have "answered M y fs (es @ es')" using h answered_more [of M y fs es "[]" es'] by (simp add: half_def)
  ultimately show ?thesis using h by (simp add: half_def)
qed

text \<open>The list of messages to send again belongs to the sender alone.\<close>

lemma half_sent: "half L M D x y es fs \<Longrightarrow> e \<in> set (sent x) \<Longrightarrow>
    sound_envelope L (now_ms (l_env L) (tick (sm x))) e \<and> eType e = TypeChat"
  by (auto simp: half_def sender_ok_def numbered_chat_def numbered_text_def in_set_conv_nth)

lemma half_todo:
  assumes h: "half L M D x y es fs" and td: "\<forall>item \<in> set (snd td). fst item = l_peer L \<and> pc_envelope (snd item) \<in> set (sent x)"
  shows "half L M D (x\<lparr>todo := td\<rparr>) y es fs"
proof -
  have "resendable L x (pc_envelope (snd item))" if "item \<in> set (snd td)" for item
    using half_sent [OF h] td that by (simp add: resendable_def)
  then show ?thesis
    using h td by (simp add: half_def chan_def sender_ok_def sender_core_def receiver_ok_def answered_def)
qed

lemma half_todo_other: "half M L D' y (x\<lparr>todo := td\<rparr>) fs es = half M L D' y x fs es"
  by (simp add: half_def chan_def receiver_ok_def)

lemma sm_ok_ready: "half L M D x y es fs \<Longrightarrow> sm_ok (sm x) \<and> ready L (sm x)"
  by (simp add: half_def sender_ok_def sender_core_def)

end
