(* ===== verification/Network_Delivery.thy ===== *)
theory Network_Delivery
  imports Network
begin

text \<open>
  Every step of the network keeps the invariant, so it holds in every reachable state; and from
  every reachable state reading alone brings the network to rest. The properties say what this
  means to the users.
\<close>

section \<open>Every step keeps the invariant\<close>

lemma due_items_waiting:
  assumes "sm_ok s" and "(p, m) \<in> set (due_items now s)"
  shows "\<exists>i. waiting s p i = Some m"
proof -
  obtain msgs i where m: "(p, msgs) \<in> set (pending s)" "(i, m) \<in> set msgs"
    using assms(2) by (auto simp: due_items_def)
  have "mlookup (pending s) p = Some msgs" using mlookup_iff_in_set [OF pend_okD(1) [OF assms(1)]] m(1) by simp
  then have "pending_ok (nextAddr s) msgs" "mget [] (pending s) p = msgs"
    using pend_okD(2) [OF assms(1)] by (auto simp: mget_Some)
  then show ?thesis using m(2) mlookup_iff_in_set [of msgs i m] by (auto simp: waiting_def pending_ok_def)
qed

lemma act_ticked:
  assumes "\<And>st. lines_on st s' = lines_on st (sm x)"
  shows "act L s' x = x\<lparr>sm := s'\<rparr>"
  using assms by (simp add: act_def new_lines_def)

text \<open>A step of \<open>x\<close> that posts at most one envelope and no new message.\<close>

lemma act_joined_by:
  assumes n: "joined_by L M D D' (x, y) es fs" and p: "posts L es' (sm x) s'" and r: "es' \<noteq> [] \<Longrightarrow> room L 1 x" and one: "length es' \<le> 1"
    and old: "\<forall>e \<in> set es'. eType e = TypeControl \<or> eType e = TypeChat \<and> e \<in> set (sent x)"
    and ok: "sm_ok s'" and q: "mget 0 (sendSeq s') (l_peer L) = mget 0 (sendSeq (sm x)) (l_peer L)"
      "mget 0 (recvSeq s') (l_peer L) = mget 0 (recvSeq (sm x)) (l_peer L)"
      "mget [] (recvBuffer s') (l_peer L) = mget [] (recvBuffer (sm x)) (l_peer L)"
      "delivered (l_env L) (l_peer L) s' = delivered (l_env L) (l_peer L) (sm x)"
    and w: "\<And>i m. waiting s' (l_peer L) i = Some m \<Longrightarrow> \<exists>m'. waiting (sm x) (l_peer L) i = Some m' \<and> pc_envelope m' = pc_envelope m"
  shows "joined_by L M D D' (act L s' x, y) (es @ es') fs"
proof -
  have h: "half L M D x y es fs" "half M L D' y x fs es" and f: "fit L" "fit M" "facing L M"
    using n by (simp_all add: joined_by_def)
  have a: "acks_ok es'" "\<forall>e \<in> set es'. eType e \<noteq> TypeChat \<or> e \<in> set (sent x)"
    using old by (auto simp: acks_ok_def message_type_defs)
  have "half L M D (act L s' x) y (es @ es') fs"
    using q(1) by (intro half_own [OF h(1) f(1) p r one a(2,1) ok _ w]) simp_all
  moreover have "half M L D' y (act L s' x) fs (es @ es')"
    using sm_ok_ready [OF h(1)] by (intro half_other [OF h(2) p]) (simp_all add: q)
  ultimately show ?thesis using f by (simp add: joined_by_def)
qed

lemma joined_sender: "joined_by L M D D' (x, y) es fs \<Longrightarrow> fit L \<and> ready L (sm x) \<and> sm_ok (sm x) \<and> sender_ok L x"
  by (simp add: joined_by_def half_def sender_ok_def sender_core_def)

lemma todo_joined:
  assumes "joined_by L M D D' (x, y) es fs" and "\<forall>item \<in> set (snd td). fst item = l_peer L \<and> pc_envelope (snd item) \<in> set (sent x)"
  shows "joined_by L M D D' (x\<lparr>todo := td\<rparr>, y) es fs"
  using assms by (simp add: joined_by_def half_todo half_todo_other)

lemma idle_joined:
  assumes "joined_by L M D D' (x, y) es fs"
  shows "joined_by L M D D' (x\<lparr>sm := ticked (sm x)\<rparr>, y) es fs"
proof -
  have "act L (ticked (sm x)) x = x\<lparr>sm := ticked (sm x)\<rparr>" by (rule act_ticked) (simp add: lines_on_def ticked_def)
  moreover have "sm_ok (ticked (sm x))" using joined_sender [OF assms] by (simp add: ticked_ok)
  then have "joined_by L M D D' (act L (ticked (sm x)) x, y) (es @ []) fs"
    by (intro act_joined_by [OF assms posts_ticked]) (simp_all, simp_all add: ticked_def)
  ultimately show ?thesis by simp
qed

lemma other_joined:
  assumes n: "joined_by L M D D' (x, y) es fs" and o: "other_step (l_env L) (l_peer L) (l_stream L) (sm x) s'"
  shows "joined_by L M D D' (act L s' x, y) es fs"
proof -
  have f: "fit L" "ready L (sm x)" "sm_ok (sm x)" using joined_sender [OF n] by simp_all
  then have "others (l_env L) (l_peer L) (l_stream L) (sm x)" by (simp add: others_def ready_def fit_def)
  note a = other_step_apart [OF o this]
  have "joined_by L M D D' (act L s' x, y) (es @ []) fs"
    using apart_tables_same [OF a] other_step_ok [OF o f(3)] by (intro act_joined_by [OF n apart_posts [OF a]]) simp_all
  then show ?thesis by simp
qed

lemma collect_joined:
  assumes n: "joined_by L M D D' (x, y) es fs"
  shows "joined_by L M D D' (x\<lparr>sm := ticked (sm x),
    todo := (now, filter (\<lambda>item. fst item = l_peer L) (due_items now (sm x)))\<rparr>, y) es fs"
proof -
  have "\<forall>item \<in> set (due_items now (sm x)). fst item = l_peer L \<longrightarrow> pc_envelope (snd item) \<in> set (sent x)"
    using due_items_waiting [of "sm x" "l_peer L" _ now] joined_sender [OF n] unfolding sender_ok_def sender_core_def resendable_def by (metis prod.collapse)
  then show ?thesis using todo_joined [OF idle_joined [OF n]] by simp
qed

lemma control_joined:
  assumes n: "joined_by L M D D' (x, y) es fs" and r: "room L 1 x" and b: "good_control b"
  shows "\<exists>es'. joined_by L M D D' (act L (fst (sendControl (l_env L) (l_peer L) b (sm x))) x, y) es' fs"
proof -
  have f: "fit L" "ready L (sm x)" "sm_ok (sm x)" using joined_sender [OF n] by simp_all
  obtain e s' where e: "sendControl (l_env L) (l_peer L) b (sm x) = (s', None)" "eType e = TypeControl" "posts L [e] (sm x) s'" "kept L (sm x) s'"
    by (rule sendControl_posts [OF f(1,2) b])
  have "only_sends (l_peer L) (sm x) s'" using sendControl_only_sends [of "l_peer L" "sm x" "l_env L" b] e(1) by simp
  then have "sm_ok s'" by (rule sm_ok_same [OF f(3) same_tables_sends])
  then have "joined_by L M D D' (act L s' x, y) (es @ [e]) fs"
    using e r by (intro act_joined_by [OF n e(3)]) (simp_all add: kept_def waiting_def)
  then show ?thesis using e(1) by auto
qed

lemma send_again_joined:
  assumes n: "joined_by L M D D' (x, y) es fs" and r: "room L 1 x" and td: "todo x = (now, item # items)"
  shows "\<exists>es'. joined_by L M D D' ((act L (resend (l_env L) now item (sm x)) x)\<lparr>todo := (now, items)\<rparr>, y) es' fs"
proof -
  have h: "half L M D x y es fs" and f: "fit L" using n by (simp_all add: joined_by_def)
  have item: "item = (l_peer L, snd item)" "pc_envelope (snd item) \<in> set (sent x)"
    "\<forall>item \<in> set items. fst item = l_peer L \<and> pc_envelope (snd item) \<in> set (sent x)"
    using joined_sender [OF n] td by (auto simp: sender_ok_def sender_core_def resendable_def prod_eq_iff)
  let ?s = "resend (l_env L) now item (sm x)"
  note e = half_sent [OF h item(2)]
  note rp = resend_posts [OF f conjunct2 [OF sm_ok_ready [OF h]] conjunct1 [OF e], of now, folded item(1)]
  have "\<exists>m'. waiting (sm x) (l_peer L) i = Some m' \<and> pc_envelope m' = pc_envelope m" if "waiting ?s (l_peer L) i = Some m" for i m
    using resend_later [of "sm x" "l_peer L" i "l_env L" now item] that by (auto simp: later_entry_def split: option.splits)
  then have "joined_by L M D D' (act L ?s x, y) (es @ [pc_envelope (snd item)]) fs"
    using rp e item(2) r resend_ok sm_ok_ready [OF h] by (intro act_joined_by [OF n rp(1)]) simp_all
  from todo_joined [OF this, of "(now, items)"] item(3) show ?thesis by auto
qed

subsection \<open>A new message\<close>

lemma half_sent_size:
  assumes "half L M D x y es fs"
  shows "length (sent x) < 2 ^ 64"
proof -
  obtain ses where "mlookup (sessions (sm x)) (l_peer L) = Some ses" using assms by (auto simp: half_def ready_def)
  then have "length (sent x) \<le> unat (sendCtr ses)" using assms by (simp add: half_def sender_ok_def sender_core_def)
  also have "\<dots> < 2 ^ 64" using unsigned_less [of "sendCtr ses", where 'a = nat] by simp
  finally show ?thesis .
qed

text \<open>
  What typing a text does to the side it is typed on: it gets the next number. If it fits into an
  envelope, the envelope is written and waits; otherwise nothing is written.
\<close>

lemma typed_numbered: "text_of (unsent n t) = to_valid t" "numbered_text n (unsent n t)"
  "eBody e = chatBody t \<Longrightarrow> text_of e = to_valid t"
  "eType e = TypeChat \<Longrightarrow> eSequence e = of_nat (Suc n) \<Longrightarrow> eBody e = chatBody t \<Longrightarrow> numbered_text n e"
  by (simp_all add: text_of_def numbered_text_def unsent_def unmarshal_chatBody)

lemma new_sender_core:
  assumes sx: "sender_core L x" and f: "fit L" and p: "posts L es (sm x) s'" and ok: "sm_ok s'"
    and e: "numbered_text (length (sent x)) e" "text_of e = to_valid t"
    and q: "mget 0 (sendSeq s') (l_peer L) = of_nat (Suc (length (sent x)))"
    and w: "\<forall>i m. waiting s' (l_peer L) i = Some m \<longrightarrow> e \<in> set es \<and> pc_envelope m = e \<or> waiting (sm x) (l_peer L) i = Some m"
  shows "sender_core L ((act L s' x)\<lparr>typed := typed x @ [t], sent := sent x @ [e]\<rparr>)"
proof -
  let ?x = "(act L s' x)\<lparr>typed := typed x @ [t], sent := sent x @ [e]\<rparr>"
  note clk = posts_clock [OF f p]
  have later: "resendable L ?x e'" if "resendable L x e'" for e'
    using that clk by (auto simp: resendable_def intro: sound_later)
  have "resendable L ?x e" if "e \<in> set es" using that p by (simp add: posts_def resendable_def)
  then have "resendable L ?x (pc_envelope m)" if "waiting s' (l_peer L) i = Some m" for i m
    using w that later sx unfolding sender_core_def by metis
  moreover have "\<forall>i < length (sent ?x). numbered_text i (sent ?x ! i)"
    using sx e(1) by (simp add: sender_core_def nth_append less_Suc_eq)
  moreover have "\<forall>tl \<in> set (wire (act L s' x)). fst tl \<le> now_ms (l_env L) (tick s')"
    using sx clk by (intro act_stamps) (simp_all add: sender_core_def)
  ultimately show ?thesis using sx ok q e(2) later by (simp add: sender_core_def)
qed

lemma send_effect:
  assumes f: "fit L" and rd: "ready L (sm x)" and sx: "sender_core L x" and n: "length (sent x) + 1 < 2 ^ 64"
    and c: "sendChat (l_env L) (l_peer L) t (sm x) = (s', res)"
    and e: "e = (case res of Inl err \<Rightarrow> unsent (length (sent x)) t | Inr e \<Rightarrow> e)"
  obtains es where "posts L es (sm x) s'" "set es \<subseteq> {e}" "length (chatBody t) \<le> 49152 \<Longrightarrow> es = [e]" "eType e = TypeChat"
    "text_of e = to_valid t" "numbered_text (length (sent x)) e"
    "sender_core L ((act L s' x)\<lparr>typed := typed x @ [t], sent := sent x @ [e]\<rparr>)"
    "recvSeq s' = recvSeq (sm x)" "recvBuffer s' = recvBuffer (sm x)"
    "delivered (l_env L) (l_peer L) s' = delivered (l_env L) (l_peer L) (sm x)"
    "\<forall>i m. waiting s' (l_peer L) i = Some m \<longrightarrow> i = eID e \<and> pc_envelope m = e \<or> waiting (sm x) (l_peer L) i = Some m"
proof -
  let ?n = "length (sent x)" and ?q = "mget 0 (sendSeq (sm x)) (l_peer L) + 1"
  have q: "?q = of_nat (Suc ?n)" using sx by (simp add: sender_core_def)
  have "unat (of_nat (Suc ?n) :: u64) = Suc ?n" using unat_add_of_nat [of 0 "Suc ?n"] n by simp
  then have nz: "?q \<noteq> 0" using q by (metis nat.distinct(1) unat_0)
  have ok: "sm_ok s'" using sendChat_ok [of "sm x" "l_env L" "l_peer L" t] sx c by (simp add: sender_core_def)
  show thesis
  proof (cases "length (chatBody t) \<le> 49152")
    case True
    obtain e1 s1 where
      e1: "sendChat (l_env L) (l_peer L) t (sm x) = (s1, Inr e1)" "posts L [e1] (sm x) s1" "eType e1 = TypeChat"
        "eBody e1 = chatBody t" "eSequence e1 = ?q" "sendSeq s1 = mput (l_peer L) ?q (sendSeq (sm x))"
        "recvSeq s1 = recvSeq (sm x)" "recvBuffer s1 = recvBuffer (sm x)"
        "delivered (l_env L) (l_peer L) s1 = delivered (l_env L) (l_peer L) (sm x)"
      and w: "\<forall>p j m. waiting s1 p j = Some m \<longrightarrow> (p = l_peer L \<and> j = eID e1 \<and> pc_envelope m = e1) \<or> waiting (sm x) p j = Some m"
      by (rule sendChat_posts [OF f rd nz True])
    have "s1 = s'" "Inr e1 = res" using c e1(1) by simp_all
    then have s: "s' = s1" "e1 = e" unfolding e by auto
    note e1 = e1 [unfolded s(2), folded s(1)] and w = w [unfolded s(2), folded s(1)]
    note num = typed_numbered(3) [OF e1(4)] typed_numbered(4) [OF e1(3) _ e1(4), of ?n]
    have nt: "numbered_text ?n e" by (rule num(2)) (simp only: e1(5) q)
    have "sender_core L ((act L s' x)\<lparr>typed := typed x @ [t], sent := sent x @ [e]\<rparr>)"
      by (rule new_sender_core [OF sx f e1(2) ok nt num(1)]) (use e1(6) q w in \<open>auto simp: gomap_simps\<close>)
    then show thesis using e1 nt num(1) w by (intro that [of "[e]"]) auto
  next
    case False
    obtain err where err: "sendChat (l_env L) (l_peer L) t (sm x)
        = (ticked (ticked ((sm x)\<lparr>sendSeq := mput (l_peer L) ?q (sendSeq (sm x))\<rparr>)), Inl err)"
      using sendChat_refused [OF f rd, of t] False by (metis not_le)
    let ?s = "ticked (ticked ((sm x)\<lparr>sendSeq := mput (l_peer L) ?q (sendSeq (sm x))\<rparr>))"
    have r: "?s = s'" "Inl err = res" using c err by simp_all
    have s: "s' = ?s" "e = unsent ?n t" using r(1) unfolding e r(2) [symmetric] by simp_all
    have p: "posts L [] (sm x) s'" unfolding s by (rule posts_quiet) (simp_all add: ticked_def lines_on_def)
    have same: "pending s' = pending (sm x)" "recvSeq s' = recvSeq (sm x)" "recvBuffer s' = recvBuffer (sm x)"
      "mget 0 (sendSeq s') (l_peer L) = of_nat (Suc ?n)" "out s' = out (sm x)"
      unfolding s using q by (simp_all add: ticked_def gomap_simps)
    note w = waiting_same [OF same(1)]
    have "sender_core L ((act L s' x)\<lparr>typed := typed x @ [t], sent := sent x @ [e]\<rparr>)"
      by (rule new_sender_core [OF sx f p ok _ _ same(4)]) (simp_all add: s(2) typed_numbered(1,2) w)
    then show thesis
      using p same(2,3) False w delivered_same [OF same(5)]
      by (intro that [of "[]"]) (simp_all add: s(2) typed_numbered(1,2), simp add: unsent_def)
  qed
qed

lemma send_joined:
  assumes n: "joined_by L M D D' (x, y) es fs" and r: "room L 1 x" and tx: "good_text t"
    and c: "sendChat (l_env L) (l_peer L) t (sm x) = (s', res)"
  shows "\<exists>es'. joined_by L M D D' ((act L s' x)\<lparr>typed := typed x @ [t],
      sent := sent x @ [case res of Inl err \<Rightarrow> unsent (length (sent x)) t | Inr e \<Rightarrow> e]\<rparr>, y) es' fs"
proof -
  have h: "half L M D x y es fs" "half M L D' y x fs es" and f: "fit L" "fit M" "facing L M"
    using n by (simp_all add: joined_by_def)
  have rd: "ready L (sm x)" and sx: "sender_ok L x" and ch: "chan L M x y es" and rv: "receiver_ok M D (sent x) (sm y) es"
    and an: "answered L x es fs" and ak: "acks_ok es" using h(1) by (simp_all add: half_def)
  obtain ses where ses: "mlookup (sessions (sm x)) (l_peer L) = Some ses" using rd by (auto simp: ready_def)
  then have len: "length (sent x) + 1 < 2 ^ 64" and core: "sender_core L x" using sx r by (auto simp: sender_ok_def room_def)
  define e where "e = (case res of Inl err \<Rightarrow> unsent (length (sent x)) t | Inr e \<Rightarrow> e)"
  have e: "posts L [e] (sm x) s'" "eType e = TypeChat" "text_of e = to_valid t" "numbered_text (length (sent x)) e"
      "sender_core L ((act L s' x)\<lparr>typed := typed x @ [t], sent := sent x @ [e]\<rparr>)"
      "recvSeq s' = recvSeq (sm x)" "recvBuffer s' = recvBuffer (sm x)"
      "delivered (l_env L) (l_peer L) s' = delivered (l_env L) (l_peer L) (sm x)"
    and w: "\<forall>i m. waiting s' (l_peer L) i = Some m \<longrightarrow> i = eID e \<and> pc_envelope m = e \<or> waiting (sm x) (l_peer L) i = Some m"
    using send_effect [OF f(1) rd core len c e_def] tx unfolding good_text_def by metis+
  let ?x = "(act L s' x)\<lparr>typed := typed x @ [t], sent := sent x @ [e]\<rparr>"
  have "length (sent ?x) \<le> unat (sendCtr ses')" if "mlookup (sessions s') (l_peer L) = Some ses'" for ses'
    using ctr_grows [OF e(1) rd _ _ ses that] r sx ses by (simp add: sender_ok_def)
  moreover have "numbered_chat L (now_ms (l_env L) (tick s')) i (sent x ! i)" if "i < length (sent x)" for i
    using sx that posts_clock [OF f(1) e(1)] by (auto simp: sender_ok_def intro: numbered_later)
  then have "\<forall>i < length (sent ?x). numbered_chat L (now_ms (l_env L) (tick s')) i (sent ?x ! i)"
    using e(1,3,4) tx by (simp add: nth_append less_Suc_eq) (simp add: numbered_chat_def good_text_def posts_def)
  ultimately have "sender_ok L ?x" using e(5) by (simp add: sender_ok_def)
  moreover have "receiver_ok M D (sent ?x) (sm y) (es @ [e])"
    using rv in_turn_new [OF e(2)] in_turn_le unfolding receiver_ok_def by fastforce
  moreover have "answered L ?x (es @ [e]) fs"
    using an w unfolding answered_def by (fastforce simp: e(2))
  moreover have "acks_ok (es @ [e])" using ak by (auto simp: acks_ok_def e(2) message_type_defs)
  moreover have "chan L M ?x y (es @ [e])" using chan_post [OF ch e(1)] r by (simp add: chan_def)
  ultimately have "half L M D ?x y (es @ [e]) fs" using posts_ready [OF e(1) rd] by (simp add: half_def)
  moreover have "half M L D' y (act L s' x) fs (es @ [e])" by (rule half_other [OF h(2) e(1) rd]) (simp_all add: e(6-8))
  then have "half M L D' y ?x fs (es @ [e])" by (simp add: half_def chan_def receiver_ok_def)
  ultimately show ?thesis using f by (auto simp: joined_by_def e_def)
qed

subsection \<open>A line read\<close>

lemma accepted_ok:
  assumes "sm_ok s" and "ready L s"
  shows "sm_ok (accepted L c s)"
proof -
  obtain ses where "mlookup (sessions s) (l_peer L) = Some ses" using assms(2) by (auto simp: ready_def)
  then have "only_sends (l_peer L) s (accepted L c s)"
    using only_sends_trans [OF only_sends_session only_sends_ticked, of s "l_peer L" "fst (acceptCounter ses c)"]
    by (simp add: accepted_def)
  from sm_ok_same [OF assms(1) same_tables_sends [OF this]] show ?thesis .
qed

lemma sender_core_accepted:
  assumes s: "sender_core L x" and r: "ready L (sm x)" and f: "fit L"
  shows "sender_core L (x\<lparr>sm := accepted L c (sm x)\<rparr>)"
proof -
  have clk: "now_ms (l_env L) (tick (sm x)) \<le> now_ms (l_env L) (tick (accepted L c (sm x)))"
    using f by (intro now_ms_mono) (simp_all add: fit_def)
  then have "resendable L (x\<lparr>sm := accepted L c (sm x)\<rparr>) e" if "resendable L x e" for e
    using that by (rule_tac resendable_later) simp_all
  moreover have "\<forall>tl \<in> set (wire x). fst tl \<le> now_ms (l_env L) (tick (accepted L c (sm x)))"
    using s clk order_trans unfolding sender_core_def by blast
  ultimately show ?thesis using s accepted_ok [OF _ r] by (simp add: sender_core_def)
qed

text \<open>The two directions between the acceptance of a packet and the handling of its envelope.\<close>

lemma half_accepted:
  assumes h: "half L M D x y es fs" and f: "fit L"
    and ch: "chan L M (x\<lparr>sm := accepted L c (sm x)\<rparr>) (y\<lparr>wire := w\<rparr>) es"
  shows "half L M D (x\<lparr>sm := accepted L c (sm x)\<rparr>) (y\<lparr>wire := w\<rparr>) es fs"
proof -
  let ?s = "accepted L c (sm x)"
  have sx: "sender_ok L x" and rd: "ready L (sm x)" using h by (simp_all add: half_def)
  have clk: "now_ms (l_env L) (tick (sm x)) \<le> now_ms (l_env L) (tick ?s)" using f by (intro now_ms_mono) (simp_all add: fit_def)
  then have "\<forall>i < length (sent x). numbered_chat L (now_ms (l_env L) (tick ?s)) i (sent x ! i)"
    using sx by (auto simp: sender_ok_def intro: numbered_later)
  moreover obtain sa where sa: "mlookup (sessions (sm x)) (l_peer L) = Some sa" using rd by (auto simp: ready_def)
  moreover have "length (sent x) \<le> unat (sendCtr ses)" if "mlookup (sessions ?s) (l_peer L) = Some ses" for ses
    using sx sa accepted_session [OF sa, of c] that by (simp add: sender_ok_def acceptCounter_other_fields)
  moreover have "sender_core L (x\<lparr>sm := ?s\<rparr>)" using sx by (intro sender_core_accepted [OF _ rd f]) (simp add: sender_ok_def)
  ultimately have "sender_ok L (x\<lparr>sm := ?s\<rparr>)" by (simp add: sender_ok_def)
  moreover have "receiver_ok M D (sent x) (sm y) es" "answered L (x\<lparr>sm := ?s\<rparr>) es fs"
    using h by (simp_all add: half_def receiver_ok_def answered_def)
  ultimately show ?thesis using h ch ready_accepted [OF rd] by (simp add: half_def)
qed

lemma half_drop:
  assumes "half L M D x y es (f # fs)" and "\<And>i m. waiting (sm x) (l_peer L) i = Some m \<Longrightarrow> \<not> ack_for i f"
  shows "half L M D x y es fs"
proof -
  have "answered L x es fs"
    unfolding answered_def
  proof (intro allI impI)
    fix i m
    assume a: "waiting (sm x) (l_peer L) i = Some m"
    then have "(\<exists>e \<in> set es. eType e = TypeChat \<and> eID e = i) \<or> (\<exists>a \<in> set (f # fs). ack_for i a)"
      using assms(1) unfolding half_def answered_def by blast
    then show "(\<exists>e \<in> set es. eType e = TypeChat \<and> eID e = i) \<or> (\<exists>a \<in> set fs. ack_for i a)"
      using assms(2) [OF a] by simp
  qed
  then show ?thesis using assms(1) by (simp add: half_def)
qed

lemma half_popped:
  assumes h: "half M L D' y x (f # fs) es" and w: "wire y = l # w" and ch: "chan M L (y\<lparr>wire := w\<rparr>) x1 fs"
    and p: "posts L es' (sm x1) s'" "ready L (sm x1)" and rv: "receiver_ok L D' (sent y) s' fs"
    and an: "eType f = TypeChat \<Longrightarrow> \<exists>a \<in> set es'. ack_for (eID f) a"
  shows "half M L D' (y\<lparr>wire := w\<rparr>) (act L s' x1) fs (es @ es')"
proof -
  have "answered M (y\<lparr>wire := w\<rparr>) fs (es @ es')"
    unfolding answered_def
  proof (intro allI impI)
    fix i m
    assume "waiting (sm (y\<lparr>wire := w\<rparr>)) (l_peer M) i = Some m"
    then have "(\<exists>e \<in> set (f # fs). eType e = TypeChat \<and> eID e = i) \<or> (\<exists>a \<in> set es. ack_for i a)"
      using h unfolding half_def answered_def by simp
    then show "(\<exists>e \<in> set fs. eType e = TypeChat \<and> eID e = i) \<or> (\<exists>a \<in> set (es @ es'). ack_for i a)"
      using an by auto
  qed
  then show ?thesis
    using h w rv chan_other [OF ch p] by (simp add: half_def sender_ok_def sender_core_def acks_ok_def)
qed

text \<open>
  How much reading an envelope under way still causes: a message its own and that of its
  acknowledgement, a ping that of its answer.
\<close>

definition weight :: "Envelope \<Rightarrow> nat" where
  "weight e = (if eType e = TypeChat \<or> asks e then 2 else 1)"

definition load :: "Envelope list \<Rightarrow> nat" where
  "load es = sum_list (map weight es)"

lemma load_simps [simp]: "load [] = 0" "load (e # es) = weight e + load es" "load (es @ fs) = load es + load fs"
  by (simp_all add: load_def)

lemma weight_bounds: "1 \<le> weight e" "weight e \<le> 2"
  by (simp_all add: weight_def)

lemma load_bounds: "length es \<le> load es" "load es \<le> 2 * length es"
proof (induction es)
  case (Cons e es)
  case 1
  show ?case using Cons.IH weight_bounds [of e] by simp
  case 2
  show ?case using Cons.IH weight_bounds [of e] by simp
qed simp_all

lemma ack_weight: "ack_for i a \<Longrightarrow> weight a = 1"
  by (simp add: weight_def ack_for_def asks_def message_type_defs)

text \<open>
  What handling the next envelope \<open>f\<close> under way does, before the envelopes \<open>fs\<close>: the answers \<open>es'\<close> weigh
  less than \<open>f\<close>, a message is acknowledged, an acknowledgement removes its message.
\<close>

definition handled ::
  "link \<Rightarrow> string list \<Rightarrow> Envelope list \<Rightarrow> Envelope \<Rightarrow> Envelope list \<Rightarrow> stream_manager \<Rightarrow> stream_manager \<Rightarrow> Envelope list \<Rightarrow> bool"
where
  "handled L D xs f fs s s' es' \<longleftrightarrow>
     posts L es' s s' \<and> load es' < weight f \<and> acks_ok es' \<and> (\<forall>e \<in> set es'. eType e \<noteq> TypeChat) \<and>
     sendSeq s' = sendSeq s \<and> (\<forall>i m. waiting s' (l_peer L) i = Some m \<longrightarrow> waiting s (l_peer L) i = Some m \<and> \<not> ack_for i f) \<and>
     receiver_ok L D xs s' fs \<and> (eType f = TypeChat \<longrightarrow> (\<exists>a \<in> set es'. ack_for (eID f) a))"

lemma acknowledged:
  assumes "eType f = TypeChat" and a: "ack_for (eID f) a" "posts L [a] s s'" and "receiver_ok L D xs s' fs"
    and "sendSeq s' = sendSeq s" "pending s' = pending s"
  shows "handled L D xs f fs s s' [a]"
proof -
  have "\<not> ack_for j f" for j using assms(1) by (simp add: ack_for_def message_type_defs)
  moreover have "load [a] < weight f" "acks_ok [a]" "eType a \<noteq> TypeChat"
    using a(1) ack_weight [OF a(1)] assms(1) by (auto simp: weight_def acks_ok_def ack_for_def message_type_defs)
  ultimately show ?thesis using assms by (simp add: handled_def waiting_def)
qed

lemma handle_chat_in_turn:
  assumes f: "fit L" and rd: "ready L s" and fc: "facing L M" and ar: "arrives L M s f" and chat: "eType f = TypeChat"
    and rv: "receiver_ok L D xs s (f # fs)" and xs: "length xs < 2 ^ 64" "\<forall>i < length xs. numbered_chat M now i (xs ! i)"
  shows "\<exists>es'. handled L D xs f fs s (handleEnvelope (l_env L) (l_peer L) f s) es'"
proof -
  let ?s = "handleEnvelope (l_env L) (l_peer L) f s"
  obtain q where q: "mget 0 (recvSeq s) (l_peer L) = of_nat q" "in_turn xs q (f # fs)"
      "delivered (l_env L) (l_peer L) s = D @ map text_of (take q xs)" "mget [] (recvBuffer s) (l_peer L) = []"
    using rv by (auto simp: receiver_ok_def)
  obtain i where i: "i \<le> q" "i < length xs" "f = xs ! i" "in_turn xs (max q (Suc i)) fs" using q(2) chat by auto
  have nc: "eSequence f = of_nat (Suc i)" "unmarshal_chat (eBody f) = Some (text_of f)" "TrimSpace (text_of f) \<noteq> []"
    using xs(2) i(2,3) by (auto simp: numbered_chat_def numbered_text_def)
  have u: "unat (of_nat j :: u64) = j" if "j \<le> length xs" for j using that xs(1) unat_add_of_nat [of 0 j] by simp
  show ?thesis
  proof (cases "i < q")
    case True
    then have "Suc i \<le> length xs" "q \<le> length xs" using in_turn_le [OF q(2)] i(2) by simp_all
    then have "eSequence f \<le> mget 0 (recvSeq s) (l_peer L)" using nc(1) q(1) u True by (simp only: word_le_nat_alt)
    from handle_old_chat [OF f rd fc ar chat nc(2,3) this] obtain a where
      a: "ack_for (eID f) a" "posts L [a] s ?s" "kept L s ?s" by metis
    have turn: "in_turn xs q fs" using i(4) True by (simp add: max_absorb1)
    have "receiver_ok L D xs ?s fs" using a(3) q(1,3,4) turn unfolding receiver_ok_def kept_def by auto
    then show ?thesis using acknowledged [OF chat a(1,2)] a(3) by (auto simp: kept_def)
  next
    case False
    then have iq: "i = q" using i(1) by simp
    have "eSequence f = mget 0 (recvSeq s) (l_peer L) + 1" using nc(1) q(1) iq by (simp add: ac_simps)
    moreover have "mget 0 (recvSeq s) (l_peer L) < eSequence f"
      using nc(1) q(1) u i(2) iq by (simp only: word_less_nat_alt)
    ultimately obtain a where a: "ack_for (eID f) a" "posts L [a] s ?s"
        "delivered (l_env L) (l_peer L) ?s = delivered (l_env L) (l_peer L) s @ [text_of f]"
        "mget 0 (recvSeq ?s) (l_peer L) = mget 0 (recvSeq s) (l_peer L) + 1"
        "mget [] (recvBuffer ?s) (l_peer L) = []" "sendSeq ?s = sendSeq s" "pending ?s = pending s"
      using handle_next_chat [OF f rd fc ar chat nc(2,3) _ _ q(4)] by metis
    have "receiver_ok L D xs ?s fs"
      using a q i iq unfolding receiver_ok_def
      by (auto simp: max_def take_Suc_conv_app_nth ac_simps intro!: exI [of _ "Suc q"])
    then show ?thesis using acknowledged [OF chat a(1,2) _ a(6,7)] by blast
  qed
qed

lemma handle_in_turn:
  assumes f: "fit L" and rd: "ready L s" and fc: "facing L M" and ar: "arrives L M s f"
    and ak: "acks_ok (f # fs)" and rv: "receiver_ok L D xs s (f # fs)"
    and xs: "length xs < 2 ^ 64" "\<forall>i < length xs. numbered_chat M now i (xs ! i)"
  shows "\<exists>es'. handled L D xs f fs s (handleEnvelope (l_env L) (l_peer L) f s) es'"
proof -
  let ?s = "handleEnvelope (l_env L) (l_peer L) f s"
  obtain q where q: "mget 0 (recvSeq s) (l_peer L) = of_nat q" "in_turn xs q (f # fs)"
      "delivered (l_env L) (l_peer L) s = D @ map text_of (take q xs)" "mget [] (recvBuffer s) (l_peer L) = []"
    using rv by (auto simp: receiver_ok_def)
  consider (chat) "eType f = TypeChat" | (ack) "eType f = TypeAck" | (control) "eType f = TypeControl"
    using arrivesD(5) [OF ar] by auto
  then show ?thesis
  proof cases
    case chat
    then show ?thesis by (rule handle_chat_in_turn [OF f rd fc ar _ rv xs])
  next
    case ack
    then obtain i where i: "ack_for i f" using ak by (auto simp: acks_ok_def)
    have s: "?s = ackPending (l_peer L) i s" by (rule handle_ack [OF rd fc ar i])
    have "receiver_ok L D xs ?s fs" using q ack unfolding receiver_ok_def s by (auto simp: ackPending_kept message_type_defs)
    moreover have "\<not> ack_for j f" if "j \<noteq> i" for j using i that by (simp add: ack_for_def)
    ultimately have "handled L D xs f fs s ?s []"
      using ack ackPending_kept(1,2) weight_bounds(1) [of f]
      by (auto simp: handled_def s waiting_ackPending acks_ok_def message_type_defs split: if_splits)
    then show ?thesis ..
  next
    case control
    obtain es' where e: "posts L es' s ?s" "kept L s ?s" "length es' \<le> (if asks f then 1 else 0)"
        "\<forall>a \<in> set es'. eType a = TypeControl \<and> \<not> asks a"
      by (rule handle_control [OF f rd fc ar control])
    have "load es' < weight f" using e(3,4) by (cases es') (auto simp: weight_def message_type_defs split: if_splits)
    moreover have "receiver_ok L D xs ?s fs" using q control e(2) unfolding receiver_ok_def kept_def by (auto simp: message_type_defs)
    ultimately have "handled L D xs f fs s ?s es'"
      using e control by (auto simp: handled_def kept_def waiting_def acks_ok_def ack_for_def message_type_defs)
    then show ?thesis ..
  qed
qed

lemma read_joined_by:
  assumes n: "joined_by L M D D' (x, y) es fs0" and r: "room L 1 x" and w: "wire y = (t, l) # w"
    and t: "t \<le> now_ms (l_env L) (tick (sm x)) + 300000"
  obtains s' f fs es' where "readLoop_line (l_env L) (l_peer L) l (sm x) = Some s'" "fs0 = f # fs"
    "joined_by L M D D' (act L s' x, y\<lparr>wire := w\<rparr>) (es @ es') fs" "load es' < weight f"
proof -
  note result = that
  have h0: "half L M D x y es fs0" "half M L D' y x fs0 es" and fit: "fit L" "fit M" and fc: "facing L M"
    using n by (auto simp: joined_by_def)
  have "list_all2 (\<lambda>tl e. sound_envelope M (fst tl) e) (wire y) fs0" using h0(2) by (simp add: half_def chan_def)
  then obtain f fs where fs: "fs0 = f # fs" using w by (cases fs0) simp_all
  note h = h0 [unfolded fs]
  have ch: "chan M L y x (f # fs)" and ak: "acks_ok (f # fs)" and rv: "receiver_ok L D' (sent y) (sm x) (f # fs)"
    and xs: "\<forall>i < length (sent y). numbered_chat M (now_ms (l_env M) (tick (sm y))) i (sent y ! i)"
    using h(2) by (simp_all add: half_def sender_ok_def sender_core_def)
  obtain c where c: "readLoop_line (l_env L) (l_peer L) l (sm x)
        = Some (handleEnvelope (l_env L) (l_peer L) f (accepted L c (sm x)))"
      "arrives L M (accepted L c (sm x)) f" "chan M L (y\<lparr>wire := w\<rparr>) (x\<lparr>sm := accepted L c (sm x)\<rparr>) fs"
      "chan L M (x\<lparr>sm := accepted L c (sm x)\<rparr>) (y\<lparr>wire := w\<rparr>) es"
      "room L 1 (x\<lparr>sm := accepted L c (sm x)\<rparr>)"
    by (rule chan_accept [OF ch w fit(1) fc t]) (use h(1) r in \<open>simp add: half_def\<close>)
  let ?s = "accepted L c (sm x)"
  let ?x = "x\<lparr>sm := ?s\<rparr>" and ?y = "y\<lparr>wire := w\<rparr>"
  let ?s' = "handleEnvelope (l_env L) (l_peer L) f ?s"
  note h1 = half_accepted [OF h(1) fit(1) c(4)]
  have rd: "ready L (sm ?x)" and ok: "sm_ok ?s" using sm_ok_ready [OF h1] by simp_all
  have "receiver_ok L D' (sent y) ?s (f # fs)" using rv by (simp add: receiver_ok_def accepted_delivered)
  moreover have "ready L ?s" using rd by simp
  ultimately have "\<exists>es'. handled L D' (sent y) f fs ?s ?s' es'"
    by (intro handle_in_turn [OF fit(1) _ fc c(2) ak _ half_sent_size [OF h(2)] xs])
  then obtain es' where e: "posts L es' ?s ?s'" "load es' < weight f" "acks_ok es'" "\<forall>e \<in> set es'. eType e \<noteq> TypeChat"
      "sendSeq ?s' = sendSeq ?s" "receiver_ok L D' (sent y) ?s' fs" "eType f = TypeChat \<longrightarrow> (\<exists>a \<in> set es'. ack_for (eID f) a)"
    and wt: "\<forall>i m. waiting ?s' (l_peer L) i = Some m \<longrightarrow> waiting ?s (l_peer L) i = Some m \<and> \<not> ack_for i f"
    unfolding handled_def by blast
  have one: "length es' \<le> 1" using e(2) load_bounds(1) [of es'] weight_bounds(2) [of f] by simp
  have "half L M D (act L ?s' ?x) ?y (es @ es') (f # fs)"
    using e(4,5) wt one handleEnvelope_ok [OF ok]
    by (intro half_own [OF h1 fit(1) _ c(5) one _ e(3)]) (simp_all add: e(1))
  then have "half L M D (act L ?s' ?x) ?y (es @ es') fs" by (rule half_drop) (use wt in simp)
  moreover have "half M L D' ?y (act L ?s' ?x) fs (es @ es')"
    using e by (intro half_popped [OF h(2) w c(3) _ rd]) simp_all
  ultimately have "joined_by L M D D' (act L ?s' x, ?y) (es @ es') fs"
    using fit fc unfolding act_accepted by (simp add: joined_by_def)
  with c(1) show thesis using e(2) fs by (intro result) simp_all
qed

section \<open>Runs\<close>

lemma side_step_joined: "side_step L n n' \<Longrightarrow> good_texts n' \<Longrightarrow> joined L M D D' n \<Longrightarrow> joined L M D D' n'"
proof (induction rule: side_step.induct)
  case (send x t s' r y)
  then have "good_text t" by (simp add: good_texts_def)
  then show ?case using send send_joined unfolding joined_def by blast
next
  case control
  then show ?case using control_joined unfolding joined_def by blast
next
  case collect
  then show ?case using collect_joined unfolding joined_def by blast
next
  case send_again
  then show ?case using send_again_joined unfolding joined_def by blast
next
  case (read x y t l w s')
  then obtain es fs where "joined_by L M D D' (x, y) es fs" by (auto simp: joined_def)
  from read_joined_by [OF this read.hyps(1-3)] show ?case using read.hyps(4) unfolding joined_def by (metis option.inject)
next
  case other_peers
  then show ?case using other_joined unfolding joined_def by blast
next
  case idle
  then show ?case using idle_joined unfolding joined_def by blast
qed

lemma net_step_joined: "net_step L M n n' \<Longrightarrow> good_texts n' \<Longrightarrow> joined L M D D' n \<Longrightarrow> joined L M D D' n'"
proof (induction rule: net_step.induct)
  case (right n n')
  then have "joined M L D' D (prod.swap n')"
    using side_step_joined [OF right.hyps _ joined_swap] by simp
  from joined_swap [OF this] show ?case by simp
qed (rule side_step_joined)

text \<open>The invariant of the runs on which all texts are good.\<close>

interpretation net_run: run_invariant "net_step L M" "\<lambda>n. good_texts n \<longrightarrow> joined L M D D' n" for L M D D'
  by unfold_locales (blast intro: net_step_joined net_step_texts)

text \<open>The start: a fresh connection, on whose wires at most control messages (the nicknames) are under way.\<close>

definition side_start :: "link \<Rightarrow> link \<Rightarrow> side \<Rightarrow> side \<Rightarrow> bool" where
  "side_start L M x y \<longleftrightarrow>
     ready L (sm x) \<and> sm_ok (sm x) \<and> typed x = [] \<and> sent x = [] \<and> snd (todo x) = [] \<and>
     mget 0 (sendSeq (sm x)) (l_peer L) = 0 \<and> mget 0 (recvSeq (sm x)) (l_peer L) = 0 \<and>
     mget [] (recvBuffer (sm x)) (l_peer L) = [] \<and> (\<forall>i. waiting (sm x) (l_peer L) i = None) \<and>
     (\<forall>tl \<in> set (wire x). fst tl \<le> now_ms (l_env L) (tick (sm x))) \<and>
     (\<exists>es. chan L M x y es \<and> (\<forall>e \<in> set es. eType e = TypeControl))"

definition net_start :: "link \<Rightarrow> link \<Rightarrow> side \<times> side \<Rightarrow> bool" where
  "net_start L M n \<longleftrightarrow>
     fit L \<and> fit M \<and> facing L M \<and> side_start L M (fst n) (snd n) \<and> side_start M L (snd n) (fst n)"

text \<open>What the user of \<open>M\<close>'s side saw from the other one.\<close>

definition seen :: "link \<Rightarrow> side \<Rightarrow> string list" where
  "seen M y = delivered (l_env M) (l_peer M) (sm y)"

lemma half_start:
  assumes "side_start L M x y" and "side_start M L y x" and "chan L M x y es" and "\<forall>e \<in> set es. eType e = TypeControl"
  shows "half L M (seen M y) x y es fs"
proof -
  have "in_turn [] 0 ([] @ es)" using assms(4) by (subst in_turn_other) (auto simp: message_type_defs)
  then have "receiver_ok M (seen M y) (sent x) (sm y) es"
    using assms(1,2) unfolding receiver_ok_def by (auto simp: side_start_def seen_def intro!: exI [of _ 0])
  then show ?thesis
    using assms by (auto simp: half_def side_start_def sender_ok_def sender_core_def answered_def acks_ok_def message_type_defs)
qed

lemma start_joined: "net_start L M n \<Longrightarrow> joined L M (seen M (snd n)) (seen L (fst n)) n"
  unfolding net_start_def joined_def joined_by_def by (metis half_start side_start_def)

text \<open>What the invariant says to the users.\<close>

definition nothing_waits :: "link \<Rightarrow> side \<Rightarrow> bool" where
  "nothing_waits L x \<longleftrightarrow> (\<forall>i. waiting (sm x) (l_peer L) i = None)"

lemma joined_view:
  assumes "joined L M D D' n"
  shows "\<exists>k. seen M (snd n) = D @ map to_valid (take k (typed (fst n)))"
    "wire (fst n) = [] \<Longrightarrow> wire (snd n) = [] \<Longrightarrow>
      seen M (snd n) = D @ map to_valid (typed (fst n)) \<and> nothing_waits L (fst n)"
proof -
  obtain es fs where h: "half L M D (fst n) (snd n) es fs" "half M L D' (snd n) (fst n) fs es"
    using assms by (auto simp: joined_def joined_by_def)
  obtain r where r: "in_turn (sent (fst n)) r es" "seen M (snd n) = D @ map text_of (take r (sent (fst n)))"
    using h(1) by (auto simp: half_def receiver_ok_def seen_def)
  have texts: "map text_of (sent (fst n)) = map to_valid (typed (fst n))" using h(1) by (simp add: half_def sender_ok_def sender_core_def)
  then have "map text_of (take r (sent (fst n))) = map to_valid (take r (typed (fst n)))" by (metis take_map)
  then show "\<exists>k. seen M (snd n) = D @ map to_valid (take k (typed (fst n)))" using r(2) by metis
  assume "wire (fst n) = []" "wire (snd n) = []"
  then have "es = []" "fs = []" using h by (simp_all add: half_def chan_def)
  then show "seen M (snd n) = D @ map to_valid (typed (fst n)) \<and> nothing_waits L (fst n)"
    using r texts h(1) by (auto simp: half_def answered_def nothing_waits_def)
qed

section \<open>Progress\<close>

text \<open>The clocks of the two sides are never apart by more than five minutes for good.\<close>

definition clock_follows :: "env \<Rightarrow> env \<Rightarrow> bool" where
  "clock_follows E E' \<longleftrightarrow> (\<forall>t t'. \<exists>k. now_ms E t \<le> now_ms E' (t' + k) + 300000)"

lemma net_read_swap: "net_read L M n n' \<Longrightarrow> net_read M L (prod.swap n) (prod.swap n')"
  by (induction rule: net_read.induct) (auto intro: net_read.intros)

lemma net_reads_swap: "(net_read L M)\<^sup>*\<^sup>* n n' \<Longrightarrow> (net_read M L)\<^sup>*\<^sup>* (prod.swap n) (prod.swap n')"
  by (induction rule: rtranclp_induct) (auto intro: rtranclp.rtrancl_into_rtrancl net_read_swap)

lemma wait:
  assumes "joined_by L M D D' (x, y) es fs"
  shows "(net_read L M)\<^sup>*\<^sup>* (x, y) (x\<lparr>sm := (sm x)\<lparr>tick := tick (sm x) + k\<rparr>\<rparr>, y) \<and>
    joined_by L M D D' (x\<lparr>sm := (sm x)\<lparr>tick := tick (sm x) + k\<rparr>\<rparr>, y) es fs"
proof (induction k)
  case 0
  then show ?case using assms by simp
next
  case (Suc k)
  let ?x = "x\<lparr>sm := (sm x)\<lparr>tick := tick (sm x) + k\<rparr>\<rparr>"
  have x: "?x\<lparr>sm := ticked (sm ?x)\<rparr> = x\<lparr>sm := (sm x)\<lparr>tick := tick (sm x) + Suc k\<rparr>\<rparr>" by (simp add: ticked_def)
  have "net_read L M (?x, y) (?x\<lparr>sm := ticked (sm ?x)\<rparr>, y)" by (rule net_read.left [OF side_read.idle])
  moreover have "joined_by L M D D' (?x\<lparr>sm := ticked (sm ?x)\<rparr>, y) es fs" using Suc idle_joined by blast
  ultimately show ?case using Suc rtranclp.rtrancl_into_rtrancl unfolding x by metis
qed

lemma joined_ctr:
  assumes "joined_by L M D D' n es fs"
  obtains sa sb where "mlookup (sessions (sm (fst n))) (l_peer L) = Some sa" "mlookup (sessions (sm (snd n))) (l_peer M) = Some sb"
    "unat (sendCtr sa) = unat (recvMax sb) + length es"
  using assms unat_add_of_nat by (auto simp: joined_by_def half_def elim!: chanE)

text \<open>One side reads the next line, waiting for its clock where necessary.\<close>

lemma read_next:
  assumes j: "joined_by L M D D' (x, y) es fs" and ne: "fs \<noteq> []" and clk: "clock_follows (l_env M) (l_env L)"
    and r: "room L (load es + load fs) x" "room M (load es + load fs) y"
  obtains x' y' es' fs' where "(net_read L M)\<^sup>*\<^sup>* (x, y) (x', y')" "joined_by L M D D' (x', y') es' fs'"
    "load es' + load fs' < load es + load fs" "typed x' = typed x" "typed y' = typed y"
    "room L (load es' + load fs') x'" "room M (load es' + load fs') y'"
proof -
  have "list_all2 (\<lambda>tl e. sound_envelope M (fst tl) e) (wire y) fs" and stamps: "\<forall>tl \<in> set (wire y). fst tl \<le> now_ms (l_env M) (tick (sm y))"
    using j by (auto simp: joined_by_def half_def chan_def sender_ok_def sender_core_def)
  then obtain t l w where w: "wire y = (t, l) # w" using ne by (cases "wire y") auto
  then have "t \<le> now_ms (l_env M) (tick (sm y))" using stamps by simp
  moreover obtain k where "now_ms (l_env M) (tick (sm y)) \<le> now_ms (l_env L) (tick (sm x) + k) + 300000"
    using clk unfolding clock_follows_def by blast
  ultimately have t: "t \<le> now_ms (l_env L) (tick (sm x) + k) + 300000" by simp
  let ?x = "x\<lparr>sm := (sm x)\<lparr>tick := tick (sm x) + k\<rparr>\<rparr>"
  have run: "(net_read L M)\<^sup>*\<^sup>* (x, y) (?x, y)" and j1: "joined_by L M D D' (?x, y) es fs" using wait [OF j] by simp_all
  have "1 \<le> load fs" using ne load_bounds(1) [of fs] by (cases fs) simp_all
  then have room: "room L 1 ?x" using r(1) by (auto simp: room_def split: option.splits)
  have t2: "t \<le> now_ms (l_env L) (tick (sm ?x)) + 300000" using t by simp
  obtain s' f gs es' where
    s': "readLoop_line (l_env L) (l_peer L) l (sm ?x) = Some s'" "fs = f # gs"
      "joined_by L M D D' (act L s' ?x, y\<lparr>wire := w\<rparr>) (es @ es') gs" "load es' < weight f"
    by (rule read_joined_by [OF j1 room w t2])
  have step: "net_read L M (?x, y) (act L s' ?x, y\<lparr>wire := w\<rparr>)"
    by (rule net_read.left [OF side_read.read [OF room w t2 s'(1)]])
  have small: "2 * load es' \<le> weight f" using s'(4) weight_bounds(2) [of f] by simp
  obtain sa sb where sa: "mlookup (sessions (sm x)) (l_peer L) = Some sa" "mlookup (sessions (sm y)) (l_peer M) = Some sb"
      "unat (sendCtr sa) = unat (recvMax sb) + length es"
    using joined_ctr [OF j] by auto
  obtain sa' where sa': "mlookup (sessions s') (l_peer L) = Some sa'" "unat (sendCtr sa') = unat (recvMax sb) + length (es @ es')"
    using joined_ctr [OF s'(3)] sa(2) by auto
  have "room L (load (es @ es') + load gs) (act L s' ?x)"
    using r(1) sa sa' small load_bounds(1) [of es'] s'(2) by (simp add: room_def)
  moreover have "room M (load (es @ es') + load gs) (y\<lparr>wire := w\<rparr>)" using r(2) sa(2) s'(2,4) by (simp add: room_def)
  ultimately show thesis
    using s'(2-4) rtranclp.rtrancl_into_rtrancl [OF run step]
    by (intro that [of "act L s' ?x" "y\<lparr>wire := w\<rparr>" "es @ es'" gs]) simp_all
qed

text \<open>Reading on, the two sides come to rest.\<close>

lemma comes_to_rest:
  assumes "joined_by L M D D' n es fs" "clock_follows (l_env M) (l_env L)" "clock_follows (l_env L) (l_env M)"
    "room L (load es + load fs) (fst n)" "room M (load es + load fs) (snd n)"
  shows "\<exists>n'. (net_read L M)\<^sup>*\<^sup>* n n' \<and> joined L M D D' n' \<and> wire (fst n') = [] \<and> wire (snd n') = [] \<and>
    typed (fst n') = typed (fst n) \<and> typed (snd n') = typed (snd n)"
  using assms
proof (induction "load es + load fs" arbitrary: n es fs rule: less_induct)
  case less
  obtain x y where n: "n = (x, y)" by (cases n)
  have more: ?case if "(net_read L M)\<^sup>*\<^sup>* n n1" "joined_by L M D D' n1 es1 fs1" "load es1 + load fs1 < load es + load fs"
      "typed (fst n1) = typed (fst n)" "typed (snd n1) = typed (snd n)"
      "room L (load es1 + load fs1) (fst n1)" "room M (load es1 + load fs1) (snd n1)" for n1 es1 fs1
    using less.hyps [OF that(3,2) less.prems(2,3) that(6,7)] that(1,4,5) by (metis rtranclp_trans)
  show ?case
  proof (cases "fs = []")
    case False
    from read_next [OF less.prems(1) [unfolded n] this less.prems(2)] less.prems(4,5) show ?thesis
      using more unfolding n by (metis fst_conv snd_conv)
  next
    case fs: True
    show ?thesis
    proof (cases "es = []")
      case False
      have "joined_by M L D' D (y, x) fs es" using joined_by_swap [OF less.prems(1)] n by simp
      from read_next [OF this False less.prems(3)] less.prems(4,5) obtain x' y' es' fs' where
        r: "(net_read M L)\<^sup>*\<^sup>* (y, x) (y', x')" "joined_by M L D' D (y', x') fs' es'" "load es' + load fs' < load es + load fs"
          "typed x' = typed x" "typed y' = typed y" "room L (load es' + load fs') x'" "room M (load es' + load fs') y'"
        unfolding n by (metis add.commute fst_conv snd_conv)
      show ?thesis
        using more [of "(x', y')" es' fs'] net_reads_swap [OF r(1)] joined_by_swap [OF r(2)] r(3-7) n by simp
    next
      case True
      then have "wire (fst n) = []" "wire (snd n) = []" using fs less.prems(1) by (simp_all add: joined_by_def half_def chan_def)
      then show ?thesis using less.prems(1) unfolding joined_def by blast
    qed
  qed
qed

text \<open>Both directions in a state reached from the start of a connection.\<close>

lemma start_run:
  assumes "net_start L M n0" and "(net_step L M)\<^sup>*\<^sup>* n0 n" and "good_texts n"
  shows "joined L M (seen M (snd n0)) (seen L (fst n0)) n"
  using net_run.run_good [OF assms(2)] start_joined [OF assms(1)] assms(3) by blast

lemma start_view:
  assumes "net_start L M n0" and "(net_step L M)\<^sup>*\<^sup>* n0 n" and "good_texts n"
  shows "(\<exists>k. seen M (snd n) = seen M (snd n0) @ map to_valid (take k (typed (fst n)))) \<and>
    (\<exists>k. seen L (fst n) = seen L (fst n0) @ map to_valid (take k (typed (snd n)))) \<and>
    (wire (fst n) = [] \<and> wire (snd n) = [] \<longrightarrow>
       seen M (snd n) = seen M (snd n0) @ map to_valid (typed (fst n)) \<and>
       seen L (fst n) = seen L (fst n0) @ map to_valid (typed (snd n)) \<and>
       nothing_waits L (fst n) \<and> nothing_waits M (snd n))"
proof -
  have "joined L M (seen M (snd n0)) (seen L (fst n0)) n" by (rule start_run [OF assms])
  from joined_view [OF this] joined_view [OF joined_swap [OF this]] show ?thesis by simp
qed

text \<open>The same for the end of a run: reading on completes the conversation.\<close>

lemma run_completes:
  assumes "net_start L M n0" and "(net_step L M)\<^sup>*\<^sup>* n0 n" and "good_texts n"
    and "clock_follows (l_env L) (l_env M)" and "clock_follows (l_env M) (l_env L)"
    and "room L (2 * (length (wire (fst n)) + length (wire (snd n)))) (fst n)"
    and "room M (2 * (length (wire (fst n)) + length (wire (snd n)))) (snd n)"
  shows "\<exists>n'. (net_read L M)\<^sup>*\<^sup>* n n' \<and> wire (fst n') = [] \<and> wire (snd n') = [] \<and>
    typed (fst n') = typed (fst n) \<and> typed (snd n') = typed (snd n) \<and>
    seen M (snd n') = seen M (snd n0) @ map to_valid (typed (fst n)) \<and>
    seen L (fst n') = seen L (fst n0) @ map to_valid (typed (snd n)) \<and>
    nothing_waits L (fst n') \<and> nothing_waits M (snd n')"
proof -
  let ?D = "seen M (snd n0)" and ?D' = "seen L (fst n0)"
  obtain es fs where j: "joined_by L M ?D ?D' n es fs"
    using start_run [OF assms(1-3)] by (auto simp: joined_def)
  then have "length (wire (fst n)) = length es" "length (wire (snd n)) = length fs"
    by (auto simp: joined_by_def half_def chan_def dest!: list_all2_lengthD)
  then have "load es + load fs \<le> 2 * (length (wire (fst n)) + length (wire (snd n)))"
    using load_bounds(2) [of es] load_bounds(2) [of fs] by simp
  then have "room L (load es + load fs) (fst n)" "room M (load es + load fs) (snd n)"
    using assms(6,7) by (auto simp: room_def split: option.splits)
  from comes_to_rest [OF j assms(5,4) this] obtain n' where n': "(net_read L M)\<^sup>*\<^sup>* n n'" "joined L M ?D ?D' n'"
      "wire (fst n') = []" "wire (snd n') = []" "typed (fst n') = typed (fst n)" "typed (snd n') = typed (snd n)" by blast
  from joined_view(2) [OF n'(2)] joined_view(2) [OF joined_swap [OF n'(2)]] n' show ?thesis
    by (intro exI [of _ n']) simp
qed

section \<open>Properties\<close>

text \<open>
  C3. Delivery over a connection under any interleaving: start from a fresh connection (the
  nicknames may be under way) and let the two nodes send, collect and send again, read, deal with
  other peers and let time pass in any order. On every run on which no call of the two nodes fails
  (\<open>fit\<close>: random bytes, writes and clock), a line is read by a clock not more than five minutes behind
  the writer's, and every text typed is good (not blank, and small enough for an envelope: a blank or
  too long text uses up a number that is never delivered and so blocks its direction, see
  \<open>blank_message_blocks\<close> and \<open>attacker_cannot_alter\<close>): what each user has seen from the other is a
  beginning of what the other one typed, in order, each text once and unchanged (up to the
  replacement of invalid UTF-8), however often a message was sent again; and whenever nothing is
  under way, everything typed has been seen and no message waits for an acknowledgement.
\<close>

theorem network_delivers_in_order:
  assumes "net_start L M n0" and "(net_step L M)\<^sup>*\<^sup>* n0 n"
    and "\<forall>t \<in> set (typed (fst n)) \<union> set (typed (snd n)). good_text t"
  shows "(\<exists>k. seen M (snd n) = seen M (snd n0) @ map to_valid (take k (typed (fst n)))) \<and>
    (\<exists>k. seen L (fst n) = seen L (fst n0) @ map to_valid (take k (typed (snd n)))) \<and>
    (wire (fst n) = [] \<and> wire (snd n) = [] \<longrightarrow>
       seen M (snd n) = seen M (snd n0) @ map to_valid (typed (fst n)) \<and>
       seen L (fst n) = seen L (fst n0) @ map to_valid (typed (snd n)) \<and>
       nothing_waits L (fst n) \<and> nothing_waits M (snd n))"
  using start_view [OF assms(1,2)] assms(3) by (simp add: good_texts_def)

text \<open>
  C6. The conversation completes: from every state that can be reached from a fresh connection with
  good texts typed (as in the property before, with calls that do not fail), if each clock catches up
  with the other to within five minutes and the packet counters have room for what is under way and
  its acknowledgements, the nodes can go on, by reading alone (\<open>net_read\<close>: lines are read, and time
  passes), to a state where nothing is under way, each user has seen everything the other typed, and
  nothing waits for an acknowledgement.
\<close>

theorem network_completes:
  assumes "net_start L M n0" and "(net_step L M)\<^sup>*\<^sup>* n0 n"
    and "\<forall>t \<in> set (typed (fst n)) \<union> set (typed (snd n)). good_text t"
    and "clock_follows (l_env L) (l_env M)" and "clock_follows (l_env M) (l_env L)"
    and "room L (2 * (length (wire (fst n)) + length (wire (snd n)))) (fst n)"
    and "room M (2 * (length (wire (fst n)) + length (wire (snd n)))) (snd n)"
  shows "\<exists>n'. (net_read L M)\<^sup>*\<^sup>* n n' \<and> wire (fst n') = [] \<and> wire (snd n') = [] \<and>
    typed (fst n') = typed (fst n) \<and> typed (snd n') = typed (snd n) \<and>
    seen M (snd n') = seen M (snd n0) @ map to_valid (typed (fst n)) \<and>
    seen L (fst n') = seen L (fst n0) @ map to_valid (typed (snd n)) \<and>
    nothing_waits L (fst n') \<and> nothing_waits M (snd n')"
  using run_completes [OF assms(1,2) _ assms(4-7)] assms(3) by (simp add: good_texts_def)

text \<open>The example nodes on a quiet connection, and the state after one message was typed.\<close>

definition link_A :: link where "link_A = \<lparr>l_env = still_env, l_self = ''A'', l_peer = ''B'', l_stream = 1\<rparr>"
definition link_B :: link where "link_B = \<lparr>l_env = still_env, l_self = ''B'', l_peer = ''A'', l_stream = 1\<rparr>"

definition new_side :: "stream_manager \<Rightarrow> side" where
  "new_side s = \<lparr>sm = s, wire = [], todo = (0, []), typed = [], sent = []\<rparr>"

lemma demo_fit: "fit link_A" "fit link_B"
  using demo_linked by (simp_all add: fit_def linked_def link_A_def link_B_def)
    (simp_all add: still_env_def demo_env_def good_name_def to_valid_ascii)

lemma demo_owns: "owns (l_peer link_A) (l_stream link_A) demo_A" "owns (l_peer link_B) (l_stream link_B) demo_B"
  by (auto simp: owns_def demo_A_def demo_B_def link_A_def link_B_def newStreamManager_def mlookup_def split: if_splits)

lemma demo_nodes_ok: "sm_ok demo_A" "sm_ok demo_B"
  using newStreamManager_ok [of "Some ''A''"] newStreamManager_ok [of "Some ''B''"]
  by (simp_all add: sm_ok_def conn_ok_def recv_ok_def recv_idle_def pend_ok_def demo_A_def demo_B_def newStreamManager_def
      gomap_ok_def mlookup_def dom_def)

lemma demo_start: "net_start link_A link_B (new_side demo_A, new_side demo_B)"
  using demo_fit demo_nodes_ok
  using demo_owns
  by (auto simp: net_start_def facing_def side_start_def ready_def chan_def new_side_def link_A_def link_B_def waiting_def gomap_simps)
    (simp_all add: demo_A_def demo_B_def newStreamManager_def mlookup_def gomap_simps demo_session_defs)

lemma demo_sends:
  obtains x' ses where "side_step link_A (new_side demo_A, new_side demo_B) (x', new_side demo_B)" "typed x' = [''hi'']"
    "room link_A 2 x'" "room link_B 2 (new_side demo_B)" "length (wire x') = 1"
    "mlookup (sessions (sm x')) (l_peer link_A) = Some ses" "sendAEAD ses = Some ''k1''"
proof -
  let ?x = "new_side demo_A" and ?y = "new_side demo_B"
  have g: "good_text ''hi''" by (simp add: good_text_ok graphic_def)
  have rd: "ready link_A demo_A" and q: "mget 0 (sendSeq demo_A) (l_peer link_A) + 1 \<noteq> 0"
    and ses: "mlookup (sessions demo_A) (l_peer link_A) = Some low_session" "sendAEAD low_session = Some ''k1''"
      "mlookup (sessions demo_B) (l_peer link_B) = Some high_session"
    by (simp_all add: ready_def demo_owns(1)) (simp_all add: ready_def link_A_def link_B_def demo_A_def demo_B_def newStreamManager_def mlookup_def gomap_simps demo_session_defs)
  obtain e s' where e: "sendChat (l_env link_A) (l_peer link_A) ''hi'' demo_A = (s', Inr e)" "posts link_A [e] demo_A s'"
    by (rule sendChat_posts [OF demo_fit(1) rd q]) (rule conjunct2 [OF g [unfolded good_text_def]])
  have "room link_A 1 ?x" by (simp add: room_def new_side_def ses(1)) (simp add: demo_session_defs)
  then have "side_step link_A (?x, ?y) ((act link_A s' ?x)\<lparr>typed := typed ?x @ [''hi''], sent := sent ?x @ [e]\<rparr>, ?y)"
    using side_step.send [of link_A ?x "''hi''" s' "Inr e" ?y] e(1) by (simp add: new_side_def)
  moreover have "mlookup (sessions s') (l_peer link_A) = Some (low_session\<lparr>sendCtr := sendCtr low_session + 1\<rparr>)"
    using e(2) ses(1,2) by (simp add: posts_def)
  ultimately show thesis
    using posts_new_lines [OF e(2) ses(1,2)] ses
    by (intro that [of "(act link_A s' ?x)\<lparr>typed := typed ?x @ [''hi''], sent := sent ?x @ [e]\<rparr>" "low_session\<lparr>sendCtr := sendCtr low_session + 1\<rparr>"])
      (simp_all add: new_side_def room_def act_def, simp_all add: demo_session_defs)
qed

lemma hi_good: "good_text ''hi''"
  by (simp add: good_text_ok graphic_def)

lemma demo_typed:
  obtains n where "net_step link_A link_B (new_side demo_A, new_side demo_B) n" "typed (fst n) = [''hi'']" "typed (snd n) = []"
    "room link_A 2 (fst n)" "room link_B 2 (snd n)" "length (wire (fst n)) = 1" "wire (snd n) = []"
proof -
  obtain x' ses where "side_step link_A (new_side demo_A, new_side demo_B) (x', new_side demo_B)" "typed x' = [''hi'']"
    "room link_A 2 x'" "room link_B 2 (new_side demo_B)" "length (wire x') = 1"
    "mlookup (sessions (sm x')) (l_peer link_A) = Some ses" "sendAEAD ses = Some ''k1''"
    by (rule demo_sends)
  then show thesis by (intro that [of "(x', new_side demo_B)"] net_step.left) (simp_all add: new_side_def)
qed

theorem network_delivers_in_order_witness:
  "\<exists>n. (net_step link_A link_B)\<^sup>*\<^sup>* (new_side demo_A, new_side demo_B) n \<and> typed (fst n) = [''hi''] \<and>
     (\<exists>k. seen link_B (snd n) = take k [''hi''])"
proof -
  obtain n where n: "net_step link_A link_B (new_side demo_A, new_side demo_B) n" "typed (fst n) = [''hi'']" "typed (snd n) = []"
    by (rule demo_typed)
  then have run: "(net_step link_A link_B)\<^sup>*\<^sup>* (new_side demo_A, new_side demo_B) n" by blast
  have "seen link_B (new_side demo_B) = []"
    by (simp add: seen_def new_side_def delivered_def demo_B_def newStreamManager_def)
  with network_delivers_in_order [OF demo_start run] n(2,3) hi_good obtain k where "seen link_B (snd n) = map to_valid (take k [''hi''])"
    by auto
  moreover have "map to_valid (take k [''hi'']) = take k [''hi'']" by (cases k) (simp_all add: to_valid_ascii)
  ultimately show ?thesis using run n(2) by (intro exI [of _ n]) auto
qed

theorem network_completes_witness:
  "\<exists>n n'. (net_step link_A link_B)\<^sup>*\<^sup>* (new_side demo_A, new_side demo_B) n \<and> length (wire (fst n)) = 1 \<and>
     (net_read link_A link_B)\<^sup>*\<^sup>* n n' \<and> seen link_B (snd n') = [''hi''] \<and> nothing_waits link_A (fst n')"
proof -
  obtain n where n: "net_step link_A link_B (new_side demo_A, new_side demo_B) n" "typed (fst n) = [''hi'']" "typed (snd n) = []"
    "room link_A 2 (fst n)" "room link_B 2 (snd n)" "length (wire (fst n)) = 1" "wire (snd n) = []"
    by (rule demo_typed)
  then have run: "(net_step link_A link_B)\<^sup>*\<^sup>* (new_side demo_A, new_side demo_B) n" by blast
  have "clock_follows still_env still_env" by (simp add: clock_follows_def still_env_def now_ms_def)
  then have "clock_follows (l_env link_A) (l_env link_B)" "clock_follows (l_env link_B) (l_env link_A)"
    by (simp_all add: link_A_def link_B_def)
  from network_completes [OF demo_start run _ this] n hi_good obtain n' where
    "(net_read link_A link_B)\<^sup>*\<^sup>* n n'" "seen link_B (snd n') = seen link_B (new_side demo_B) @ map to_valid [''hi'']"
    "nothing_waits link_A (fst n')" by auto
  moreover have "seen link_B (new_side demo_B) = []"
    by (simp add: seen_def new_side_def delivered_def demo_B_def newStreamManager_def)
  ultimately show ?thesis using run n(6) by (intro exI [of _ n] exI [of _ n']) (simp add: to_valid_ascii)
qed

end
