(* ===== verification/Session_Start.thy ===== *)
theory Session_Start
  imports Network_Delivery
begin

text \<open>
  From two unconnected nodes to a conversation: \<open>AddStream\<close> on both ends, each reading what the
  other's handshake writes, is a start of the network of two nodes, so everything said about runs of
  the network holds for connections set up by the program itself.
\<close>

section \<open>One end\<close>

text \<open>The side after \<open>AddStream\<close>: the lines written after the handshake are under way.\<close>

definition hello :: "link \<Rightarrow> conn \<Rightarrow> bytes" where
  "hello L c = fst (Handshake (kex (l_env L)) (c_flush c) (c_random c) (c_privkey c) (c_pubkey c) (c_input c))"

definition opened :: "link \<Rightarrow> conn \<Rightarrow> stream_manager \<Rightarrow> side" where
  "opened L c s =
     (let s' = AddStream (l_env L) c s
      in \<lparr>sm = s',
          wire = map (Pair (now_ms (l_env L) (tick s')))
                   (new_lines (l_stream L) (emit (Wire (c_stream c) (hello L c)) s) s'),
          todo = (0, []), typed = [], sent = []\<rparr>)"

text \<open>What the theorem asks of an end before the connection.\<close>

definition can_open :: "link \<Rightarrow> conn \<Rightarrow> stream_manager \<Rightarrow> bool" where
  "can_open L c s \<longleftrightarrow>
     fit L \<and> sm_ok s \<and> node s = Some (l_self L) \<and> c_peer c = l_peer L \<and> c_stream c = l_stream L \<and>
     owns (l_peer L) (l_stream L) s \<and> (\<forall>i. waiting s (l_peer L) i = None) \<and>
     good_control (control_zero\<lparr>cbKind := controlNickname, cbName := localNick s\<rparr>)"

lemma send_nickname_posts:
  assumes "fit L" and "ready L s" and "good_control (control_zero\<lparr>cbKind := controlNickname, cbName := localNick s\<rparr>)"
  obtains es where "posts L es s (send_nickname (l_env L) (l_peer L) s)" "kept L s (send_nickname (l_env L) (l_peer L) s)"
    "\<forall>e \<in> set es. eType e = TypeControl" "length es \<le> 1"
proof (cases "localNick s = []")
  case True
  then show thesis using silent_refl [of L s] by (intro that [of "[]"]) (simp_all add: send_nickname_def silent_def)
next
  case False
  obtain e s' where e: "sendControl (l_env L) (l_peer L) (control_zero\<lparr>cbKind := controlNickname, cbName := localNick s\<rparr>) s = (s', None)"
      "eType e = TypeControl" "posts L [e] s s'" "kept L s s'"
    by (rule sendControl_posts [OF assms])
  then show thesis using False by (intro that [of "[e]"]) (simp_all add: send_nickname_def)
qed

text \<open>After the session is registered, at most the nickname is written, and the tables stay.\<close>

lemma AddStream_posts:
  assumes c: "can_open L c s"
    and hs: "Handshake (kex (l_env L)) (c_flush c) (c_random c) (c_privkey c) (c_pubkey c) (c_input c) = (hi, Inr (ses, rest))"
    and k: "sendAEAD ses = Some k"
  defines "s1 \<equiv> register (l_peer L) (l_stream L) ses (emit (Wire (l_stream L) hi) s)"
  obtains es where "ready L s1" "posts L es s1 (AddStream (l_env L) c s)" "kept L s1 (AddStream (l_env L) c s)"
    "\<forall>e \<in> set es. eType e = TypeControl" "length es \<le> 1"
proof -
  let ?E = "l_env L" and ?p = "l_peer L"
  have l: "node s = Some (l_self L)" "c_peer c = ?p" "c_stream c = l_stream L" and f: "fit L" and h: "healthy ?E"
    using c by (simp_all add: can_open_def fit_def)
  have "owns ?p (l_stream L) s1" using c by (simp add: can_open_def s1_def owns_def register_def gomap_simps emit_def)
  then have r1: "ready L s1" using l k by (simp add: ready_def) (simp add: s1_def register_def emit_def gomap_simps)
  have e: "posts L [] t (emit ev t)" "kept L t (emit ev t)" if "written (l_stream L) ev = []" "incoming ?E ?p ev = []" for t ev
    using that by (auto intro!: posts_quiet simp: lines_emit kept_def delivered_emit; simp add: emit_def)+
  let ?s2 = "emit (StartReader (l_stream L) rest) s1"
  have p2: "posts L [] s1 ?s2" "kept L s1 ?s2" by (intro e; simp add: written_def incoming_def)+
  have nick: "localNick ?s2 = localNick s" by (simp add: s1_def emit_def register_def)
  obtain es where es: "posts L es ?s2 (send_nickname ?E ?p ?s2)" "kept L ?s2 (send_nickname ?E ?p ?s2)"
      "\<forall>e \<in> set es. eType e = TypeControl" "length es \<le> 1"
    by (rule send_nickname_posts [OF f posts_ready [OF p2(1) r1]]) (use c nick in \<open>simp add: can_open_def\<close>)
  let ?s3 = "emit (Web NotifyWebPeerUpdate) (send_nickname ?E ?p ?s2)"
  have p3: "posts L es s1 ?s3" "kept L s1 ?s3"
    using posts_trans [OF h posts_trans [OF h p2(1) es(1)] posts_console(2)] kept_trans [OF p2(2) es(2)] silent_step(2)
    by (simp_all add: silent_def) (blast intro: kept_trans)
  let ?s4 = "emit (SendHistory (peer_String ?E ?p)) ?s3"
  have "posts L [] ?s3 ?s4" "kept L ?s3 ?s4" by (intro e; simp add: written_def incoming_def)+
  then have p4: "posts L es s1 ?s4" "kept L s1 ?s4" using posts_trans [OF h p3(1)] kept_trans [OF p3(2)] by fastforce+
  have "AddStream ?E c s = (if hasHistory ?s3 then ?s4 else ?s3)"
    using l hs by (simp add: AddStream_def s1_def Let_def)
  then show thesis using p3 p4 es(3,4) r1 by (intro that [of es]) simp_all
qed

section \<open>Both ends\<close>

lemma mirrored_sym: "mirrored s t \<Longrightarrow> mirrored t s"
  unfolding mirrored_def by metis

text \<open>One direction of the new connection.\<close>

lemma opened_start:
  assumes c: "can_open L c s" "can_open M d t" and m: "mirrored sa sb"
    and hs: "Handshake (kex (l_env L)) (c_flush c) (c_random c) (c_privkey c) (c_pubkey c) (c_input c) = (hi, Inr (sa, rest))"
      "Handshake (kex (l_env M)) (c_flush d) (c_random d) (c_privkey d) (c_pubkey d) (c_input d) = (hi', Inr (sb, rest'))"
  shows "side_start L M (opened L c s) (opened M d t)"
    "seen L (opened L c s) = delivered (l_env L) (l_peer L) s"
    "length (wire (opened L c s)) \<le> 1" "j + 1 < 2 ^ 64 \<Longrightarrow> room L j (opened L c s)"
proof -
  obtain k k' where k: "sendAEAD sa = Some k" "recvAEAD sb = Some k" "sendAEAD sb = Some k'"
    using m unfolding mirrored_def by (metis not_None_eq)
  let ?s1 = "register (l_peer L) (l_stream L) sa (emit (Wire (l_stream L) hi) s)"
  let ?t1 = "register (l_peer M) (l_stream M) sb (emit (Wire (l_stream M) hi') t)"
  let ?s = "AddStream (l_env L) c s" and ?t = "AddStream (l_env M) d t"
  obtain es where es: "ready L ?s1" "posts L es ?s1 ?s" "kept L ?s1 ?s" "\<forall>e \<in> set es. eType e = TypeControl" "length es \<le> 1"
    by (rule AddStream_posts [OF c(1) hs(1) k(1)])
  obtain fs where fs: "posts M fs ?t1 ?t" by (rule AddStream_posts [OF c(2) hs(2) k(3)])
  have ses: "mlookup (sessions ?s1) (l_peer L) = Some sa" "mlookup (sessions ?t1) (l_peer M) = Some sb"
    by (simp_all add: register_def gomap_simps)
  have st: "c_stream c = l_stream L" and w: "\<forall>i. waiting s (l_peer L) i = None" using c(1) by (simp_all add: can_open_def)
  have "lines_on (l_stream L) ?s1 = lines_on (l_stream L) (emit (Wire (c_stream c) (hello L c)) s)"
    using hs(1) st by (simp add: hello_def lines_on_def register_def)
  then have nl: "new_lines (l_stream L) (emit (Wire (c_stream c) (hello L c)) s) ?s = packets (aead (l_env L)) k (sendDir sa) 0 es"
    using posts_new_lines [OF es(2) ses(1) k(1)] m by (simp add: new_lines_def mirrored_def)
  have "\<forall>e \<in> set es. sound_envelope L (now_ms (l_env L) (tick ?s)) e" using es(2) by (simp add: posts_def)
  then have la: "list_all2 (\<lambda>tl e. sound_envelope L (fst tl) e) (wire (opened L c s)) es"
    by (simp add: opened_def Let_def nl list_all2_conv_all_nth)
  then show "length (wire (opened L c s)) \<le> 1" using es(5) by (auto dest: list_all2_lengthD)
  moreover have ctr: "mlookup (sessions ?s) (l_peer L) = Some (sa\<lparr>sendCtr := of_nat (length es)\<rparr>)"
    "mlookup (sessions ?t) (l_peer M) = Some (sb\<lparr>sendCtr := of_nat (length fs)\<rparr>)"
    using es(2) fs ses k m by (simp_all add: posts_def mirrored_def)
  ultimately have "chan L M (opened L c s) (opened M d t) es"
    using k m es(5) la
    by (intro chanI [where sa = "sa\<lparr>sendCtr := of_nat (length es)\<rparr>" and sb = "sb\<lparr>sendCtr := of_nat (length fs)\<rparr>" and k = k])
      (simp_all add: opened_def Let_def nl comp_def mirrored_def)
  moreover have "unat (of_nat (length es) :: u64) \<le> 1" using es(5) by (cases es) simp_all
  then show "room L j (opened L c s)" if "j + 1 < 2 ^ 64" using that ctr(1) by (simp add: room_def opened_def Let_def)
  moreover have "sm_ok ?s" using AddStream_ok c(1) by (simp add: can_open_def)
  moreover have "pending ?s = pending s" "sendSeq ?s = sendSeq ?s1" "recvSeq ?s = recvSeq ?s1" "recvBuffer ?s = recvBuffer ?s1"
    using es(3) by (simp_all add: kept_def) (simp add: register_def emit_def)
  ultimately show "side_start L M (opened L c s) (opened M d t)"
    using es(4) posts_ready [OF es(2,1)] w
    by (auto simp: side_start_def opened_def Let_def register_def gomap_simps waiting_def)
  have "delivered (l_env L) (l_peer L) ?s1 = delivered (l_env L) (l_peer L) s"
    by (simp add: delivered_def register_def emit_def incoming_def)
  then show "seen L (opened L c s) = delivered (l_env L) (l_peer L) s"
    using es(3) by (simp add: seen_def opened_def Let_def kept_def)
qed

text \<open>A first message over the new connection, typed and then read.\<close>

lemma first_message:
  assumes st: "net_start L M (x, y)" and t: "good_text t" and w: "length (wire x) \<le> 1" "length (wire y) \<le> 1"
    and r: "room L 7 x" "room M 7 y" and clk: "clock_follows (l_env L) (l_env M)" "clock_follows (l_env M) (l_env L)"
  obtains n where "(net_step L M)\<^sup>*\<^sup>* (x, y) n" "typed (fst n) = [t]" "typed (snd n) = []" "wire (fst n) = []" "wire (snd n) = []"
proof -
  have f: "fit L" and rd: "ready L (sm x)" and q: "mget 0 (sendSeq (sm x)) (l_peer L) + 1 \<noteq> 0" "typed x = []" "typed y = []"
    using st by (simp_all add: net_start_def side_start_def)
  obtain ses k where ses: "mlookup (sessions (sm x)) (l_peer L) = Some ses" "sendAEAD ses = Some k"
    using rd by (auto simp: ready_def)
  obtain e s' where e: "sendChat (l_env L) (l_peer L) t (sm x) = (s', Inr e)" "posts L [e] (sm x) s'"
    by (rule sendChat_posts [OF f rd q(1) conjunct2 [OF t [unfolded good_text_def]]])
  let ?x = "(act L s' x)\<lparr>typed := typed x @ [t], sent := sent x @ [e]\<rparr>"
  have one: "room L 1 x" using r(1) ses(1) by (simp add: room_def)
  have "net_step L M (x, y) (?x, y)" using side_step.send [OF one e(1), of y] by (intro net_step.left) simp
  then have run: "(net_step L M)\<^sup>*\<^sup>* (x, y) (?x, y)" by blast
  have len: "length (wire ?x) \<le> 2" using w(1) posts_new_lines [OF e(2) ses] by (simp add: act_def)
  have "mlookup (sessions s') (l_peer L) = Some (ses\<lparr>sendCtr := sendCtr ses + 1\<rparr>)" using e(2) ses by (simp add: posts_def)
  moreover have "unat (sendCtr ses + 1) = unat (sendCtr ses) + 1" using r(1) ses(1) by (intro unat_succ) (simp add: room_def)
  ultimately have "room L 6 ?x" using r(1) ses(1) by (simp add: room_def)
  then have rooms: "room L (2 * (length (wire ?x) + length (wire y))) ?x" "room M (2 * (length (wire ?x) + length (wire y))) y"
    using r(2) len w(2) by (auto simp: room_def split: option.splits)
  have g: "good_texts (?x, y)" using t q by (simp add: good_texts_def)
  from run_completes [OF st run g clk, unfolded fst_conv snd_conv, OF rooms] obtain n where n: "(net_read L M)\<^sup>*\<^sup>* (?x, y) n"
      "wire (fst n) = []" "wire (snd n) = []" "typed (fst n) = typed ?x" "typed (snd n) = typed y" by metis
  from rtranclp_trans [OF run net_reads_run [OF n(1)]] show thesis using n(2-5) q by (intro that [of n]) simp_all
qed

section \<open>Properties\<close>

text \<open>
  C1. From the handshake to the last message: let two nodes open a connection to each other
  (\<open>AddStream\<close> on both ends) with honest keys, each reading what the other's handshake writes. Both
  handshakes complete, the result is a fresh connection (at most the nicknames under way, the packet
  counters at their start), and in every state the two nodes reach from
  it, by sending, sending again, reading, dealing with other peers and waiting in any order, on which
  every text typed is good (not blank, and small enough for an envelope), each user has seen, beyond
  what came before, a beginning of what the other typed, in order and once, and all of it when nothing
  is under way. As in \<open>network_delivers_in_order\<close>, no call of the two nodes fails, and a line is read
  by a clock not more than five minutes behind the writer's.
\<close>

theorem connection_delivers:
  assumes K: "kex_correct K" "kex (l_env L) = K" "kex (l_env M) = K"
    and e: "X25519 K ra (Basepoint K) = Inr A" "X25519 K rb (Basepoint K) = Inr B" "A \<noteq> B"
    and sh: "X25519 K ra B = Inr shared"
    and id: "Raw K (GetPublic K skA) = Inr idA" "Raw K (GetPublic K skB) = Inr idB"
    and sg: "\<And>m. \<exists>sig. Sign K skA m = Inr sig" "\<And>m. \<exists>sig. Sign K skB m = Inr sig"
    and c: "can_open L c s" "c_flush c = (\<lambda>_. True)" "c_random c = Inr ra" "c_privkey c = Some skA" "c_pubkey c = Some (GetPublic K skB)"
    and d: "can_open M d t" "c_flush d = (\<lambda>_. True)" "c_random d = Inr rb" "c_privkey d = Some skB" "c_pubkey d = Some (GetPublic K skA)"
    and f: "facing L M"
  shows "\<exists>inA inB. hello L (c\<lparr>c_input := inA\<rparr>) = inB \<and> hello M (d\<lparr>c_input := inB\<rparr>) = inA \<and>
    net_start L M (opened L (c\<lparr>c_input := inA\<rparr>) s, opened M (d\<lparr>c_input := inB\<rparr>) t) \<and>
    length (wire (opened L (c\<lparr>c_input := inA\<rparr>) s)) \<le> 1 \<and> length (wire (opened M (d\<lparr>c_input := inB\<rparr>) t)) \<le> 1 \<and>
    (\<forall>k < 2 ^ 64 - 1. room L k (opened L (c\<lparr>c_input := inA\<rparr>) s) \<and> room M k (opened M (d\<lparr>c_input := inB\<rparr>) t)) \<and>
    (\<forall>n. (net_step L M)\<^sup>*\<^sup>* (opened L (c\<lparr>c_input := inA\<rparr>) s, opened M (d\<lparr>c_input := inB\<rparr>) t) n \<longrightarrow>
       (\<forall>t \<in> set (typed (fst n)) \<union> set (typed (snd n)). good_text t) \<longrightarrow>
       (\<exists>k. seen M (snd n) = delivered (l_env M) (l_peer M) t @ map to_valid (take k (typed (fst n)))) \<and>
       (\<exists>k. seen L (fst n) = delivered (l_env L) (l_peer L) s @ map to_valid (take k (typed (snd n)))) \<and>
       (wire (fst n) = [] \<and> wire (snd n) = [] \<longrightarrow>
          seen M (snd n) = delivered (l_env M) (l_peer M) t @ map to_valid (typed (fst n)) \<and>
          seen L (fst n) = delivered (l_env L) (l_peer L) s @ map to_valid (typed (snd n)) \<and>
          nothing_waits L (fst n) \<and> nothing_waits M (snd n)))"
proof -
  from Handshake_pair [OF K(1) e sh id sg, of "[]" "[]"] obtain outA outB sA sB where
    h: "Handshake K (\<lambda>_. True) (Inr ra) (Some skA) (Some (GetPublic K skB)) outB = (outA, Inr (sA, []))"
      "Handshake K (\<lambda>_. True) (Inr rb) (Some skB) (Some (GetPublic K skA)) outA = (outB, Inr (sB, []))"
    and m: "mirrored sA sB" by auto
  let ?c = "c\<lparr>c_input := outB\<rparr>" and ?d = "d\<lparr>c_input := outA\<rparr>"
  have co: "can_open L ?c s" "can_open M ?d t" using c(1) d(1) by (simp_all add: can_open_def)
  have hL: "Handshake (kex (l_env L)) (c_flush ?c) (c_random ?c) (c_privkey ?c) (c_pubkey ?c) (c_input ?c) = (outA, Inr (sA, []))"
    and hM: "Handshake (kex (l_env M)) (c_flush ?d) (c_random ?d) (c_privkey ?d) (c_pubkey ?d) (c_input ?d) = (outB, Inr (sB, []))"
    using h c d K(2,3) by simp_all
  have "hello L ?c = outA" "hello M ?d = outB" by (simp_all only: hello_def hL hM fst_conv)
  moreover note l = opened_start [OF co m hL hM] and r = opened_start [OF co(2,1) mirrored_sym [OF m] hM hL]
  then have start: "net_start L M (opened L ?c s, opened M ?d t)" using c(1) d(1) f by (simp add: net_start_def can_open_def)
  moreover note start_view [OF start]
  ultimately show ?thesis using l(2-4) r(2-4) by (intro exI [of _ outB] exI [of _ outA]) (simp add: good_texts_def)
qed

text \<open>Alice and Bob on the example keys.\<close>

lemma nickname_good: "length n \<le> 1000 \<Longrightarrow> good_control (control_zero\<lparr>cbKind := controlNickname, cbName := n\<rparr>)"
  using member_bound [of "''name''" "json_quote n"] member_bound [of "''kind''" "json_quote controlNickname"]
    json_quote_length [of controlNickname] json_quote_length [of n]
    json_sum [of "[(''kind'', json_quote controlNickname), (''name'', json_quote n)]"]
    json_sum [of "[(''kind'', json_quote controlNickname)]"]
  by (simp add: good_control_def marshal_control_def control_zero_def omitempty_def) (simp add: controlNickname_def)

definition alice :: stream_manager where
  "alice = (newStreamManager (Some ''A''))\<lparr>localNick := ''alice''\<rparr>"

definition bob :: stream_manager where
  "bob = (newStreamManager (Some ''B''))\<lparr>localNick := ''bob''\<rparr>"

definition alice_conn :: conn where
  "alice_conn = \<lparr>c_stream = 1, c_peer = ''B'', c_privkey = Some ''alice'', c_pubkey = Some (GetPublic toy_kex ''bob''),
     c_random = Inr ''a'', c_flush = (\<lambda>_. True), c_input = []\<rparr>"

definition bob_conn :: conn where
  "bob_conn = \<lparr>c_stream = 1, c_peer = ''A'', c_privkey = Some ''bob'', c_pubkey = Some (GetPublic toy_kex ''alice''),
     c_random = Inr ''b'', c_flush = (\<lambda>_. True), c_input = []\<rparr>"

lemma demo_can_open: "can_open link_A alice_conn alice" "can_open link_B bob_conn bob"
  using demo_fit newStreamManager_ok [of "Some ''A''"] newStreamManager_ok [of "Some ''B''"]
    nickname_good [of "''alice''"] nickname_good [of "''bob''"]
  by (auto simp: can_open_def alice_def bob_def sm_ok_fields owns_def)
    (simp_all add: link_A_def link_B_def alice_conn_def bob_conn_def newStreamManager_def waiting_def gomap_simps)

theorem connection_delivers_witness:
  "\<exists>inA inB n. (net_step link_A link_B)\<^sup>*\<^sup>*
       (opened link_A (alice_conn\<lparr>c_input := inA\<rparr>) alice, opened link_B (bob_conn\<lparr>c_input := inB\<rparr>) bob) n \<and>
     typed (fst n) = [''hi''] \<and> seen link_B (snd n) = [''hi''] \<and> nothing_waits link_A (fst n)"
proof -
  have "kex (l_env link_A) = toy_kex" "kex (l_env link_B) = toy_kex" "facing link_A link_B"
    by (simp_all add: link_A_def link_B_def still_env_def demo_env_def facing_def)
  note kf = this
  have c: "c_flush alice_conn = (\<lambda>_. True)" "c_random alice_conn = Inr ''a''" "c_privkey alice_conn = Some ''alice''"
      "c_pubkey alice_conn = Some (GetPublic toy_kex ''bob'')"
    and d: "c_flush bob_conn = (\<lambda>_. True)" "c_random bob_conn = Inr ''b''" "c_privkey bob_conn = Some ''bob''"
      "c_pubkey bob_conn = Some (GetPublic toy_kex ''alice'')"
    by (simp_all add: alice_conn_def bob_conn_def)
  from connection_delivers [OF toy_kex_correct kf(1,2) toy_handshake_hyps demo_can_open(1) c demo_can_open(2) d kf(3)]
  obtain inA inB where
    s: "net_start link_A link_B (opened link_A (alice_conn\<lparr>c_input := inA\<rparr>) alice, opened link_B (bob_conn\<lparr>c_input := inB\<rparr>) bob)"
      "length (wire (opened link_A (alice_conn\<lparr>c_input := inA\<rparr>) alice)) \<le> 1"
      "length (wire (opened link_B (bob_conn\<lparr>c_input := inB\<rparr>) bob)) \<le> 1"
      "room link_A 7 (opened link_A (alice_conn\<lparr>c_input := inA\<rparr>) alice)"
      "room link_B 7 (opened link_B (bob_conn\<lparr>c_input := inB\<rparr>) bob)"
    and v: "\<And>n. (net_step link_A link_B)\<^sup>*\<^sup>* (opened link_A (alice_conn\<lparr>c_input := inA\<rparr>) alice,
        opened link_B (bob_conn\<lparr>c_input := inB\<rparr>) bob) n \<Longrightarrow>
      \<forall>t \<in> set (typed (fst n)) \<union> set (typed (snd n)). good_text t \<Longrightarrow> wire (fst n) = [] \<Longrightarrow> wire (snd n) = [] \<Longrightarrow>
      seen link_B (snd n) = delivered (l_env link_B) (l_peer link_B) bob @ map to_valid (typed (fst n)) \<and> nothing_waits link_A (fst n)"
    by (fastforce simp: order_less_imp_le)
  have clk: "clock_follows (l_env link_A) (l_env link_B)" "clock_follows (l_env link_B) (l_env link_A)"
    by (simp_all add: link_A_def link_B_def clock_follows_def still_env_def now_ms_def)
  obtain n where n: "(net_step link_A link_B)\<^sup>*\<^sup>* (opened link_A (alice_conn\<lparr>c_input := inA\<rparr>) alice,
        opened link_B (bob_conn\<lparr>c_input := inB\<rparr>) bob) n" "typed (fst n) = [''hi'']" "typed (snd n) = []"
      "wire (fst n) = []" "wire (snd n) = []"
    by (rule first_message [OF s(1) hi_good s(2-5) clk])
  have "delivered (l_env link_B) (l_peer link_B) bob = []" by (simp add: delivered_def bob_def newStreamManager_def)
  then have "seen link_B (snd n) = [''hi'']" "nothing_waits link_A (fst n)"
    using v [OF n(1) _ n(4,5)] n(2,3) hi_good by (simp_all add: to_valid_ascii)
  then show ?thesis using n(1,2) by blast
qed

end
