(* ===== verification/Attacker.thy ===== *)
theory Attacker
  imports Network_Delivery
begin

text \<open>
  The two nodes on a network in the hands of an attacker, who loses, delays, reorders, repeats and
  makes up lines at will. What is assumed is the authenticity of the cipher: a line that opens under
  the receive key opens to the plaintext of a packet the other side wrote. The theorem says that the
  attacker cannot make a user see anything but a beginning of what the other one typed.
\<close>

section \<open>The attacker\<close>

text \<open>The wire of a side is here the record of all it has written.\<close>

definition genuine :: "link \<Rightarrow> side \<Rightarrow> link \<Rightarrow> side \<Rightarrow> string \<Rightarrow> bool" where
  "genuine L x M y l \<longleftrightarrow>
     (\<forall>ses peer k m. mlookup (sessions (sm x)) (l_peer L) = Some ses \<longrightarrow>
        mlookup (sessions (sm y)) (l_peer M) = Some peer \<longrightarrow> sendAEAD peer = Some k \<longrightarrow>
        snd (Decrypt (aead (l_env L)) ses (TrimSpace l)) = Inr m \<longrightarrow>
        (\<exists>t c. (t, sealed_packet (aead (l_env M)) k (sendDir peer) c m @ [CHR 0x0A]) \<in> set (wire y)))"

text \<open>
  A side does something of its own, or the attacker hands it a line: any line the cipher does not
  open, and any packet of the other side, at any time and any number of times.
\<close>

inductive attack_side :: "link \<Rightarrow> link \<Rightarrow> side \<times> side \<Rightarrow> side \<times> side \<Rightarrow> bool" for L M where
  own: "side_step L (x, y) (x', y) \<Longrightarrow> length (typed x') < 2 ^ 64 \<Longrightarrow> attack_side L M (x, y) (x', y)"
| handed: "genuine L x M y l \<Longrightarrow> readLoop_line (l_env L) (l_peer L) l (sm x) = Some s' \<Longrightarrow>
    attack_side L M (x, y) (act L s' x, y)"

inductive attack_step :: "link \<Rightarrow> link \<Rightarrow> side \<times> side \<Rightarrow> side \<times> side \<Rightarrow> bool" for L M where
  left: "attack_side L M n n' \<Longrightarrow> attack_step L M n n'"
| right: "attack_side M L (prod.swap n) (prod.swap n') \<Longrightarrow> attack_step L M n n'"

section \<open>What a node writes\<close>

text \<open>Steps that write no chat message: answers to what arrived.\<close>

definition replies :: "link \<Rightarrow> stream_manager \<Rightarrow> stream_manager \<Rightarrow> bool" where
  "replies L s s' \<longleftrightarrow> (\<exists>es. posts L es s s' \<and> (\<forall>e \<in> set es. eType e \<noteq> TypeChat))"

lemma replies_trans: "healthy (l_env L) \<Longrightarrow> replies L s s' \<Longrightarrow> replies L s' s'' \<Longrightarrow> replies L s s''"
  unfolding replies_def using posts_trans by (metis Un_iff set_append)

lemma replies_quiet: "posts L [] s s' \<Longrightarrow> replies L s s'"
  unfolding replies_def by (intro exI [of _ "[]"]) simp

lemma replies_ready: "replies L s s' \<Longrightarrow> ready L s \<Longrightarrow> ready L s'"
  unfolding replies_def using posts_ready by blast

lemma sendAck_replies:
  assumes f: "fit L" and r: "ready L s"
  shows "replies L s (fst (sendAck (l_env L) (l_peer L) i s))"
proof (cases "length (ackBody i) \<le> 49152")
  case True
  have b: "good_body (ackBody i)" using True settled_chatBody(2) by (intro good_bodyI) simp_all
  have "newAckEnvelope (l_env L) (l_peer L) i = build_envelope (l_env L) (l_peer L) TypeAck 0 (ackBody i)"
    by (rule ext) (simp add: newAckEnvelope_def)
  from sendBuilt_posts [OF f r _ b this] obtain e s' where
    "sendBuilt (l_env L) (l_peer L) (newAckEnvelope (l_env L) (l_peer L) i) s = (s', None)" "eType e = TypeAck" "posts L [e] s s'"
    by blast
  then show ?thesis by (auto simp: sendAck_def replies_def message_type_defs intro!: exI [of _ "[e]"])
next
  case False
  obtain raw where "rand_read (l_env L) (tick s) 16 = Some raw" using f unfolding fit_def healthy_def by metis
  then have "\<exists>err. newAckEnvelope (l_env L) (l_peer L) i s = (ticked (ticked s), Inl err)"
    using False r by (auto simp: newAckEnvelope_def build_envelope_def newEnvelope_def NewID_def Let_def ready_def
        Validate_def MaxBodySize_def split: option.split)
  then have "fst (sendAck (l_env L) (l_peer L) i s) = ticked (ticked s)"
    using r by (auto simp: sendAck_def sendBuilt_def ready_def)
  moreover have "posts L [] s (ticked (ticked s))"
    using posts_trans [OF _ posts_ticked posts_ticked, of L s] f by (simp add: fit_def)
  ultimately show ?thesis by (simp add: replies_quiet)
qed

lemma ack_or_print_replies:
  assumes "fit L" and "ready L s"
  shows "replies L s (ack_or_print (l_env L) (l_peer L) i s)"
proof -
  obtain s' r where s: "sendAck (l_env L) (l_peer L) i s = (s', r)" by (cases "sendAck (l_env L) (l_peer L) i s")
  then have "replies L s s'" using sendAck_replies [OF assms, of i] by simp
  then show ?thesis
    using s replies_trans [OF _ _ replies_quiet [OF posts_console(1)]] assms(1)
    by (cases r) (auto simp: ack_or_print_def fit_def)
qed

lemma deliver_quiet: "posts L [] s (deliverChat E p t s)"
  by (rule posts_quiet; simp add: deliverChat_def Let_def split_def lines_emit; simp add: emit_def ticked_def lines_on_def)

lemma recv_tables_quiet:
  "posts L [] s (s\<lparr>recvSeq := a\<rparr>)" "posts L [] s (s\<lparr>recvBuffer := b\<rparr>)" "posts L [] s (s\<lparr>recvBuffer := b, recvSeq := a\<rparr>)"
  by (rule posts_quiet; simp add: lines_on_def)+

lemma drain_step_replies:
  assumes f: "fit L" and r: "ready L s" and d: "drain_step (l_env L) (l_peer L) s = Some s'"
  shows "replies L s s'"
proof -
  have h: "healthy (l_env L)" using f by (simp add: fit_def)
  let ?n = "mget 0 (recvSeq s) (l_peer L) + 1"
  let ?s = "s\<lparr>recvBuffer := mput (l_peer L) (mdel ?n (mget [] (recvBuffer s) (l_peer L))) (recvBuffer s),
    recvSeq := mput (l_peer L) ?n (recvSeq s)\<rparr>"
  have 1: "replies L s ?s" by (rule replies_quiet [OF recv_tables_quiet(3)])
  have 2: "replies L s (emit (Console c) ?s)" for c
    by (rule replies_trans [OF h 1 replies_quiet [OF posts_console(1)]])
  have 3: "replies L s (deliverChat (l_env L) (l_peer L) t ?s)" for t
    by (rule replies_trans [OF h 1 replies_quiet [OF deliver_quiet]])
  have 4: "replies L s (ack_or_print (l_env L) (l_peer L) i (deliverChat (l_env L) (l_peer L) t ?s))" for i t
    by (rule replies_trans [OF h 3 ack_or_print_replies [OF f replies_ready [OF 3 r]]])
  from d obtain e where e: "mlookup (mget [] (recvBuffer s) (l_peer L)) ?n = Some e"
    by (auto simp: drain_step_def Let_def split: option.splits)
  show ?thesis
  proof (cases "unmarshal_chat (eBody e)")
    case None
    then show ?thesis using d e 2 by (auto simp: drain_step_def Let_def)
  next
    case (Some t)
    then show ?thesis using d e 1 4 by (cases "TrimSpace t = []") (auto simp: drain_step_def Let_def)
  qed
qed

lemma drain_replies:
  assumes "fit L" and "E = l_env L" and "p = l_peer L" and "ready L s"
  shows "replies L s (drainReceiveBuffer E p s)"
  using assms
proof (induction E p s rule: drainReceiveBuffer.induct)
  case (1 E p s)
  show ?case
  proof (cases "drain_step E p s")
    case None
    then show ?thesis by (subst drainReceiveBuffer.simps) (simp add: replies_quiet posts_def)
  next
    case (Some s')
    then have 2: "replies L s s'" using drain_step_replies 1 by simp
    then have "replies L s' (drainReceiveBuffer E p s')" using 1 Some replies_ready by blast
    then have "replies L s (drainReceiveBuffer E p s')" using replies_trans [OF _ 2] 1 by (simp add: fit_def)
    then show ?thesis using Some by (subst drainReceiveBuffer.simps) simp
  qed
qed

lemma handleChat_replies:
  assumes f: "fit L" and r: "ready L s"
  shows "replies L s (handleChat (l_env L) (l_peer L) e t s)"
proof -
  have h: "healthy (l_env L)" using f by (simp add: fit_def)
  note tr = replies_trans [OF h]
  have q: "replies L s (s\<lparr>recvSeq := a\<rparr>)" "replies L s (s\<lparr>recvBuffer := b\<rparr>)" "replies L s (s\<lparr>recvBuffer := b, recvBuffer := c\<rparr>)" for a b c
    by (rule replies_quiet, rule recv_tables_quiet)+ (simp add: replies_quiet recv_tables_quiet)
  have early: "replies L s (fst (sendAck (l_env L) (l_peer L) i s1))" "replies L s (emit (Console c) s1)" if "replies L s s1" for i c s1
    using tr [OF that sendAck_replies [OF f replies_ready [OF that r]]] tr [OF that replies_quiet [OF posts_console(1)]] by blast+
  have d: "replies L s (deliverChat (l_env L) (l_peer L) t (s\<lparr>recvSeq := a\<rparr>))" for a
    by (rule tr [OF q(1) replies_quiet [OF deliver_quiet]])
  have a: "replies L s (ack_or_print (l_env L) (l_peer L) i (deliverChat (l_env L) (l_peer L) t (s\<lparr>recvSeq := a\<rparr>)))" for i a
    by (rule tr [OF d ack_or_print_replies [OF f replies_ready [OF d r]]])
  have fin: "replies L s (drainReceiveBuffer (l_env L) (l_peer L)
      (ack_or_print (l_env L) (l_peer L) i (deliverChat (l_env L) (l_peer L) t (s\<lparr>recvSeq := a\<rparr>))))" for i a
    by (rule tr [OF a drain_replies [OF f refl refl replies_ready [OF a r]]])
  have "replies L s s" by (simp add: replies_quiet posts_def)
  then show ?thesis
    using early q fin by (auto simp: handleChat_def Let_def)
qed

section \<open>The invariant of one party\<close>

text \<open>Everything a side has written is a sound envelope, and every chat message is one its user typed.\<close>

definition own_envelope :: "link \<Rightarrow> Envelope list \<Rightarrow> Envelope \<Rightarrow> bool" where
  "own_envelope L xs e \<longleftrightarrow> (\<exists>t. sound_envelope L t e) \<and> (eType e = TypeChat \<longrightarrow> e \<in> set xs)"

definition logged :: "link \<Rightarrow> Envelope list \<Rightarrow> stream_manager \<Rightarrow> (int \<times> string) list \<Rightarrow> bool" where
  "logged L xs s w \<longleftrightarrow>
     (\<forall>ses k. mlookup (sessions s) (l_peer L) = Some ses \<longrightarrow> sendAEAD ses = Some k \<longrightarrow>
        (\<forall>l \<in> snd ` set w. \<exists>c e. own_envelope L xs e \<and>
           l = sealed_packet (aead (l_env L)) k (sendDir ses) c (json_object (envelope_members e)) @ [CHR 0x0A]))"

definition party :: "link \<Rightarrow> side \<Rightarrow> bool" where
  "party L x \<longleftrightarrow>
     ready L (sm x) \<and> sender_core L x \<and> length (sent x) < 2 ^ 64 \<and> logged L (sent x) (sm x) (wire x)"

lemma packets_in:
  "l \<in> set (packets A k d c es) \<Longrightarrow>
    \<exists>c' e. e \<in> set es \<and> l = sealed_packet A k d c' (json_object (envelope_members e)) @ [CHR 0x0A]"
proof (induction es arbitrary: c)
  case (Cons e es)
  then show ?case by simp blast
qed simp

lemma own_more: "own_envelope L xs e \<Longrightarrow> set xs \<subseteq> set ys \<Longrightarrow> own_envelope L ys e"
  by (auto simp: own_envelope_def)

lemma logged_posts:
  assumes g: "logged L xs (sm x) (wire x)" and r: "ready L (sm x)" and p: "posts L es (sm x) s'"
    and new: "\<forall>e \<in> set es. eType e = TypeChat \<longrightarrow> e \<in> set ys" and more: "set xs \<subseteq> set ys"
  shows "logged L ys s' (wire (act L s' x))"
proof -
  obtain ses k where s: "mlookup (sessions (sm x)) (l_peer L) = Some ses" "sendAEAD ses = Some k"
    using r by (auto simp: ready_def)
  have s': "mlookup (sessions s') (l_peer L) = Some (ses\<lparr>sendCtr := sendCtr ses + of_nat (length es)\<rparr>)"
    and sound: "\<forall>e \<in> set es. sound_envelope L (now_ms (l_env L) (tick s')) e"
    using p s unfolding posts_def by blast+
  let ?packet = "\<lambda>l c e. l = sealed_packet (aead (l_env L)) k (sendDir ses) c (json_object (envelope_members e)) @ [CHR 0x0A]"
  have "\<exists>c e. own_envelope L ys e \<and> ?packet l c e" if l: "l \<in> snd ` set (wire (act L s' x))" for l
  proof (cases "l \<in> snd ` set (wire x)")
    case True
    then obtain c e where "own_envelope L xs e" "?packet l c e" using g s unfolding logged_def by blast
    then show ?thesis using own_more [OF _ more] by blast
  next
    case False
    then have "l \<in> set (packets (aead (l_env L)) k (sendDir ses) (sendCtr ses) es)"
      using l posts_new_lines [OF p s] by (auto simp: act_def image_iff)
    from packets_in [OF this] obtain c e where e: "e \<in> set es" "?packet l c e" by blast
    then have "own_envelope L ys e" using sound new unfolding own_envelope_def by blast
    then show ?thesis using e(2) by blast
  qed
  then show ?thesis using s s' by (simp add: logged_def)
qed

lemma party_frame:
  assumes x: "party L x" and f: "fit L" and p: "posts L es (sm x) s'"
    and old: "\<forall>e \<in> set es. eType e = TypeChat \<longrightarrow> e \<in> set (sent x)"
    and ok: "sm_ok s'" and q: "mget 0 (sendSeq s') (l_peer L) = mget 0 (sendSeq (sm x)) (l_peer L)"
    and w: "\<And>i m. waiting s' (l_peer L) i = Some m \<Longrightarrow> \<exists>m'. waiting (sm x) (l_peer L) i = Some m' \<and> pc_envelope m' = pc_envelope m"
  shows "party L (act L s' x)"
proof -
  have r: "ready L (sm x)" and g: "logged L (sent x) (sm x) (wire x)" and s: "sender_core L x" and n: "length (sent x) < 2 ^ 64"
    using x by (simp_all add: party_def)
  have "sender_core L (act L s' x)" by (rule sender_core_frame [OF s f p ok q w])
  then show ?thesis using logged_posts [OF g r p old subset_refl] posts_ready [OF p r] n by (simp add: party_def)
qed

lemma party_todo:
  "party L x \<Longrightarrow> \<forall>item \<in> set (snd td). fst item = l_peer L \<and> resendable L x (pc_envelope (snd item)) \<Longrightarrow> party L (x\<lparr>todo := td\<rparr>)"
  by (simp add: party_def sender_core_def)

lemma party_accepted:
  assumes x: "party L x" and f: "fit L"
  shows "party L (x\<lparr>sm := accepted L c (sm x)\<rparr>)"
proof -
  have r: "ready L (sm x)" and s: "sender_core L x" and g: "logged L (sent x) (sm x) (wire x)" using x by (simp_all add: party_def)
  obtain ses where ses: "mlookup (sessions (sm x)) (l_peer L) = Some ses" using r by (auto simp: ready_def)
  have "logged L (sent x) (accepted L c (sm x)) (wire x)"
    using g ses accepted_session [OF ses, of c] by (simp add: logged_def acceptCounter_other_fields)
  then show ?thesis using x ready_accepted [OF r] sender_core_accepted [OF s r f] by (simp add: party_def)
qed

section \<open>The receiving half\<close>

definition numbering :: "Envelope list \<Rightarrow> u64 \<Rightarrow> string" where
  "numbering xs k = text_of (xs ! (unat k - 1))"

definition numbers :: "Envelope list \<Rightarrow> u64 set" where
  "numbers xs = (\<lambda>i. of_nat (Suc i)) ` {..<length xs}"

definition received :: "link \<Rightarrow> string list \<Rightarrow> Envelope list \<Rightarrow> stream_manager \<Rightarrow> bool" where
  "received L D xs s \<longleftrightarrow>
     recv_inv (l_env L) (l_peer L) (numbering xs) D (numbers xs) s \<and> recv_idle (l_peer L) s"

lemma numbers_unat: "length xs < 2 ^ 64 \<Longrightarrow> k \<in> numbers xs \<longleftrightarrow> 1 \<le> unat k \<and> unat k \<le> length xs"
proof
  assume n: "length xs < 2 ^ 64"
  show "k \<in> numbers xs \<Longrightarrow> 1 \<le> unat k \<and> unat k \<le> length xs"
    using n unat_add_of_nat [of 0] by (auto simp: numbers_def simp del: of_nat_Suc)
  assume "1 \<le> unat k \<and> unat k \<le> length xs"
  then have "k = of_nat (Suc (unat k - 1))" "unat k - 1 < length xs" by auto
  then show "k \<in> numbers xs" unfolding numbers_def by blast
qed

lemma numbering_append: "k \<in> numbers xs \<Longrightarrow> length xs < 2 ^ 64 \<Longrightarrow> numbering (xs @ ys) k = numbering xs k"
  using numbers_unat [of xs k] by (auto simp: numbering_def nth_append)

lemma numbered_cong: "(\<And>k. 1 \<le> unat k \<Longrightarrow> unat k \<le> n \<Longrightarrow> f k = g k) \<Longrightarrow> n < 2 ^ 64 \<Longrightarrow> numbered f n = numbered g n"
  using unat_add_of_nat [of 0] by (auto simp: numbered_def simp del: upt_Suc)

text \<open>How far the receiver has come.\<close>

lemma received_last:
  assumes "received L D xs s" and "length xs < 2 ^ 64"
  shows "unat (mget 0 (recvSeq s) (l_peer L)) \<le> length xs"
proof (cases "unat (mget 0 (recvSeq s) (l_peer L)) = 0")
  case False
  then have "1 \<le> mget 0 (recvSeq s) (l_peer L)" by (simp add: word_le_nat_alt)
  then have "mget 0 (recvSeq s) (l_peer L) \<in> numbers xs" using assms(1) by (simp add: received_def recv_inv_def Let_def)
  then show ?thesis using numbers_unat [OF assms(2)] by blast
qed simp

lemma received_view:
  assumes "received L D xs s" and "length xs < 2 ^ 64"
  shows "delivered (l_env L) (l_peer L) s = D @ map text_of (take (unat (mget 0 (recvSeq s) (l_peer L))) xs)"
proof -
  let ?n = "unat (mget 0 (recvSeq s) (l_peer L))"
  have n: "?n \<le> length xs" by (rule received_last [OF assms])
  have "numbered (numbering xs) ?n = map text_of (take ?n xs)"
    using n assms(2) unat_add_of_nat [of 0]
    by (simp add: list_eq_iff_nth_eq numbered_def numbering_def del: upt_Suc of_nat_Suc)
  then show ?thesis using assms(1) by (simp add: received_def recv_inv_def Let_def)
qed

lemma received_append:
  assumes r: "received L D xs s" and n: "length xs < 2 ^ 64"
  shows "received L D (xs @ ys) s"
proof -
  let ?n = "unat (mget 0 (recvSeq s) (l_peer L))"
  have le: "?n \<le> length xs" by (rule received_last [OF r n])
  have sub: "numbers xs \<subseteq> numbers (xs @ ys)" by (auto simp: numbers_def)
  have "numbered (numbering (xs @ ys)) ?n = numbered (numbering xs) ?n"
    using le n numbers_unat [OF n] by (intro numbered_cong numbering_append) auto
  moreover have "chat_of (numbering (xs @ ys)) e" if "chat_of (numbering xs) e" "eSequence e \<in> numbers xs" for e
    using that numbering_append [OF _ n] by (simp add: chat_of_def)
  ultimately show ?thesis using r sub unfolding received_def recv_inv_def Let_def by auto
qed

lemma received_frame:
  assumes "received L D xs s" and "mget 0 (recvSeq s') (l_peer L) = mget 0 (recvSeq s) (l_peer L)"
    "mget [] (recvBuffer s') (l_peer L) = mget [] (recvBuffer s) (l_peer L)" and "delivered (l_env L) (l_peer L) s' = delivered (l_env L) (l_peer L) s"
  shows "received L D xs s'"
  using assms by (simp add: received_def recv_inv_def recv_idle_def)

lemma sent_chat_of:
  assumes "sender_core M y" and "e \<in> set (sent y)" and "length (sent y) < 2 ^ 64"
  shows "eType e = TypeChat" "eSequence e \<in> numbers (sent y)" "unmarshal_chat (eBody e) = Some (text_of e)"
    "TrimSpace (text_of e) \<noteq> [] \<Longrightarrow> chat_of (numbering (sent y)) e"
proof -
  obtain i where i: "i < length (sent y)" "e = sent y ! i" using assms(2) by (metis in_set_conv_nth)
  have n: "eType e = TypeChat" "eSequence e = of_nat (Suc i)" "unmarshal_chat (eBody e) = Some (text_of e)"
    using assms(1) i by (auto simp: sender_core_def numbered_text_def)
  have u: "unat (eSequence e) = Suc i" unfolding n(2) using i(1) assms(3) unat_add_of_nat [of 0 "Suc i"] by simp
  then show "eSequence e \<in> numbers (sent y)" using numbers_unat [OF assms(3)] i(1) by simp
  show "eType e = TypeChat" "unmarshal_chat (eBody e) = Some (text_of e)" by (rule n(1), rule n(3))
  have "eSequence e \<noteq> 0" using u by auto
  then show "chat_of (numbering (sent y)) e" if "TrimSpace (text_of e) \<noteq> []"
    using that n(1,3) u i(2) by (simp add: chat_of_def numbering_def)
qed

section \<open>A line handed over\<close>

lemma sealed_packet_inj:
  assumes "aead_correct A" and "sealed_packet A k d c m = sealed_packet A k d c' m'"
  shows "m = m'"
proof -
  have "[std_encode (packet_nonce d c), std_encode (Seal A k (packet_nonce d c) m)]
      = [std_encode (packet_nonce d c'), std_encode (Seal A k (packet_nonce d c') m')]"
    using arg_cong [OF assms(2), of "split_char (CHR ''.'')"] unfolding sealed_packet_def packet_split .
  then have "packet_nonce d c = packet_nonce d c'" "Seal A k (packet_nonce d c) m = Seal A k (packet_nonce d c') m'"
    by (auto dest: std_encode_inj)
  then show ?thesis using assms(1) unfolding aead_correct_def by (metis option.inject)
qed

lemma chat_any:
  assumes f: "fit L" and rd: "ready L s" and c: "eConversation e = conversationID (l_env L) (l_self L) (l_peer L) \<and> eSender e = peer_String (l_env L) (l_peer L)"
    and y: "sender_core M y" "length (sent y) < 2 ^ 64" and e: "e \<in> set (sent y)" and rv: "received L D (sent y) s"
  defines "s' \<equiv> handleEnvelope (l_env L) (l_peer L) e s"
  shows "replies L s s' \<and> sendSeq s' = sendSeq s \<and> received L D (sent y) s' \<and>
    (\<forall>i m. waiting s' (l_peer L) i = Some m \<longrightarrow> waiting s (l_peer L) i = Some m)"
proof (cases "TrimSpace (text_of e) = []")
  case True
  then have "s' = s" unfolding s'_def using sent_chat_of(1,3) [OF y(1) e y(2)] c rd by (auto simp: handleEnvelope_def ready_def)
  then show ?thesis using rv by (simp add: replies_quiet posts_def)
next
  case False
  let ?E = "l_env L" and ?p = "l_peer L"
  note n = sent_chat_of(4,2) [OF y(1) e y(2)]
  note n = n(1) [OF False] n(2)
  have a: "addressed ?E ?p s e" using c rd by (simp add: addressed_def ready_def)
  have s': "s' = handleChat ?E ?p e (numbering (sent y) (eSequence e)) s"
    unfolding s'_def by (rule handleEnvelope_chat [OF n(1) a])
  have "recv_inv ?E ?p (numbering (sent y)) D (insert (eSequence e) (numbers (sent y))) s'" "recv_idle ?p s'"
    unfolding s'_def using rv n(1) a by (auto simp: received_def intro: handle_chat_inv)
  then have "received L D (sent y) s'" using n(2) by (simp add: received_def insert_absorb)
  moreover have "recv_frame s s'" unfolding s' by (rule recv_frame_chat)
  note same = recv_frame_fields(3,4) [OF this]
  moreover have "replies L s s'" unfolding s' by (rule handleChat_replies [OF f rd])
  ultimately show ?thesis by (simp add: waiting_def)
qed

text \<open>What handling an envelope of the other side does, whichever it is and whenever it comes.\<close>

lemma handle_any:
  assumes f: "fit L" and rd: "ready L s" and fc: "facing L M" and y: "sender_core M y" "length (sent y) < 2 ^ 64"
    and e: "own_envelope M (sent y) e" and v: "v2_rules (now_ms (l_env L) (tick s)) e" and rv: "received L D (sent y) s"
  defines "s' \<equiv> handleEnvelope (l_env L) (l_peer L) e s"
  shows "replies L s s' \<and> sendSeq s' = sendSeq s \<and> received L D (sent y) s' \<and>
    (\<forall>i m. waiting s' (l_peer L) i = Some m \<longrightarrow> waiting s (l_peer L) i = Some m)"
proof -
  let ?E = "l_env L" and ?p = "l_peer L"
  obtain t where t: "sound_envelope M t e" using e by (auto simp: own_envelope_def)
  then have "sound_envelope M (eTimestamp e) e" by (auto simp: sound_envelope_def v2_rules_def)
  then have ar: "arrives L M s e" using v by (auto simp: arrives_def v2_rules_def)
  note from_peer = arrives_from [OF fc ar]
  have still: ?thesis if "replies L s s'" "kept L s s'"
    using that received_frame [OF rv] by (simp add: kept_def waiting_def)
  have said: ?thesis if "s' = emit (Console c) s" for c
    unfolding that by (rule still [unfolded that]) (use silent_step(1) [of L s c] in \<open>simp_all add: silent_def replies_quiet\<close>)
  consider (chat) "eType e = TypeChat" | (ack) "eType e = TypeAck" | (control) "eType e = TypeControl"
    using arrivesD(5) [OF ar] by auto
  then show ?thesis
  proof cases
    case chat
    then have "e \<in> set (sent y)" using e by (simp add: own_envelope_def)
    then show ?thesis unfolding s'_def using chat_any [OF f rd conjI [OF from_peer] y _ rv] by blast
  next
    case ack
    show ?thesis
    proof (cases "unmarshal_ack (eBody e)")
      case None
      then show ?thesis using from_peer rd ack
        by (intro said [of "InvalidAckBody ?p"]) (simp add: s'_def handleEnvelope_def ready_def message_type_defs)
    next
      case (Some i)
      then have s': "s' = ackPending ?p i s" unfolding s'_def by (intro handle_ack [OF rd fc ar]) (simp add: ack_for_def ack)
      have "received L D (sent y) s'" unfolding s' by (rule received_frame [OF rv]) (simp_all add: ackPending_kept)
      then show ?thesis using ackPending_kept(1,2) replies_quiet unfolding s'
        by (auto simp: waiting_ackPending split: if_splits)
    qed
  next
    case control
    obtain es where "posts L es s s'" "kept L s s'" "\<forall>a \<in> set es. eType a = TypeControl \<and> \<not> asks a"
      unfolding s'_def by (rule handle_control [OF f rd fc ar control])
    then show ?thesis by (intro still) (auto simp: replies_def message_type_defs)
  qed
qed

lemma emit_received: "received L D xs s \<Longrightarrow> received L D xs (emit (Console c) s)"
  by (erule received_frame) (simp_all add: emit_recv)

lemma accepted_received: "received L D xs s \<Longrightarrow> received L D xs (accepted L c s)"
  by (rule received_frame) (simp_all add: accepted_delivered)

definition receive_key :: "link \<Rightarrow> stream_manager \<Rightarrow> bytes option" where
  "receive_key L s = Option.bind (mlookup (sessions s) (l_peer L)) recvAEAD"

lemma posts_receive_key: "posts L es s s' \<Longrightarrow> ready L s \<Longrightarrow> receive_key L s' = receive_key L s"
  by (auto simp: posts_def ready_def receive_key_def)

text \<open>A line that opens opens to an envelope the other side has written.\<close>

lemma line_opens:
  assumes f: "fit M" and y: "party M y" and g: "genuine L x M y l"
    and sa: "mlookup (sessions (sm x)) (l_peer L) = Some sa"
    and m: "snd (Decrypt (aead (l_env L)) sa (TrimSpace l)) = Inr m"
  obtains e where "own_envelope M (sent y) e" "m = json_object (envelope_members e)" "wire_exact e"
proof -
  obtain sb k where sb: "mlookup (sessions (sm y)) (l_peer M) = Some sb" "sendAEAD sb = Some k"
    using y by (auto simp: party_def ready_def)
  obtain t c where c: "(t, sealed_packet (aead (l_env M)) k (sendDir sb) c m @ [CHR 0x0A]) \<in> set (wire y)"
    using g sa sb m unfolding genuine_def by blast
  have "logged M (sent y) (sm y) (wire y)" using y by (simp add: party_def)
  then obtain c' e where e: "own_envelope M (sent y) e"
      "sealed_packet (aead (l_env M)) k (sendDir sb) c m
        = sealed_packet (aead (l_env M)) k (sendDir sb) c' (json_object (envelope_members e))"
    using c sb unfolding logged_def by force
  have "m = json_object (envelope_members e)" using sealed_packet_inj [OF _ e(2)] f by (simp add: fit_def healthy_def)
  moreover have "wire_exact e" using e(1) by (auto simp: own_envelope_def sound_envelope_def)
  ultimately show thesis using e(1) by (intro that)
qed

text \<open>A step from the state that has accepted the packet, with answers only.\<close>

lemma answers_keep:
  assumes x: "party L x" and f: "fit L" and r: "replies L (accepted L n (sm x)) s'" and q: "sendSeq s' = sendSeq (sm x)"
    and ok: "sm_ok s'" and w: "\<forall>i m. waiting s' (l_peer L) i = Some m \<longrightarrow> waiting (sm x) (l_peer L) i = Some m"
  shows "party L (act L s' x) \<and> receive_key L s' = receive_key L (sm x)"
proof -
  let ?x = "x\<lparr>sm := accepted L n (sm x)\<rparr>"
  have x1: "party L ?x" by (rule party_accepted [OF x f])
  have rd: "ready L (sm x)" "ready L (accepted L n (sm x))" using x x1 by (simp_all add: party_def)
  obtain sa where sa: "mlookup (sessions (sm x)) (l_peer L) = Some sa" using rd(1) by (auto simp: ready_def)
  obtain es where es: "posts L es (accepted L n (sm x)) s'" "\<forall>e \<in> set es. eType e \<noteq> TypeChat"
    using r unfolding replies_def by blast
  have "party L (act L s' ?x)" using es q ok w by (intro party_frame [OF x1 f, of es]) simp_all
  then show ?thesis
    using posts_receive_key [OF es(1) rd(2)] sa accepted_session [OF sa, of n]
    by (simp add: act_accepted receive_key_def acceptCounter_other_fields)
qed

lemma handed_keeps:
  assumes f: "fit L" "fit M" and fc: "facing L M" and x: "party L x" and y: "party M y"
    and rv: "received L D (sent y) (sm x)" and g: "genuine L x M y l"
    and l: "readLoop_line (l_env L) (l_peer L) l (sm x) = Some s'"
  shows "party L (act L s' x) \<and> received L D (sent y) s' \<and> receive_key L s' = receive_key L (sm x)"
proof -
  let ?E = "l_env L" and ?p = "l_peer L"
  have ry: "sender_core M y" "length (sent y) < 2 ^ 64" and rd: "ready L (sm x)" and ok: "sm_ok s'"
    using x y readLoop_line_ok [OF _ l] by (simp_all add: party_def sender_core_def)
  obtain sa where sa: "mlookup (sessions (sm x)) ?p = Some sa" using rd by (auto simp: ready_def)
  show ?thesis
  proof (cases "snd (Decrypt (aead ?E) sa (TrimSpace l))")
    case (Inl err)
    have "mput ?p sa (sessions (sm x)) = sessions (sm x)" using sa by (simp add: mput_def mlookup_def update_triv)
    then have "s' = sm x" using l sa Inl Decrypt_error_same [OF Inl] by (simp add: readLoop_line_def split_def Let_def)
    then show ?thesis using x rv act_ticked [of "sm x" x L] by simp
  next
    case (Inr m)
    obtain e where e: "own_envelope M (sent y) e" "m = json_object (envelope_members e)" "wire_exact e"
      by (rule line_opens [OF f(2) y g sa Inr])
    obtain n where "fst (Decrypt (aead ?E) sa (TrimSpace l)) = fst (acceptCounter sa n)"
      using Decrypt_Inr_parts [OF Inr] by metis
    then have D: "Decrypt (aead ?E) sa (TrimSpace l) = (fst (acceptCounter sa n), Inr m)" using Inr by (simp add: prod_eq_iff)
    let ?s = "accepted L n (sm x)"
    note keep = answers_keep [OF x f(1), of n s']
    have rv1: "received L D (sent y) ?s" and rd1: "ready L ?s" and tick: "tick ?s = Suc (tick (sm x))"
      using accepted_received [OF rv] ready_accepted [OF rd] sa by (simp_all add: accepted_def ticked_def)
    show ?thesis
    proof (cases "Decode (now_ms ?E (tick (sm x))) m")
      case (Inl err)
      then have s': "s' = emit (Console (InvalidEnvelope (shortID ?E ?p) err)) ?s"
        using l sa D by (simp add: readLoop_line_def Let_def accepted_def)
      have "sendSeq s' = sendSeq (sm x)" "pending s' = pending (sm x)" unfolding s' by (simp_all add: emit_def)
      note tables = this(1) waiting_same [OF this(2)]
      show ?thesis using keep tables ok emit_received [OF rv1] unfolding s' by (simp add: replies_quiet)
    next
      case (Inr e')
      then have "unmarshal_envelope m = Some e'" "v2_rules (now_ms ?E (tick (sm x))) e'"
        by (auto simp: Decode_def Validate_None_iff [symmetric] split: if_splits option.splits)
      then have e': "e' = e" and v: "v2_rules (now_ms ?E (tick (sm x))) e" using unmarshal_marshal [OF e(3)] e(2) by auto
      have "now_ms ?E (tick (sm x)) \<le> now_ms ?E (tick ?s)" using f(1) tick by (intro now_ms_mono) (simp_all add: fit_def)
      note v1 = v2_rules_later [OF v this]
      have s': "s' = handleEnvelope ?E ?p e ?s" using l sa D Inr e' by (simp add: readLoop_line_def Let_def accepted_def)
      show ?thesis using handle_any [OF f(1) rd1 fc ry e(1) v1 rv1] keep ok unfolding s' by simp
    qed
  qed
qed

section \<open>Steps and runs\<close>

text \<open>The invariant of one side and what it has received, kept by everything it does of its own.\<close>

lemma party_acts:
  assumes x: "party L x" and f: "fit L" and rv: "received L D ys (sm x)" and p: "posts L es (sm x) s'"
    and old: "\<forall>e \<in> set es. eType e = TypeChat \<longrightarrow> e \<in> set (sent x)" and ok: "sm_ok s'"
    and q: "mget 0 (sendSeq s') (l_peer L) = mget 0 (sendSeq (sm x)) (l_peer L)"
      "mget 0 (recvSeq s') (l_peer L) = mget 0 (recvSeq (sm x)) (l_peer L)"
      "mget [] (recvBuffer s') (l_peer L) = mget [] (recvBuffer (sm x)) (l_peer L)"
      "delivered (l_env L) (l_peer L) s' = delivered (l_env L) (l_peer L) (sm x)"
    and w: "\<And>i m. waiting s' (l_peer L) i = Some m \<Longrightarrow> \<exists>m'. waiting (sm x) (l_peer L) i = Some m' \<and> pc_envelope m' = pc_envelope m"
  shows "party L (act L s' x) \<and> received L D ys s'"
  using party_frame [OF x f p old ok q(1) w] received_frame [OF rv q(2-4)] by blast

lemma party_ticked:
  assumes "party L x" and "fit L" and "received L D ys (sm x)"
  shows "party L (x\<lparr>sm := ticked (sm x)\<rparr>) \<and> received L D ys (ticked (sm x))"
proof -
  have "act L (ticked (sm x)) x = x\<lparr>sm := ticked (sm x)\<rparr>" by (rule act_ticked) (simp add: lines_on_def ticked_def)
  moreover have "sm_ok (ticked (sm x))" using assms(1) by (simp add: party_def sender_core_def ticked_ok)
  then have "party L (act L (ticked (sm x)) x) \<and> received L D ys (ticked (sm x))"
    by (intro party_acts [OF assms posts_ticked]) (simp_all, simp_all add: ticked_def)
  ultimately show ?thesis by simp
qed

lemma own_sends:
  assumes f: "fit L" and x: "party L x" and rv: "received L D ys (sm x)" and n: "length (typed x) + 1 < 2 ^ 64"
    and c: "sendChat (l_env L) (l_peer L) t (sm x) = (s', r)"
  defines "e \<equiv> case r of Inl err \<Rightarrow> unsent (length (sent x)) t | Inr e \<Rightarrow> e"
  shows "party L ((act L s' x)\<lparr>typed := typed x @ [t], sent := sent x @ [e]\<rparr>)" "received L D ys s'"
proof -
  have rd: "ready L (sm x)" and sx: "sender_core L x" using x by (simp_all add: party_def)
  have "length (sent x) = length (typed x)" using sx by (metis length_map sender_core_def)
  then have n1: "length (sent x) + 1 < 2 ^ 64" using n by simp
  obtain es where e: "posts L es (sm x) s'" "set es \<subseteq> {e}"
      "sender_core L ((act L s' x)\<lparr>typed := typed x @ [t], sent := sent x @ [e]\<rparr>)"
      "recvSeq s' = recvSeq (sm x)" "recvBuffer s' = recvBuffer (sm x)"
      "delivered (l_env L) (l_peer L) s' = delivered (l_env L) (l_peer L) (sm x)"
    using send_effect [OF f rd sx n1 c meta_eq_to_obj_eq [OF e_def]] by metis
  have "logged L (sent x @ [e]) s' (wire (act L s' x))"
    using x e(2) by (intro logged_posts [OF _ rd e(1)]) (auto simp: party_def)
  then show "party L ((act L s' x)\<lparr>typed := typed x @ [t], sent := sent x @ [e]\<rparr>)"
    using e(3) posts_ready [OF e(1) rd] n1 by (simp add: party_def)
  show "received L D ys s'" by (rule received_frame [OF rv]) (simp_all add: e(4-6))
qed

lemma own_keeps:
  assumes st: "side_step L (x, y) (x', y)" and n: "length (typed x') < 2 ^ 64" and f: "fit L"
    and x: "party L x" and rv: "received L D ys (sm x)"
  shows "party L x' \<and> received L D ys (sm x') \<and> set (sent x) \<subseteq> set (sent x') \<and> (\<exists>es. sent x' = sent x @ es)"
proof -
  have rd: "ready L (sm x)" and sx: "sender_core L x" and ok: "sm_ok (sm x)" using x by (simp_all add: party_def sender_core_def)
  note acts = party_acts [OF x f rv]
  show ?thesis using st
  proof cases
    case (send t s' r)
    have "length (typed x) + 1 < 2 ^ 64" using n send(1) by simp
    from own_sends [OF f x rv this send(3)] show ?thesis unfolding send(1) by auto
  next
    case (control b)
    obtain e s' where e: "sendControl (l_env L) (l_peer L) b (sm x) = (s', None)" "eType e = TypeControl"
        "posts L [e] (sm x) s'" "kept L (sm x) s'"
      by (rule sendControl_posts [OF f rd control(3)])
    have "only_sends (l_peer L) (sm x) s'" using sendControl_only_sends [of "l_peer L" "sm x" "l_env L" b] e(1) by simp
    then have "sm_ok s'" by (rule sm_ok_same [OF ok same_tables_sends])
    then have "party L (act L s' x) \<and> received L D ys s'"
      using e(2,4) by (intro acts [OF e(3)]) (simp_all add: kept_def waiting_def message_type_defs)
    then show ?thesis using control(1) e(1) by simp
  next
    case (collect now)
    have later: "resendable L (x\<lparr>sm := ticked (sm x)\<rparr>) e" if "resendable L x e" for e
      using that posts_clock [OF f posts_ticked [of L "sm x"]] by (rule_tac resendable_later) simp_all
    have "\<forall>item \<in> set (due_items now (sm x)). fst item = l_peer L \<longrightarrow> resendable L x (pc_envelope (snd item))"
      using due_items_waiting [OF ok, of "l_peer L" _ now] sx unfolding sender_core_def by (metis prod.collapse)
    then show ?thesis using party_todo [of L "x\<lparr>sm := ticked (sm x)\<rparr>"] party_ticked [OF x f rv] collect(1) later by simp
  next
    case (send_again now item items)
    have item: "item = (l_peer L, snd item)" "resendable L x (pc_envelope (snd item))"
      "\<forall>item \<in> set items. fst item = l_peer L \<and> resendable L x (pc_envelope (snd item))"
      using sx send_again(3) by (auto simp: sender_core_def prod_eq_iff)
    let ?s = "resend (l_env L) now item (sm x)"
    have e: "sound_envelope L (now_ms (l_env L) (tick (sm x))) (pc_envelope (snd item))"
      using item(2) by (simp add: resendable_def)
    note rp = resend_posts [OF f rd e, of now, folded item(1)]
    have "\<exists>m'. waiting (sm x) (l_peer L) i = Some m' \<and> pc_envelope m' = pc_envelope m" if "waiting ?s (l_peer L) i = Some m" for i m
      using resend_later [of "sm x" "l_peer L" i "l_env L" now item] that by (auto simp: later_entry_def split: option.splits)
    then have "party L (act L ?s x) \<and> received L D ys ?s"
      using rp item(2) resend_ok [OF ok] by (intro acts [OF rp(1)]) (simp_all add: resendable_def)
    moreover have "resendable L (act L ?s x) e" if "resendable L x e" for e
      using that posts_clock [OF f rp(1)] by (rule_tac resendable_later) simp_all
    ultimately show ?thesis using party_todo [of L "act L ?s x" "(now, items)"] item(3) send_again(1) by simp
  next
    case (read t l w s')
    then show ?thesis by (metis list.inject not_Cons_self side.select_convs(2) side.surjective side.update_convs(2))
  next
    case (other_peers s')
    have "others (l_env L) (l_peer L) (l_stream L) (sm x)" using f rd by (simp add: others_def ready_def fit_def)
    note a = other_step_apart [OF other_peers(2) this]
    have "party L (act L s' x) \<and> received L D ys s'"
      using apart_tables_same [OF a] other_step_ok [OF other_peers(2) ok] by (intro acts [OF apart_posts [OF a]]) simp_all
    then show ?thesis using other_peers(1) by simp
  next
    case idle
    then show ?thesis using party_ticked [OF x f rv] by simp
  qed
qed

text \<open>The invariant of the attacked network.\<close>

definition safe :: "link \<Rightarrow> link \<Rightarrow> string list \<Rightarrow> string list \<Rightarrow> side \<times> side \<Rightarrow> bool" where
  "safe L M D D' n \<longleftrightarrow>
     fit L \<and> fit M \<and> facing L M \<and> party L (fst n) \<and> party M (snd n) \<and>
     received M D (sent (fst n)) (sm (snd n)) \<and> received L D' (sent (snd n)) (sm (fst n))"

lemma safe_swap: "safe L M D D' n \<Longrightarrow> safe M L D' D (prod.swap n)"
  by (simp add: safe_def facing_sym)

lemma attack_side_safe: "attack_side L M n n' \<Longrightarrow> safe L M D D' n \<Longrightarrow> safe L M D D' n'"
proof (induction rule: attack_side.induct)
  case (own x y x')
  then have x: "party L x" "fit L" "received L D' (sent y) (sm x)" "received M D (sent x) (sm y)" "length (sent x) < 2 ^ 64"
    by (simp_all add: safe_def party_def)
  from own_keeps [OF own.hyps x(2,1,3)] obtain es where "sent x' = sent x @ es" "party L x'" "received L D' (sent y) (sm x')" by blast
  then show ?case using own.prems received_append [OF x(4,5), of es] by (simp add: safe_def)
next
  case (handed x y l s')
  then show ?case using handed_keeps [of L M x y D' l s'] by (simp add: safe_def)
qed

lemma attack_step_safe: "attack_step L M n n' \<Longrightarrow> safe L M D D' n \<Longrightarrow> safe L M D D' n'"
proof (induction rule: attack_step.induct)
  case (right n n')
  then have "safe M L D' D (prod.swap n')" using attack_side_safe safe_swap by blast
  from safe_swap [OF this] show ?case by simp
qed (rule attack_side_safe)

interpretation attack_run: run_invariant "attack_step L M" "safe L M D D'" for L M D D'
  by unfold_locales (rule attack_step_safe)

lemma start_party:
  assumes "side_start L M x y"
  shows "party L x"
proof -
  obtain es where c: "chan L M x y es" and ctl: "\<forall>e \<in> set es. eType e = TypeControl" using assms by (auto simp: side_start_def)
  have "own_envelope L [] e" if e: "e \<in> set es" for e
  proof -
    obtain i where i: "i < length es" "e = es ! i" using e by (metis in_set_conv_nth)
    then have "sound_envelope L (fst (wire x ! i)) e" using c by (simp add: chan_def list_all2_conv_all_nth)
    then show ?thesis using ctl e by (auto simp: own_envelope_def message_type_defs)
  qed
  moreover obtain sa k and sb :: session where s: "mlookup (sessions (sm x)) (l_peer L) = Some sa" "sendAEAD sa = Some k"
      "map snd (wire x) = packets (aead (l_env L)) k (sendDir sa) (recvMax sb) es"
    using c by (elim chanE) blast
  have "snd ` set (wire x) = set (packets (aead (l_env L)) k (sendDir sa) (recvMax sb) es)"
    using arg_cong [OF s(3), of set] by simp
  ultimately have "logged L [] (sm x) (wire x)" using s(1,2) packets_in unfolding logged_def by (metis option.inject)
  then show ?thesis using assms by (auto simp: party_def side_start_def sender_core_def)
qed

lemma start_received: "side_start L M x y \<Longrightarrow> received L (seen L x) [] (sm x)"
  using fresh_recv_inv [of "l_peer L" "sm x" "l_env L"] by (simp add: side_start_def fresh_peer_def received_def numbers_def seen_def)

lemma start_safe: "net_start L M n \<Longrightarrow> safe L M (seen M (snd n)) (seen L (fst n)) n"
proof -
  assume s: "net_start L M n"
  then have "sent (fst n) = []" "sent (snd n) = []" by (simp_all add: net_start_def side_start_def)
  then show ?thesis using s start_party start_received unfolding net_start_def safe_def by metis
qed

lemma party_sees:
  assumes "received M D (sent x) (sm y)" and "party L x"
  shows "\<exists>k. seen M y = D @ map to_valid (take k (typed x))"
proof -
  have "map text_of (sent x) = map to_valid (typed x)" "length (sent x) < 2 ^ 64"
    using assms(2) by (simp_all add: party_def sender_core_def)
  then show ?thesis using received_view [OF assms(1)] unfolding seen_def by (metis take_map)
qed

text \<open>The attacker may hand over any line the other side has written, as often as he likes.\<close>

lemma written_genuine:
  assumes y: "party M y" and l: "(t, l) \<in> set (wire y)" and a: "aead (l_env L) = aead (l_env M)" "aead_correct (aead (l_env M))"
    and k: "mlookup (sessions (sm x)) (l_peer L) = Some ses" "mlookup (sessions (sm y)) (l_peer M) = Some peer"
      "sendAEAD peer = Some k" "recvAEAD ses = Some k"
  shows "genuine L x M y l"
proof -
  have "logged M (sent y) (sm y) (wire y)" using y by (simp add: party_def)
  then obtain c e where e: "l = sealed_packet (aead (l_env M)) k (sendDir peer) c (json_object (envelope_members e)) @ [CHR 0x0A]"
    using l k(2,3) unfolding logged_def by force
  have "m = json_object (envelope_members e)" if "snd (Decrypt (aead (l_env L)) ses (TrimSpace l)) = Inr m" for m
    using that Decrypt_sealed [OF a(2) k(4)] unfolding e trim_packet a(1) by (auto split: if_splits)
  then show ?thesis using k(1-3) l e unfolding genuine_def by (metis option.inject)
qed

lemma attack_view:
  assumes "net_start L M n0" and "(attack_step L M)\<^sup>*\<^sup>* n0 n"
  shows "(\<exists>k. seen M (snd n) = seen M (snd n0) @ map to_valid (take k (typed (fst n)))) \<and>
    (\<exists>k. seen L (fst n) = seen L (fst n0) @ map to_valid (take k (typed (snd n))))"
proof -
  have "safe L M (seen M (snd n0)) (seen L (fst n0)) n"
    using attack_run.run_good [OF assms(2) start_safe [OF assms(1)]] .
  then show ?thesis using party_sees unfolding safe_def by blast
qed

section \<open>Properties\<close>

text \<open>
  C2. An attacker who controls the network cannot change what the users see: he may lose, delay,
  reorder and repeat packets without limit, hand over lines of his own making, and do so between any
  steps of the two nodes, which also deal with other peers. As long as the cipher opens only what the
  other side sealed, no call of the two nodes fails (\<open>fit\<close>) and fewer than 2 to the 64 texts are typed, what each user has
  seen from the other is in every state a beginning of what the other one typed, in order and each
  text once. The texts are arbitrary: a blank or too long one ends what is seen of its direction, and
  never lets a later one through.
\<close>

theorem attacker_cannot_alter:
  assumes "net_start L M n0" and "(attack_step L M)\<^sup>*\<^sup>* n0 n"
  shows "(\<exists>k. seen M (snd n) = seen M (snd n0) @ map to_valid (take k (typed (fst n)))) \<and>
    (\<exists>k. seen L (fst n) = seen L (fst n0) @ map to_valid (take k (typed (snd n))))"
  using assms by (rule attack_view)

text \<open>The first message of the example, read and then handed over a second time.\<close>

theorem attacker_cannot_alter_witness:
  "\<exists>x y s l. (attack_step link_A link_B)\<^sup>*\<^sup>* (new_side demo_A, new_side demo_B) (x, y) \<and> typed x = [''hi''] \<and>
     l \<in> snd ` set (wire x) \<and> readLoop_line still_env ''A'' l demo_B = Some (sm y) \<and>
     readLoop_line still_env ''A'' l (sm y) = Some s \<and> (\<exists>k. delivered still_env ''A'' s = take k [''hi''])"
proof -
  let ?y = "new_side demo_B"
  obtain x ses where x: "side_step link_A (new_side demo_A, ?y) (x, ?y)" "typed x = [''hi'']" "length (wire x) = 1"
      "mlookup (sessions (sm x)) (l_peer link_A) = Some ses" "sendAEAD ses = Some ''k1''"
    by (rule demo_sends)
  obtain t l where l: "wire x = [(t, l)]" using x(3) by (cases "wire x") auto
  have B: "l_env link_B = still_env" "l_peer link_B = ''A''" and a: "aead (l_env link_B) = aead (l_env link_A)"
    by (simp_all add: link_A_def link_B_def)
  have "attack_step link_A link_B (new_side demo_A, ?y) (x, ?y)"
    by (intro attack_step.left attack_side.own x(1)) (simp add: x(2))
  then have run: "(attack_step link_A link_B)\<^sup>*\<^sup>* (new_side demo_A, ?y) (x, ?y)" by blast
  let ?safe = "safe link_A link_B (seen link_B ?y) (seen link_A (new_side demo_A))"
  have good: "?safe n" if "(attack_step link_A link_B)\<^sup>*\<^sup>* (new_side demo_A, ?y) n" for n
    using attack_run.run_good [OF that start_safe [OF demo_start]] by simp
  have hand: "\<exists>s'. readLoop_line still_env ''A'' l (sm y) = Some s' \<and>
      (attack_step link_A link_B)\<^sup>*\<^sup>* (new_side demo_A, ?y) (x, act link_B s' y) \<and> receive_key link_B s' = Some ''k1''"
    if y: "(attack_step link_A link_B)\<^sup>*\<^sup>* (new_side demo_A, ?y) (x, y)" "receive_key link_B (sm y) = Some ''k1''" for y
  proof -
    have s: "fit link_A" "fit link_B" "facing link_B link_A" "party link_A x" "party link_B y"
        "received link_B (seen link_B ?y) (sent x) (sm y)"
      using good [OF y(1)] by (simp_all add: safe_def facing_sym)
    obtain sb where sb: "mlookup (sessions (sm y)) (l_peer link_B) = Some sb" "recvAEAD sb = Some ''k1''"
      using y(2) by (auto simp: receive_key_def bind_eq_Some_conv)
    have g: "genuine link_B y link_A x l"
      using s(1) by (intro written_genuine [OF s(4) _ a _ sb(1) x(4,5) sb(2)]) (auto simp: l fit_def healthy_def)
    have "readLoop_line (l_env link_B) (l_peer link_B) l (sm y) \<noteq> None"
      using sb(1) by (auto simp: readLoop_line_def Let_def split: prod.splits sum.splits)
    then obtain s' where s': "readLoop_line (l_env link_B) (l_peer link_B) l (sm y) = Some s'" by blast
    have "attack_step link_A link_B (x, y) (x, act link_B s' y)"
      using attack_side.handed [OF g s'] by (intro attack_step.right) simp
    moreover have "receive_key link_B s' = Some ''k1''"
      using handed_keeps [OF s(2,1,3,5,4,6) g s'] y(2) by simp
    ultimately show ?thesis using s' y(1) rtranclp.rtrancl_into_rtrancl B by metis
  qed
  have "receive_key link_B (sm ?y) = Some ''k1''"
    by (simp add: receive_key_def B new_side_def demo_B_def newStreamManager_def gomap_simps demo_session_defs mlookup_def)
  from hand [OF run this] obtain s1 where s1: "readLoop_line still_env ''A'' l (sm ?y) = Some s1"
      "(attack_step link_A link_B)\<^sup>*\<^sup>* (new_side demo_A, ?y) (x, act link_B s1 ?y)" "receive_key link_B s1 = Some ''k1''" by blast
  from hand [OF s1(2)] s1(3) obtain s2 where s2: "readLoop_line still_env ''A'' l s1 = Some s2"
      "(attack_step link_A link_B)\<^sup>*\<^sup>* (new_side demo_A, ?y) (x, act link_B s2 (act link_B s1 ?y))" by auto
  have "seen link_B ?y = []" by (simp add: seen_def new_side_def delivered_def demo_B_def newStreamManager_def)
  with attacker_cannot_alter [OF demo_start s2(2)] x(2) obtain k where
    "delivered still_env ''A'' s2 = map to_valid (take k [''hi''])" by (auto simp: seen_def B)
  moreover have "map to_valid (take k [''hi'']) = take k [''hi'']" by (cases k) (simp_all add: to_valid_ascii)
  ultimately show ?thesis
    using s1 s2(1) l x(2) by (intro exI [of _ x] exI [of _ "act link_B s1 ?y"] exI [of _ s2] exI [of _ l]) (auto simp: new_side_def)
qed

end
