(* ===== verification/Page_Delivery.thy ===== *)
theory Page_Delivery
  imports Attacker Cli
begin

text \<open>
  From the keyboard of one user to the web page of the other: the application performs the calls of
  the web interface its stream manager makes, so the page shows as received from a peer exactly what
  the protocol delivers. With the theorem of two nodes this is what the other user typed.
\<close>

section \<open>The trace only grows\<close>

definition grows :: "stream_manager \<Rightarrow> stream_manager \<Rightarrow> bool" where
  "grows s s' \<longleftrightarrow> prefix (out s) (out s')"

named_theorems grows_intros

lemma grows_refl [grows_intros]: "grows s s"
  by (simp add: grows_def)

lemma grows_trans: "grows s s' \<Longrightarrow> grows s' s'' \<Longrightarrow> grows s s''"
  by (simp add: grows_def)

lemma grows_basic [grows_intros]:
  assumes "grows s0 s"
  shows "grows s0 (emit ev s)" "grows s0 (ticked s)" "grows s0 (s\<lparr>sessions := x1\<rparr>)" "grows s0 (s\<lparr>sendSeq := x2\<rparr>)"
    "grows s0 (s\<lparr>recvSeq := x3\<rparr>)" "grows s0 (s\<lparr>recvBuffer := x4\<rparr>)" "grows s0 (s\<lparr>pending := x5\<rparr>)"
    "grows s0 (s\<lparr>peerNicks := x6\<rparr>)" "grows s0 (s\<lparr>concurrentTestReceived := x7\<rparr>)" "grows s0 (s\<lparr>nextAddr := x8\<rparr>)"
    "grows s0 (s\<lparr>chans := x9\<rparr>)" "grows s0 (s\<lparr>pendingApprovals := x10\<rparr>)" "grows s0 (s\<lparr>pendingRequestNums := x11\<rparr>)"
    "grows s0 (s\<lparr>nextRequestNum := x12\<rparr>)" "grows s0 (register q st ses s)"
  using assms by (auto simp: grows_def emit_def ticked_def register_def prefix_def)

lemma grows_tables [grows_intros]:
  assumes "grows s0 s"
  shows "grows s0 (ackPending q i s)" "grows s0 (trackPending E q e s)" "grows s0 (settle now q m err s)"
    "grows s0 (cleanup_request q n s)" "grows s0 (forgetPeer E q s)"
  using assms
  by (auto simp: ackPending_def trackPending_def settle_def drop_pending_def cleanup_request_def forgetPeer_def clearPending_def
      grows_def emit_def ticked_def prefix_def Let_def split_def split: option.split)

lemma grows_sends:
  assumes "grows s0 s" and "only_sends r s s'"
  shows "grows s0 s'"
  using assms by (auto simp: grows_def prefix_def elim!: only_sends_out)

lemma grows_send [grows_intros]:
  assumes "grows s0 s"
  shows "grows s0 (fst (sendAck E q i s))" "grows s0 (fst (sendControl E q body s))" "grows s0 (fst (build_envelope E q ty n b s))"
  by (rule grows_sends [OF assms], rule sendAck_only_sends sendControl_only_sends build_envelope_only_sends)+

lemma grows_sendEnvelope [grows_intros]: "grows s0 s \<Longrightarrow> grows s0 (fst (sendEnvelope E q st ses e s))"
  by (auto simp: sendEnvelope_def Let_def split: sum.split prod.split intro!: grows_intros)

lemma grows_or_print:
  "grows s0 (fst x) \<Longrightarrow> grows s0 (case x of (s', None) \<Rightarrow> s' | (s', Some err) \<Rightarrow> emit (Console c) s')"
  by (auto split: prod.split option.split intro!: grows_intros)

lemma grows_deliver [grows_intros]:
  assumes "grows s0 s"
  shows "grows s0 (ack_or_print E q i s)" "grows s0 (deliverChat E q t s)"
proof -
  show "grows s0 (ack_or_print E q i s)" unfolding ack_or_print_def by (intro grows_or_print grows_intros assms)
  show "grows s0 (deliverChat E q t s)" unfolding deliverChat_def Let_def split_def by (intro grows_intros assms)
qed

lemma grows_drain [grows_intros]: "grows s0 s \<Longrightarrow> grows s0 (drainReceiveBuffer E q s)"
proof (induction E q s rule: drainReceiveBuffer.induct)
  case (1 E q s)
  have "grows s0 s'" if "drain_step E q s = Some s'" for s'
    using that 1(2) by (auto simp: drain_step_def Let_def split: option.splits if_splits intro!: grows_intros)
  then show ?case using 1 by (subst drainReceiveBuffer.simps) (auto split: option.split)
qed

lemma grows_handle [grows_intros]:
  assumes "grows s0 s"
  shows "grows s0 (handleChat E q e t s)" "grows s0 (handleControl E q body s)"
  using assms unfolding handleChat_def handleControl_def Let_def
  by (auto intro!: grows_or_print grows_intros)

lemma grows_line: "readLoop_line E q l s = Some s' \<Longrightarrow> grows s s'"
  by (auto simp: readLoop_line_def handleEnvelope_def Let_def split: option.splits prod.splits sum.splits if_splits intro!: grows_intros)

lemma grows_sendChat: "grows s (fst (sendChat E q t s))"
proof -
  have "grows s (fst (newChatEnvelope E q n t (s\<lparr>sendSeq := x\<rparr>)))" for n x
    unfolding newChatEnvelope_def by (intro grows_intros)
  moreover have "grows s (fst (sendEnvelope E q st ses e (trackPending E q e s2)))" if "grows s s2" for st ses e s2
    using that by (intro grows_intros)
  ultimately show ?thesis
    unfolding sendChat_def Let_def
    by (auto split: option.split sum.split prod.split intro!: grows_intros) (metis fst_conv)+
qed

lemma grows_resend: "grows s (resend E now item s)"
proof -
  have "grows s s1" if "sendEnvelope E q st ses e s = (s1, err)" for q st ses e s1 err
    using grows_sendEnvelope [OF grows_refl] that by (metis fst_conv)
  then show ?thesis by (auto simp: resend_def split: option.split prod.split intro!: grows_intros)
qed

lemma grows_nickname [grows_intros]: "grows s0 s \<Longrightarrow> grows s0 (send_nickname E q s)"
  unfolding send_nickname_def by (auto intro!: grows_or_print grows_intros)

lemma grows_add [grows_intros]: "grows s0 s \<Longrightarrow> grows s0 (AddStream E c s)"
  unfolding AddStream_def Let_def by (auto split: option.split prod.split sum.split intro!: grows_intros)

lemma grows_other: "other_step E p st s s' \<Longrightarrow> grows s s'"
  by (erule other_step.cases)
    (auto simp: grows_sendChat grows_resend incoming_request_def incoming_decision_def RespondToConnectionRequest_def
      RespondToConnectionRequestByNum_def chan_send_def Let_def
      split: option.splits prod.splits if_splits list.splits intro!: grows_intros dest: grows_line)

lemma side_step_grows: "side_step L n n' \<Longrightarrow> grows (sm (fst n)) (sm (fst n')) \<and> sm (snd n') = sm (snd n)"
proof (induction rule: side_step.induct)
  case (send x t s' r y)
  then show ?case using grows_sendChat [of "sm x" "l_env L" "l_peer L" t] by simp
qed (auto simp: grows_resend intro: grows_intros grows_line grows_other)

lemma net_step_grows: "net_step L M n n' \<Longrightarrow> grows (sm (snd n)) (sm (snd n'))"
  by (erule net_step.cases) (auto dest!: side_step_grows simp: grows_refl)

lemma attack_step_grows: "attack_step L M n n' \<Longrightarrow> grows (sm (snd n)) (sm (snd n'))"
  by (elim attack_step.cases attack_side.cases) (auto dest!: side_step_grows grows_line simp: grows_refl)

section \<open>The page\<close>

text \<open>
  The texts the page of the client \<open>c\<close> shows as received from the peer with the name \<open>P\<close>: those of the
  \<open>new_message\<close> events written to its websocket that are marked as coming from the other side. (The list
  \<open>wcMessages\<close> the server keeps is never sent.)
\<close>

fun page_text :: "nat \<Rightarrow> string \<Rightarrow> nat \<times> string \<times> payload \<Rightarrow> string list" where
  "page_text c P (c', t, PMessage m) =
     (if c' = c \<and> t = ''new_message'' \<and> \<not> wmIsOwn m \<and> wmTo m = P then [wmContent m] else [])"
| "page_text c P _ = []"

definition shown :: "nat \<Rightarrow> string \<Rightarrow> app \<Rightarrow> string list" where
  "shown c P a = (case ap_web a of None \<Rightarrow> [] | Some wc \<Rightarrow> concat (map (page_text c P) (wcSent wc)))"

text \<open>The client is connected, once.\<close>

definition on_page :: "nat \<Rightarrow> app \<Rightarrow> bool" where
  "on_page c a \<longleftrightarrow> (\<exists>wc. ap_web a = Some wc \<and> c \<in> set (wcClients wc) \<and> distinct (wcClients wc))"

text \<open>Calls that send no message to a page.\<close>

definition same_page :: "app \<Rightarrow> app \<Rightarrow> bool" where
  "same_page a a' \<longleftrightarrow>
     map_option wcClients (ap_web a') = map_option wcClients (ap_web a) \<and> (\<forall>c P. shown c P a' = shown c P a)"

lemma same_page_shown: "same_page a a' \<Longrightarrow> shown c P a' = shown c P a \<and> on_page c a' = on_page c a"
  by (cases "ap_web a"; cases "ap_web a'") (simp_all add: same_page_def on_page_def)

lemma same_page_refl [simp]: "same_page a a" "same_page a (a\<lparr>ap_disk := d\<rparr>)" "same_page a (a\<lparr>ap_sm := s\<rparr>)"
  by (simp_all add: same_page_def shown_def)

lemma page_text_other: "t \<noteq> ''new_message'' \<Longrightarrow> page_text c P (c', t, p) = []"
  by (cases p) simp_all

lemma same_page_broadcast: "t \<noteq> ''new_message'' \<Longrightarrow> same_page a (broadcast t p a)"
proof (cases "ap_web a")
  case None
  then show ?thesis by (simp add: broadcast_def)
next
  case (Some wc)
  then show "t \<noteq> ''new_message'' \<Longrightarrow> ?thesis"
    using broadcast_sent [OF Some, of t p] by (simp add: same_page_def shown_def page_text_other comp_def)
qed

lemma same_page_trans: "same_page a b \<Longrightarrow> same_page b c \<Longrightarrow> same_page a c"
  by (simp add: same_page_def)

lemma same_page_history: "same_page a (send_history W i a)"
  using same_page_trans [OF _ same_page_broadcast]
  by (auto simp: send_history_def with_disk_def NotifyPeerHistory_def split: option.split prod.split sum.split)

lemma same_page_request: "same_page a (web_connection_request i n h a)"
  unfolding web_connection_request_def Let_def
  by (rule same_page_trans [OF _ same_page_broadcast])
    (simp_all add: same_page_def shown_def on_web_def option.map_comp comp_def split: option.split)

lemma same_page_notify: "\<forall>fr nm ct own conv ps. c \<noteq> NotifyWebMessage fr nm ct own conv ps \<Longrightarrow> same_page a (web_notify W c a)"
  by (cases c) (blast, simp_all add: web_notify_defs same_page_broadcast same_page_request)

text \<open>Each client gets a broadcast message once.\<close>

lemma once_each: "distinct cs \<Longrightarrow> c \<in> set cs \<Longrightarrow> concat (map (\<lambda>c'. if c' = c then ts else []) cs) = ts"
proof (induction cs)
  case (Cons c' cs)
  have "c \<notin> set cs \<Longrightarrow> concat (map (\<lambda>c'. if c' = c then ts else []) cs) = []" by auto
  then show ?case using Cons by (cases "c' = c") auto
qed simp

lemma message_sent:
  assumes "distinct cs" and "c \<in> set cs"
  shows "concat (map (page_text c P) (map (\<lambda>c. (c, ''new_message'', PMessage m)) cs)) =
    (if \<not> wmIsOwn m \<and> wmTo m = P then [wmContent m] else [])"
proof -
  have "page_text c P \<circ> (\<lambda>c. (c, ''new_message'', PMessage m)) =
      (\<lambda>c'. if c' = c then if \<not> wmIsOwn m \<and> wmTo m = P then [wmContent m] else [] else [])" by (rule ext) simp
  then show ?thesis using once_each [OF assms, of "if \<not> wmIsOwn m \<and> wmTo m = P then [wmContent m] else []"] by (simp only: map_map)
qed

lemma web_event_shown:
  assumes "on_page c a"
  shows "shown c (peer_String E p) (web_event W ev a) = shown c (peer_String E p) a @ incoming E p ev \<and> on_page c (web_event W ev a)"
proof (cases "\<exists>fr nm ct own conv ps. ev = Web (NotifyWebMessage fr nm ct own conv ps)")
  case True
  then obtain fr nm ct own conv ps where ev: "ev = Web (NotifyWebMessage fr nm ct own conv ps)" by blast
  obtain wc where wc: "ap_web a = Some wc" "c \<in> set (wcClients wc)" "distinct (wcClients wc)" using assms by (auto simp: on_page_def)
  from addMessage_parts(1) [OF wc(1) refl, of W fr nm ct own conv ps] message_sent [OF wc(3,2)] show ?thesis
    using wc by (simp add: ev web_event_def shown_def incoming_def on_page_def) (simp add: web_message_def)
next
  case False
  then have "incoming E p ev = []" by (auto simp: incoming_def split: event.split web_call.split)
  moreover have "same_page a (web_event W ev a)"
    using False same_page_notify same_page_history by (cases ev) (auto simp: web_event_def)
  ultimately show ?thesis using same_page_shown [of a "web_event W ev a"] assms by simp
qed

lemma web_events_shown:
  "on_page c a \<Longrightarrow>
    shown c (peer_String E p) (fold (web_event W) evs a) = shown c (peer_String E p) a @ concat (map (incoming E p) evs) \<and>
    on_page c (fold (web_event W) evs a)"
proof (induction evs arbitrary: a)
  case (Cons ev evs)
  then show ?case using web_event_shown [OF Cons.prems, of E p W ev] Cons.IH [of "web_event W ev a"] by simp
qed simp

text \<open>An operation of the stream manager, with the calls it makes, shows what it delivers.\<close>

lemma lift_shown:
  assumes "on_page c a" and "grows (ap_sm a) (f (ap_sm a))"
  shows "\<exists>ts. shown c (peer_String E p) (lift_sm W f a) = shown c (peer_String E p) a @ ts \<and>
    delivered E p (f (ap_sm a)) = delivered E p (ap_sm a) @ ts"
    and "on_page c (lift_sm W f a)" "ap_sm (lift_sm W f a) = f (ap_sm a)"
proof -
  obtain evs where evs: "out (f (ap_sm a)) = out (ap_sm a) @ evs" using assms(2) by (auto simp: grows_def prefix_def)
  have "shown c (peer_String E p) (a\<lparr>ap_sm := f (ap_sm a)\<rparr>) = shown c (peer_String E p) a" "on_page c (a\<lparr>ap_sm := f (ap_sm a)\<rparr>) = on_page c a"
    by (simp_all add: shown_def on_page_def)
  then show "\<exists>ts. shown c (peer_String E p) (lift_sm W f a) = shown c (peer_String E p) a @ ts \<and>
      delivered E p (f (ap_sm a)) = delivered E p (ap_sm a) @ ts"
    and "on_page c (lift_sm W f a)"
    using web_events_shown [of c "a\<lparr>ap_sm := f (ap_sm a)\<rparr>" E p W evs] assms(1) evs
    by (simp_all add: lift_sm_def Let_def delivered_def)
  show "ap_sm (lift_sm W f a) = f (ap_sm a)" by (simp add: sm_of)
qed

section \<open>Two users\<close>

text \<open>
  A run of two nodes, the second of which is an application with a web page: with each step the
  application performs the calls its stream manager made.
\<close>

inductive page_run :: "(side \<times> side \<Rightarrow> side \<times> side \<Rightarrow> bool) \<Rightarrow> world \<Rightarrow> side \<times> side \<Rightarrow> app \<Rightarrow> side \<times> side \<Rightarrow> app \<Rightarrow> bool"
  for step W n0 a0
where
  start: "page_run step W n0 a0 n0 a0"
| step: "page_run step W n0 a0 n a \<Longrightarrow> step n n' \<Longrightarrow> page_run step W n0 a0 n' (lift_sm W (\<lambda>_. sm (snd n')) a)"

lemma page_run_shows:
  assumes "page_run step W n0 a0 n a" and g: "\<And>n n'. step n n' \<Longrightarrow> grows (sm (snd n)) (sm (snd n'))"
    and "ap_sm a0 = sm (snd n0)" and "on_page c a0"
  shows "step\<^sup>*\<^sup>* n0 n \<and> on_page c a \<and> ap_sm a = sm (snd n) \<and>
    (\<exists>ts. shown c (peer_String E p) a = shown c (peer_String E p) a0 @ ts \<and>
      delivered E p (sm (snd n)) = delivered E p (sm (snd n0)) @ ts)"
  using assms(1)
proof induction
  case start
  then show ?case using assms(3,4) by simp
next
  case (step n a n')
  then have a: "on_page c a" "ap_sm a = sm (snd n)" "grows (ap_sm a) (sm (snd n'))" using g by auto
  let ?a = "lift_sm W (\<lambda>_. sm (snd n')) a"
  obtain ts where "shown c (peer_String E p) ?a = shown c (peer_String E p) a @ ts"
      "delivered E p (sm (snd n')) = delivered E p (sm (snd n)) @ ts"
    using lift_shown(1) [OF a(1), of "\<lambda>_. sm (snd n')" E p W] a(2,3) by auto
  then show ?case
    using step lift_shown(2,3) [OF a(1), of "\<lambda>_. sm (snd n')" W] a(3)
    by (auto intro: rtranclp.rtrancl_into_rtrancl)
qed

section \<open>Properties\<close>

text \<open>
  C4. From keyboard to screen: two nodes start from a fresh connection and take their steps in any
  order, and the second one performs the calls of its web interface, with a page connected by its
  websocket. Then the messages written to that websocket as received from the first node are, beyond
  what was written before, a beginning of what its user typed, in order and each text once; and an
  attacker on the network cannot make the page show anything else, whatever is typed. On the network
  without an attacker, when every text typed is good (not blank, and small enough for an envelope),
  the page has everything once nothing is under way. As in the theorems used, no call of the two
  nodes fails, and lines are read by a clock not more than five minutes behind the writer's.
\<close>

theorem page_shows_what_was_typed:
  assumes "net_start L M n0" and "ap_sm a0 = sm (snd n0)"
    and "ap_web a0 = Some wc" and "c \<in> set (wcClients wc)" and "distinct (wcClients wc)"
  defines "P \<equiv> peer_String (l_env M) (l_peer M)"
  shows "(\<forall>n a. page_run (net_step L M) W n0 a0 n a \<longrightarrow>
       (\<forall>t \<in> set (typed (fst n)) \<union> set (typed (snd n)). good_text t) \<longrightarrow>
       (\<exists>k. shown c P a = shown c P a0 @ map to_valid (take k (typed (fst n)))) \<and>
       (wire (fst n) = [] \<and> wire (snd n) = [] \<longrightarrow> shown c P a = shown c P a0 @ map to_valid (typed (fst n)))) \<and>
    (\<forall>n a. page_run (attack_step L M) W n0 a0 n a \<longrightarrow>
       (\<exists>k. shown c P a = shown c P a0 @ map to_valid (take k (typed (fst n)))))"
proof -
  have on: "on_page c a0" using assms(3-5) by (simp add: on_page_def)
  have page: "\<exists>ts. shown c P a = shown c P a0 @ ts \<and> seen M (snd n) = seen M (snd n0) @ ts" "step\<^sup>*\<^sup>* n0 n"
    if "page_run step W n0 a0 n a" "\<And>n n'. step n n' \<Longrightarrow> grows (sm (snd n)) (sm (snd n'))" for step n a
    using page_run_shows [OF that assms(2) on, of "l_env M" "l_peer M"] by (auto simp: seen_def P_def)
  have quiet: "(\<exists>k. shown c P a = shown c P a0 @ map to_valid (take k (typed (fst n)))) \<and>
      (wire (fst n) = [] \<and> wire (snd n) = [] \<longrightarrow> shown c P a = shown c P a0 @ map to_valid (typed (fst n)))"
    if "page_run (net_step L M) W n0 a0 n a" "\<forall>t \<in> set (typed (fst n)) \<union> set (typed (snd n)). good_text t" for n a
    using page [OF that(1) net_step_grows] start_view [OF assms(1), of n] that(2) by (auto simp: good_texts_def)
  have "\<exists>k. shown c P a = shown c P a0 @ map to_valid (take k (typed (fst n)))"
    if "page_run (attack_step L M) W n0 a0 n a" for n a
    using page [OF that attack_step_grows] attack_view [OF assms(1), of n] by auto
  with quiet show ?thesis by blast
qed

lemma page_follows: "step\<^sup>*\<^sup>* n0 n \<Longrightarrow> \<exists>a. page_run step W n0 a0 n a"
  by (induction rule: rtranclp_induct) (blast intro: page_run.intros)+

text \<open>The example nodes, the second with a web page: one message is typed, and read.\<close>

theorem page_shows_what_was_typed_witness:
  "\<exists>n a. page_run (net_step link_A link_B) demo_world (new_side demo_A, new_side demo_B) (demo_app\<lparr>ap_sm := demo_B\<rparr>) n a \<and>
     typed (fst n) = [''hi''] \<and> shown 1 ''A'' a = [''hi'']"
proof -
  let ?n0 = "(new_side demo_A, new_side demo_B)" and ?a0 = "demo_app\<lparr>ap_sm := demo_B\<rparr>"
  obtain n1 where n1: "net_step link_A link_B ?n0 n1" "typed (fst n1) = [''hi'']" "typed (snd n1) = []"
    "room link_A 2 (fst n1)" "room link_B 2 (snd n1)" "length (wire (fst n1)) = 1" "wire (snd n1) = []"
    by (rule demo_typed)
  have run1: "(net_step link_A link_B)\<^sup>*\<^sup>* ?n0 n1" using n1(1) by blast
  have "clock_follows still_env still_env" by (simp add: clock_follows_def still_env_def now_ms_def)
  then have "clock_follows (l_env link_A) (l_env link_B)" "clock_follows (l_env link_B) (l_env link_A)"
    by (simp_all add: link_A_def link_B_def)
  from run_completes [OF demo_start run1 _ this] n1 hi_good obtain n where n: "(net_read link_A link_B)\<^sup>*\<^sup>* n1 n"
      "wire (fst n) = []" "wire (snd n) = []" "typed (fst n) = [''hi'']" "typed (snd n) = []"
    by (auto simp: good_texts_def)
  have "(net_step link_A link_B)\<^sup>*\<^sup>* ?n0 n" using run1 net_reads_run [OF n(1)] by (rule rtranclp_trans)
  then obtain a where a: "page_run (net_step link_A link_B) demo_world ?n0 ?a0 n a" using page_follows by blast
  have start: "ap_sm ?a0 = sm (snd ?n0)" "ap_web ?a0 = ap_web demo_app" by (simp_all add: new_side_def)
  note web = trans [OF start(2) demo_app_simps(5)]
  have P: "peer_String (l_env link_B) (l_peer link_B) = ''A''" by (simp add: link_B_def still_env_def demo_env_def)
  have "shown 1 ''A'' a = shown 1 ''A'' ?a0 @ map to_valid [''hi'']"
    using conjunct1 [OF page_shows_what_was_typed [OF demo_start start(1) web, of 1 demo_world], THEN spec, THEN spec, THEN mp, OF _ _ a]
      n(2-5) hi_good unfolding P by simp
  then have "shown 1 ''A'' a = [''hi'']" by (simp add: shown_def to_valid_ascii)
  then show ?thesis using a n(4) by blast
qed

end
