(* ===== verification/Spec2Isabelle.thy ===== *)
theory Spec2Isabelle
  imports Startup Approval Session_Start Attacker Page_Delivery
begin

text \<open>
  A verification development for the peer-to-peer chat core (\<open>src/\<close>, Go).

  \<^bold>\<open>The program.\<close> A node connects to other nodes over libp2p streams. On each stream the two sides run a
  handshake that authenticates their identity keys and derives two directional session keys
  (\<open>security/e2ee.go\<close>). Chat, acknowledgements and control messages travel as JSON envelopes
  (\<open>protocol/envelope.go\<close>), each encrypted to one line of text. The stream manager (\<open>main.go\<close>,
  \<open>chat_envelope.go\<close>) numbers the messages of each conversation, keeps unacknowledged ones and sends
  them again, and on the other side puts arriving ones back into order. A user approves incoming
  connections and works through a terminal (\<open>main.go\<close>) or a local websocket interface (\<open>web.go\<close>).
  Three stores on disk (\<open>storage/\<close>) keep encrypted histories, trusted peers and verification markers;
  safety numbers (\<open>verification.go\<close>) let two users compare their keys; a DHT (\<open>discovery/\<close>) finds peers.

  \<^bold>\<open>Theories and sources.\<close>

  \<^item> \<open>Agdas_Prelude\<close>, \<open>Go_Strings\<close>, \<open>Base64\<close>, \<open>Go_Json\<close>, \<open>Go_Time\<close>, \<open>Sha256\<close>: what the program uses of Go and its
    standard library. Strings are byte lists, Go maps are association lists behind the locale
    \<open>go_map\<close>, integers that wrap are words. \<open>Go_Json\<close> parses and prints the JSON of the wire and of
    the files, \<open>Go_Time\<close> the RFC 3339 times in them.
  \<^item> \<open>E2ee\<close>, \<open>Handshake\<close>: \<open>security/e2ee.go\<close>.
  \<^item> \<open>Envelope\<close>: \<open>protocol/envelope.go\<close>.
  \<^item> \<open>Stream_Manager\<close>, \<open>Chat_Send\<close>, \<open>Chat_Receive\<close>, \<open>Retransmit\<close>: the record \<open>StreamManager\<close>, then \<open>chat_envelope.go\<close> and
    the read loop of \<open>main.go\<close>.
  \<^item> \<open>Connection\<close>: \<open>AddStream\<close>, \<open>HandleIncomingStream\<close>, the answers, \<open>connectToPeer\<close>, disconnecting.
  \<^item> \<open>Node_Invariant\<close>: the state machine of the node and its invariant. \<open>Approval\<close>: requests and their
    answers among the other steps of the node. \<open>Conversation\<close>: one message from node to node.
  \<^item> \<open>Isolation\<close>: what a node does about other peers leaves a conversation alone. \<open>Node_Effects\<close>: what each operation of a node posts on its stream and which tables it keeps. \<open>Network\<close>,
    \<open>Network_Delivery\<close>: two nodes on a stream under any interleaving of their steps. \<open>Session_Start\<close>: the same from
    the handshake and \<open>AddStream\<close> on. \<open>Attacker\<close>: the same on a network in the hands of an attacker.
    \<open>Page_Delivery\<close>: the same with the web page of the receiving application.
  \<^item> \<open>File_System\<close>, \<open>Record_Store\<close>: paths, files and failing system calls; the contract of a store as
    the locale \<open>durable_store\<close>. \<open>Verification_Store\<close>, \<open>Peer_Store\<close>, \<open>History_Store\<close>: \<open>storage/\<close>.
  \<^item> \<open>Safety_Number\<close>: \<open>verification.go\<close>. \<open>Discovery\<close>: \<open>discovery/\<close>. \<open>Identity\<close>: the key file of \<open>main.go\<close>.
  \<^item> \<open>Web_Api\<close>, \<open>Web_Handlers\<close>: \<open>web.go\<close>, with the state of the whole application. \<open>Cli\<close>: the input loop and the
    commands. \<open>Startup\<close>: \<open>CreateNode\<close>, \<open>StartWebServer\<close>, \<open>main\<close>, and the runs of the application.

  \<^bold>\<open>How state and effects are modelled.\<close> A Go struct is a record with its fields; a pointer that may be
  nil is an option. Each operation takes the state and returns it changed; errors are values of a sum
  or option type. The stream manager keeps the list of its effects (bytes written, streams closed,
  lines printed, calls of the web interface); \<open>lift_sm\<close> of \<open>Web_Api\<close> then performs the calls. The
  clock, the random source, the network and every system call are functions of a step counter in the
  records \<open>env\<close>, \<open>os\<close>, \<open>net\<close> and \<open>dht_lib\<close>; the theorems hold for all of them, so for every pattern of
  failures. A failing write leaves any prefix of its data. Cryptography, libp2p and the DHT are
  parameters; what is assumed of them are the named predicates \<open>aead_correct\<close>, \<open>rand_ok\<close>,
  \<open>keys_roundtrip\<close> and the like, each satisfied by a concrete instance in a witness. A handler is one
  step of the state machines, also where the code gives its locks up in between, with these exceptions: a wait splits a
  handler in two (\<open>incoming_request\<close>, \<open>incoming_decision\<close>), a pass over the waiting messages takes one step for each,
  and the goroutines of \<open>Bootstrap\<close> run step by step under a schedule. \<open>switchPeer\<close> is also given in its two
  critical sections; \<open>switch_races_forget\<close> shows that the invariant of the node is lost when the peer is forgotten between them. A loop over a ticker or a channel is a
  function of the list of its events (\<open>retransmitLoop\<close>, \<open>AdvertiseContinuously\<close>, \<open>readWebSocket\<close>). What the code hands to a goroutine (saving
  a message, loading a history, the two test commands, the web server) happens at the call. A handler
  that blocks on a full channel has the value \<open>None\<close>.

  \<^bold>\<open>What the theorems show.\<close>

  \<^item> Delivery between two nodes: from the handshake on and under any interleaving of typing, sending
    again, reading and waiting, each user sees a beginning of what the other typed, in order and
    once each, and all of it when nothing is under way; reading alone always gets there, and then
    nothing waits for an acknowledgement (\<open>Session_Start\<close>, \<open>Network_Delivery\<close>). This holds on the runs on which
    no text typed is blank or too long for an envelope: the code assigns such a text a number and never delivers it, which
    blocks its direction for good. An attacker who loses,
    reorders, repeats and makes up lines cannot make a user see anything else, whatever is typed (\<open>Attacker\<close>), nor can any
    other peer (\<open>Isolation\<close>); and the events written to the websocket of a page are just what was delivered (\<open>Page_Delivery\<close>).
  \<^item> Delivery at one node: in any order of arrival and with repetitions, delivery has no gap and no
    repetition, loses nothing within the window of 64, and the buffer is bounded (\<open>Chat_Receive\<close>).
  \<^item> A message that is never acknowledged is sent once and five times more, at least two seconds apart,
    then given up and reported. An acknowledged message never waits again; a pass that had already collected
    it may still send it once more, since \<open>retransmitDue\<close> writes before it looks it up (\<open>Retransmit\<close>).
  \<^item> Encryption: the bit window refines the set of seen counters, no packet is accepted twice, nonces
    do not repeat, reflected packets are refused; both sides of a handshake agree, and its success
    means that the other side signed this exchange (\<open>E2ee\<close>, \<open>Handshake\<close>).
  \<^item> Envelopes: encoding round trips, the decoder accepts only what the rules allow (\<open>Envelope\<close>).
  \<^item> Connections open only with an approval and a completed handshake; an answer reaches the request it
    answers whatever the node does about other peers before and after it (\<open>Approval\<close>). A second request of the same peer
    takes the answer of the first (\<open>second_request_takes_answer\<close>).
  \<^item> Stores: a history refines a list under any failing calls; histories are neither
    lost nor overwritten when corrupt, whatever the order of the saves, and are isolated from each other. The verification
    markers refine a set and the saved peers a map when their file can be read; when it cannot, the next successful
    write loses the rest (\<open>unreadable_markers_lost\<close>), and a torn write loses the saved peers (\<open>failed_save_loses_peers\<close>).
  \<^item> Discovery: under every schedule \<open>Bootstrap\<close> counts exactly the peers reached and never deadlocks (\<open>Discovery\<close>).
  \<^item> The application: messages received and typed are shown and stored once; over every run from \<open>main\<close>
    the tables keep their invariant and everything the web interface sends goes to connections whose request carried the token
    drawn at the start, from a local origin; a restart whose \<open>os.Stat\<close> of the identity file succeeds
    opens the same histories (\<open>Web_Handlers\<close>, \<open>Cli\<close>, \<open>Startup\<close>).

  \<^bold>\<open>Bounds and fuel.\<close> The JSON scanner recurses with the length of its input as fuel, which is proved
  to suffice for everything the program writes, and with Go's nesting limit. The loop of
  \<open>drainReceiveBuffer\<close> is a function with a termination proof (the buffer shrinks). \<open>CreateTemp\<close> makes
  Go's 10000 attempts. Sequence numbers, packet counters and key lengths are words of the width of the
  source.

  \<^bold>\<open>The network.\<close> The record \<open>side\<close> of \<open>Network\<close> holds a node and the lines it has written that are not yet
  read. A pass of \<open>retransmitDue\<close> is split into the collection of the due messages and one step for
  each of them, as in the code, which holds no lock between them. The theorems on the reliable
  stream assume what their statements say: on both ends the random source and the writes do not fail
  and the clock does not run backwards, and no other peer has the name of the remote one (\<open>fit\<close>), the reader's clock is at most five minutes behind the
  writer's, and the 64-bit packet counters do not run out (\<open>room\<close>). Those about complete
  delivery ask for good texts (\<open>good_text\<close>); a failed send of any text is a step too (\<open>sent\<close> then records the number it used up).
  The attacker of \<open>Attacker\<close> is bounded by
  \<open>genuine\<close> alone: a line that opens under the receive key opens to a plaintext the other side sealed.

  \<^bold>\<open>Not modelled.\<close> The HTTP server and the JSON text of websocket frames, colour codes and the texts
  of library errors in printed lines, the deferred closes at the end of the process, and an
  interleaving inside the two test commands:
  they are library calls or presentation, or have no state of their own. The web page, scripts and
  tests are not part of the core.
\<close>

end
